(* ===== verification/Prelude.thy ===== *)
theory Prelude
  imports Main "HOL-Library.Word"
begin

text \<open>
  What the component theories share: the C integer types as words, the little-endian memory
  image of integers on x86-64, the return codes of the server, and generic
  lemmas on lists and words.

  Two collections carry the component proofs: \<open>ism_simps\<close> (definitions and equations that are
  unfolded freely) and \<open>ism_inv\<close> (facts that an operation keeps an invariant).
\<close>

unbundle bit_operations_syntax

named_theorems ism_simps \<open>definitions and equations unfolded in component proofs\<close>
named_theorems ism_inv \<open>operations keep the invariant of their component\<close>

type_synonym u8 = "8 word"
type_synonym u16 = "16 word"
type_synonym u32 = "32 word"
type_synonym u64 = "64 word"

section \<open>Little-endian memory images\<close>

text \<open>The number stored in a run of bytes, least significant byte first.\<close>

fun le_nat :: "u8 list \<Rightarrow> nat" where
  "le_nat [] = 0"
| "le_nat (b # bs) = unat b + 256 * le_nat bs"

text \<open>The low \<open>n\<close> bytes of a number, least significant byte first.\<close>

fun le_bytes :: "nat \<Rightarrow> nat \<Rightarrow> u8 list" where
  "le_bytes 0 x = []"
| "le_bytes (Suc n) x = of_nat (x mod 256) # le_bytes n (x div 256)"

lemma length_le_bytes [simp]: "length (le_bytes n x) = n"
  by (induction n arbitrary: x) auto

lemma unat_byte_less [simp]: "unat (b :: u8) < 256"
  using unsigned_less [of b, where ?'a = nat] by simp

lemma le_nat_bound: "le_nat bs < 256 ^ length bs"
proof (induction bs)
  case Nil
  then show ?case by simp
next
  case (Cons b bs)
  have "unat b + 256 * le_nat bs < 256 * (le_nat bs + 1)" by simp
  also have "\<dots> \<le> 256 * 256 ^ length bs" using Cons by simp
  finally show ?case by simp
qed

lemma le_nat_le_bytes: "le_nat (le_bytes n x) = x mod 256 ^ n"
proof (induction n arbitrary: x)
  case 0
  then show ?case by simp
next
  case (Suc n)
  have "unat (of_nat (x mod 256) :: u8) = x mod 256"
    by (simp add: unat_of_nat)
  then show ?case by (simp add: Suc mod_mult2_eq)
qed

lemma le_nat_inj: "length as = length bs \<Longrightarrow> le_nat as = le_nat bs \<longleftrightarrow> as = bs"
proof (induction as bs rule: list_induct2)
  case Nil
  then show ?case by simp
next
  case (Cons a as b bs)
  have "le_nat (a # as) = le_nat (b # bs) \<longleftrightarrow> unat a = unat b \<and> le_nat as = le_nat bs"
  proof
    assume eq: "le_nat (a # as) = le_nat (b # bs)"
    then have "le_nat (a # as) mod 256 = le_nat (b # bs) mod 256"
      and "le_nat (a # as) div 256 = le_nat (b # bs) div 256" by simp_all
    then show "unat a = unat b \<and> le_nat as = le_nat bs" by simp
  qed simp
  then show ?case using Cons.IH by (simp add: word_unat_eq_iff)
qed

lemma word_le_inj:
  assumes "length as = length bs" and "256 ^ length bs \<le> (2::nat) ^ LENGTH('a)"
  shows "(of_nat (le_nat as) :: 'a::len word) = of_nat (le_nat bs) \<longleftrightarrow> as = bs"
proof -
  have "le_nat as < 2 ^ LENGTH('a)" and "le_nat bs < 2 ^ LENGTH('a)"
    using le_nat_bound [of as] le_nat_bound [of bs] assms by simp_all
  then show ?thesis
    using le_nat_inj [OF assms(1)] by (metis mod_less unat_of_nat)
qed

text \<open>The eight bytes in memory of a 64-bit integer.\<close>

definition u64_image :: "u64 \<Rightarrow> u8 list" where
  "u64_image x = le_bytes 8 (unat x)"

lemma length_u64_image [simp]: "length (u64_image x) = 8"
  by (simp add: u64_image_def)

lemma le_nat_u64_image [simp]: "le_nat (u64_image x) = unat x"
  using unsigned_less [of x, where ?'a = nat] by (simp add: u64_image_def le_nat_le_bytes)

lemma u64_image_inj [simp]: "u64_image x = u64_image y \<longleftrightarrow> x = y"
  by (metis le_nat_u64_image word_unat_eq_iff)

section \<open>Lists\<close>

lemma concat_update_split:
  assumes "i < length xs"
  shows "concat (xs[i := c]) = concat (take i xs) @ c @ concat (drop (Suc i) xs)"
  using assms by (simp add: upd_conv_take_nth_drop)

lemma concat_nth_split:
  assumes "i < length xs"
  shows "concat xs = concat (take i xs) @ xs ! i @ concat (drop (Suc i) xs)"
  using concat_update_split [OF assms, of "xs ! i"] by simp

lemma length_concat_update:
  assumes "i < length xs"
  shows "length (concat (xs[i := c])) + length (xs ! i) = length (concat xs) + length c"
proof -
  have "length (concat xs) = length (concat (take i xs)) + length (xs ! i) + length (concat (drop (Suc i) xs))"
    using arg_cong [OF concat_nth_split [OF assms], of length] by simp
  moreover have "length (concat (xs[i := c]))
      = length (concat (take i xs)) + length c + length (concat (drop (Suc i) xs))"
    using arg_cong [OF concat_update_split [OF assms, of c], of length] by simp
  ultimately show ?thesis by simp
qed

lemma length_filter_update:
  assumes "i < length xs"
  shows "length (filter P (xs[i := c])) + (if P (xs ! i) then 1 else 0)
     = length (filter P xs) + (if P c then 1 else 0)"
proof -
  have "filter P xs = filter P (take i xs @ xs ! i # drop (Suc i) xs)"
    using id_take_nth_drop [OF assms] by simp
  moreover have "filter P (xs[i := c]) = filter P (take i xs @ c # drop (Suc i) xs)"
    by (simp only: upd_conv_take_nth_drop [OF assms])
  ultimately show ?thesis by simp
qed

lemma set_concat_nth: "x \<in> set (concat xs) \<longleftrightarrow> (\<exists>i<length xs. x \<in> set (xs ! i))"
  unfolding set_concat by (metis UN_iff in_set_conv_nth)

lemma set_nth_concat: "i < length xs \<Longrightarrow> set (xs ! i) \<subseteq> set (concat xs)"
  by (auto intro: nth_mem)

lemma nth_length_le_concat: "i < length xs \<Longrightarrow> length (xs ! i) \<le> length (concat xs)"
  using length_concat_update [of i xs "[]"] by simp

section \<open>Words\<close>

lemma unat_and_le: "unat (x AND m) \<le> unat (m :: 'a::len word)"
  by (simp add: word_and_le1 word_le_nat_alt [symmetric])

lemma unat_and_15: "unat (w AND 0xF :: 'a::len word) = unat w mod 16"
proof -
  have "w AND 0xF = take_bit 4 w" by (simp add: take_bit_eq_mask mask_eq_exp_minus_1)
  then have "unat (w AND 0xF) = take_bit 4 (unat w)" by (simp only: unsigned_take_bit_eq)
  then show ?thesis by (simp add: take_bit_eq_mod)
qed

lemma unat_and_255: "unat (w AND 0xFF :: 'a::len word) = unat w mod 256"
proof -
  have "w AND 0xFF = take_bit 8 w" by (simp add: take_bit_eq_mask mask_eq_exp_minus_1)
  then have "unat (w AND 0xFF) = take_bit 8 (unat w)" by (simp only: unsigned_take_bit_eq)
  then show ?thesis by (simp add: take_bit_eq_mod)
qed

lemma unat_drop_bit: "unat (drop_bit n w :: 'a::len word) = unat w div 2 ^ n"
  by (simp only: unsigned_drop_bit_eq) (simp add: take_bit_eq_mod drop_bit_eq_div)

lemma unat_minus_one_less: "c \<noteq> 0 \<Longrightarrow> unat (c - 1 :: 'a::len word) < unat c"
  by (simp add: unat_minus_one unat_gt_0)

lemma sint_small: "unat (x :: u32) < 2 ^ 31 \<Longrightarrow> sint x = int (unat x)"
  unfolding sint_uint uint_nat by (rule signed_take_bit_int_eq_self) (simp_all del: of_nat_unat)

text \<open>A small number survives being stored in a \<^verbatim>\<open>char\<close>, which is signed.\<close>

lemma sint_u8_small: "unat (x :: u8) < 128 \<Longrightarrow> sint x = int (unat x)"
  unfolding sint_uint uint_nat by (rule signed_take_bit_int_eq_self) (simp_all del: of_nat_unat)

lemma unat_ucast_small: "unat (x :: u32) < 256 \<Longrightarrow> unat (ucast x :: u8) = unat x"
  by (simp add: unsigned_ucast_eq take_bit_nat_eq_self)

lemma scast_ucast_small: "unat (x :: u32) < 128 \<Longrightarrow> scast (ucast x :: u8) = x"
  by (simp add: scast_eq sint_u8_small unat_ucast_small)

lemma unat_times:
  fixes c :: u32
  assumes "unat c * k < 2 ^ 32"
  shows "unat (c * of_nat k) = unat c * k"
proof (cases "unat c = 0")
  case False
  then have "k < 2 ^ 32" using assms by (metis le_less_trans mult_le_mono1 nat_mult_1 Suc_leI neq0_conv One_nat_def)
  then show ?thesis using assms by (simp add: unat_word_ariths unat_of_nat)
qed (simp add: unat_eq_0)

lemma of_nat_eq_0_iff_u64: "n < 2 ^ 64 \<Longrightarrow> (of_nat n :: u64) = 0 \<longleftrightarrow> n = 0"
  by (auto simp: word_unat_eq_iff unat_of_nat)

lemma unat_ucast_u64: "unat (ucast (w :: u32) :: u64) = unat w"
proof -
  have "unat w < 2 ^ 32" using unsigned_less [of w] by simp
  then show ?thesis by (simp add: unsigned_ucast_eq take_bit_nat_eq_self)
qed

section \<open>Return codes\<close>

text \<open>The codes of \<^verbatim>\<open>src/server_utils/include/ismrc.h\<close> that the modelled functions return.\<close>

definition OK :: int where "OK = 0"

definition ISMRC_ExistingKey :: int where "ISMRC_ExistingKey = 19"

definition ISMRC_AllocateError :: int where "ISMRC_AllocateError = 103"

definition ISMRC_NotFound :: int where "ISMRC_NotFound = 113"

definition ISMRC_InvalidParameter :: int where "ISMRC_InvalidParameter = 207"

definition ISMRC_Error :: int where "ISMRC_Error = 100"

lemmas rc_defs = OK_def ISMRC_ExistingKey_def ISMRC_AllocateError_def ISMRC_NotFound_def

end
