(* ===== verification/KeyValue.thy ===== *)
theory KeyValue
  imports Prelude
begin

text \<open>
  The contract between a hash table of the server and the code that uses it: what a lookup returns
  after an insertion or a removal, and that both keep the representation invariant. The general
  hash map (\<open>HashMap\<close>) and the engine's hash table (\<open>EngineHashTable\<close>) provide it; the message-id
  lists (\<open>MsgId\<close>) are a client of the first.

  \<open>room\<close> says that one more entry can be counted by the table, \<open>key_ok\<close> which values are keys.
\<close>

locale kv_map =
  fixes inv :: "'m \<Rightarrow> bool" and room :: "'m \<Rightarrow> bool" and key_ok :: "'k \<Rightarrow> bool"
    and get :: "'m \<Rightarrow> 'k \<Rightarrow> 'v option" and put :: "'k \<Rightarrow> 'v \<Rightarrow> 'm \<Rightarrow> 'm" and del :: "'k \<Rightarrow> 'm \<Rightarrow> 'm"
  assumes inv_put: "inv m \<Longrightarrow> room m \<Longrightarrow> key_ok k \<Longrightarrow> inv (put k v m)"
    and get_put: "inv m \<Longrightarrow> room m \<Longrightarrow> key_ok k \<Longrightarrow> key_ok k' \<Longrightarrow>
      get (put k v m) k' = (if k' = k then Some v else get m k')"
    and inv_del: "inv m \<Longrightarrow> key_ok k \<Longrightarrow> inv (del k m)"
    and get_del: "inv m \<Longrightarrow> key_ok k \<Longrightarrow> key_ok k' \<Longrightarrow>
      get (del k m) k' = (if k' = k then None else get m k')"
begin

text \<open>The keys of a table, of those a client can name.\<close>

definition keys :: "'m \<Rightarrow> 'k set" where
  "keys m = {k. key_ok k \<and> get m k \<noteq> None}"

lemma keys_put: "inv m \<Longrightarrow> room m \<Longrightarrow> key_ok k \<Longrightarrow> keys (put k v m) = insert k (keys m)"
  by (auto simp: keys_def get_put)

lemma keys_del: "inv m \<Longrightarrow> key_ok k \<Longrightarrow> keys (del k m) = keys m - {k}"
  by (auto simp: keys_def get_del split: if_splits)

lemma get_del_put:
  "inv m \<Longrightarrow> room m \<Longrightarrow> key_ok k \<Longrightarrow> key_ok k' \<Longrightarrow> get m k = None \<Longrightarrow>
    get (del k (put k v m)) k' = get m k'"
  by (simp add: get_put get_del inv_put)

text \<open>Removing one key after the other: exactly these are gone.\<close>

lemma inv_dels: "inv m \<Longrightarrow> \<forall>k \<in> set ks. key_ok k \<Longrightarrow> inv (fold del ks m)"
  by (induction ks arbitrary: m) (auto simp: inv_del)

lemma get_dels:
  "inv m \<Longrightarrow> \<forall>k \<in> set ks. key_ok k \<Longrightarrow> key_ok k' \<Longrightarrow>
    get (fold del ks m) k' = (if k' \<in> set ks then None else get m k')"
  by (induction ks arbitrary: m) (auto simp: inv_del get_del)

end

text \<open>
  The contract of a store that keeps a copy of each value: \<open>stored v\<close> is what a lookup returns after \<open>v\<close> was put, \<open>val_ok\<close> says
  which values can be copied, \<open>room n\<close> that \<open>n\<close> more entries can be added. The properties objects (\<open>Properties\<close>) provide it.
\<close>

locale kv_store =
  fixes inv :: "'m \<Rightarrow> bool" and room :: "nat \<Rightarrow> 'm \<Rightarrow> bool" and key_ok :: "'k \<Rightarrow> bool" and val_ok :: "'v \<Rightarrow> bool" and stored :: "'v \<Rightarrow> 'v"
    and get :: "'m \<Rightarrow> 'k \<Rightarrow> 'v option" and put :: "'k \<Rightarrow> 'v \<Rightarrow> 'm \<Rightarrow> 'm" and del :: "'k \<Rightarrow> 'm \<Rightarrow> 'm"
  assumes inv_put: "inv m \<Longrightarrow> room (Suc n) m \<Longrightarrow> key_ok k \<Longrightarrow> val_ok v \<Longrightarrow> inv (put k v m)"
    and room_put: "inv m \<Longrightarrow> room (Suc n) m \<Longrightarrow> key_ok k \<Longrightarrow> val_ok v \<Longrightarrow> room n (put k v m)"
    and get_put: "inv m \<Longrightarrow> room (Suc n) m \<Longrightarrow> key_ok k \<Longrightarrow> val_ok v \<Longrightarrow> key_ok k' \<Longrightarrow>
      get (put k v m) k' = (if k' = k then Some (stored v) else get m k')"
    and inv_del: "inv m \<Longrightarrow> key_ok k \<Longrightarrow> inv (del k m)"
    and get_del: "inv m \<Longrightarrow> key_ok k \<Longrightarrow> key_ok k' \<Longrightarrow> get (del k m) k' = (if k' = k then None else get m k')"
begin

text \<open>Putting one pair after the other: each key has the last value put for it.\<close>

lemma inv_puts:
  "inv m \<Longrightarrow> room (length kvs) m \<Longrightarrow> \<forall>(k, v) \<in> set kvs. key_ok k \<and> val_ok v \<Longrightarrow> inv (fold (\<lambda>(k, v). put k v) kvs m)"
  by (induction kvs arbitrary: m) (auto simp: inv_put room_put)

lemma get_puts:
  assumes "inv m" and "room (length kvs) m" and "\<forall>(k, v) \<in> set kvs. key_ok k \<and> val_ok v" and "key_ok k'"
  shows "get (fold (\<lambda>(k, v). put k v) kvs m) k' =
    (case map_of (rev kvs) k' of Some v \<Rightarrow> Some (stored v) | None \<Rightarrow> get m k')"
  using assms(1-3)
proof (induction kvs arbitrary: m)
  case (Cons kv kvs)
  then show ?case using assms(4)
    by (cases kv) (auto simp: inv_put room_put get_put map_add_def split: option.splits)
qed simp

end

section \<open>Association lists changed at an index\<close>

lemma map_of_insert_at:
  "k \<notin> fst ` set xs \<Longrightarrow> map_of (take i xs @ (k, v) # drop i xs) = (map_of xs)(k \<mapsto> v)"
proof (induction xs arbitrary: i)
  case (Cons x xs)
  then show ?case by (cases i) (auto simp: fun_upd_twist)
qed simp

lemma map_of_update_at:
  "i < length xs \<Longrightarrow> distinct (map fst xs) \<Longrightarrow> fst (xs ! i) = k \<Longrightarrow> map_of (xs[i := (k, v)]) = (map_of xs)(k \<mapsto> v)"
proof (induction xs arbitrary: i)
  case (Cons x xs)
  show ?case
  proof (cases i)
    case (Suc j)
    then have "fst (xs ! j) = k" "j < length xs" using Cons.prems by auto
    moreover from this have "k \<noteq> fst x" using Cons.prems(2) by (metis distinct.simps(2) image_eqI list.map(2) list.set_map nth_mem)
    ultimately show ?thesis using Cons Suc by (auto simp: fun_upd_twist)
  qed (use Cons.prems in auto)
qed simp

lemma map_of_remove_at:
  "i < length xs \<Longrightarrow> distinct (map fst xs) \<Longrightarrow> fst (xs ! i) = k \<Longrightarrow>
    map_of (take i xs @ drop (Suc i) xs) = (map_of xs)(k := None)"
proof (induction xs arbitrary: i)
  case (Cons x xs)
  show ?case
  proof (cases i)
    case 0
    have "map_of xs k = None" using Cons.prems 0 by (auto simp: map_of_eq_None_iff)
    then show ?thesis using Cons.prems 0 by (auto simp: fun_eq_iff)
  next
    case (Suc j)
    then have "fst (xs ! j) = k" "j < length xs" using Cons.prems by auto
    moreover from this have "k \<noteq> fst x" using Cons.prems(2) by (metis distinct.simps(2) image_eqI list.map(2) list.set_map nth_mem)
    ultimately show ?thesis using Cons Suc by (auto simp: fun_upd_twist)
  qed
qed simp

lemma distinct_insert_at: "x \<notin> set xs \<Longrightarrow> distinct xs \<Longrightarrow> distinct (take i xs @ x # drop i xs)"
  using set_take_disj_set_drop_if_distinct [of xs i i] by (auto dest: in_set_takeD in_set_dropD)

lemma distinct_remove_at: "distinct xs \<Longrightarrow> distinct (take i xs @ drop (Suc i) xs)"
  using set_take_disj_set_drop_if_distinct [of xs i "Suc i"] by auto

lemma set_remove_at: "x \<in> set (take i xs @ drop (Suc i) xs) \<Longrightarrow> x \<in> set xs"
  by (auto dest: in_set_takeD in_set_dropD)

lemma set_insert_at: "x \<in> set (take i xs @ y # drop i xs) \<longleftrightarrow> x = y \<or> x \<in> set xs"
  by (metis Un_iff append_take_drop_id insert_iff list.simps(15) set_append)

lemma sorted_insert_at:
  "sorted xs \<Longrightarrow> \<forall>y \<in> set (take i xs). y \<le> x \<Longrightarrow> \<forall>y \<in> set (drop i xs). x \<le> y \<Longrightarrow> sorted (take i xs @ x # drop i xs)"
  for xs :: "'a::linorder list"
  using sorted_wrt_append [of "(\<le>)" "take i xs" "drop i xs"] by (auto simp: sorted_wrt_append)

lemma sorted_remove_at: "sorted xs \<Longrightarrow> sorted (take i xs @ drop (Suc i) xs)" for xs :: "'a::linorder list"
proof -
  assume "sorted xs"
  then have "\<forall>x \<in> set (take i xs). \<forall>y \<in> set (drop i xs). x \<le> y"
    by (metis append_take_drop_id sorted_append)
  moreover have "set (drop (Suc i) xs) \<subseteq> set (drop i xs)" by (rule set_drop_subset_set_drop) simp
  ultimately show ?thesis using \<open>sorted xs\<close> by (auto simp: sorted_append sorted_wrt_drop)
qed

section \<open>Tables of buckets\<close>

text \<open>
  A table is a list of buckets, each a list of entries; \<open>bt_ok\<close> says that the keys of a bucket are
  distinct and belong to it, \<open>bt_abs\<close> is the map the table stands for.
\<close>

definition bt_ok :: "('e \<Rightarrow> 'k) \<Rightarrow> ('k \<Rightarrow> nat) \<Rightarrow> 'e list list \<Rightarrow> bool" where
  "bt_ok key bucket els \<longleftrightarrow>
     (\<forall>i < length els. distinct (map key (els ! i)) \<and> (\<forall>e \<in> set (els ! i). bucket (key e) = i))"

definition bt_chain :: "('e \<Rightarrow> 'k) \<Rightarrow> ('e \<Rightarrow> 'v) \<Rightarrow> 'e list \<Rightarrow> 'k \<rightharpoonup> 'v" where
  "bt_chain key val es = map_of (map (\<lambda>e. (key e, val e)) es)"

definition bt_abs :: "('e \<Rightarrow> 'k) \<Rightarrow> ('e \<Rightarrow> 'v) \<Rightarrow> 'e list list \<Rightarrow> 'k \<rightharpoonup> 'v" where
  "bt_abs key val els = bt_chain key val (concat els)"

lemma bt_chain_append: "bt_chain key val (xs @ ys) = bt_chain key val ys ++ bt_chain key val xs"
  by (simp add: bt_chain_def)

lemma bt_chain_None: "bt_chain key val es k = None \<longleftrightarrow> k \<notin> key ` set es"
  by (auto simp: bt_chain_def map_of_eq_None_iff image_image)

lemma dom_bt_chain: "dom (bt_chain key val es) = key ` set es"
  by (simp add: bt_chain_def dom_map_of_conv_image_fst image_image)

lemma bt_lookup:
  assumes "bt_ok key bucket els" and "bucket k < length els"
  shows "bt_abs key val els k = bt_chain key val (els ! bucket k) k"
proof -
  have none: "bt_chain key val (concat ys) k = None"
    if other: "\<And>c. c \<in> set ys \<Longrightarrow> \<exists>j < length els. j \<noteq> bucket k \<and> c = els ! j" for ys
  proof (rule ccontr)
    assume "bt_chain key val (concat ys) k \<noteq> None"
    then obtain c e where e: "c \<in> set ys" "e \<in> set c" "k = key e" unfolding bt_chain_None by auto
    obtain j where "j < length els" "j \<noteq> bucket k" "c = els ! j" using other [OF e(1)] by blast
    then show False using assms(1) e by (auto simp: bt_ok_def)
  qed
  let ?i = "bucket k"
  have split: "concat els = concat (take ?i els) @ els ! ?i @ concat (drop (Suc ?i) els)"
    using assms(2) by (metis append_take_drop_id concat.simps(2) concat_append Cons_nth_drop_Suc)
  have "bt_chain key val (concat (take ?i els)) k = None"
  proof (rule none)
    fix c assume "c \<in> set (take ?i els)"
    then obtain j where "j < ?i" "c = els ! j" using assms(2) by (auto simp: in_set_conv_nth)
    then show "\<exists>j < length els. j \<noteq> ?i \<and> c = els ! j" using assms(2) by (intro exI [of _ j]) simp
  qed
  moreover have "bt_chain key val (concat (drop (Suc ?i) els)) k = None"
  proof (rule none)
    fix c assume "c \<in> set (drop (Suc ?i) els)"
    then obtain j where "j < length els - Suc ?i" "c = els ! (Suc ?i + j)" using assms(2) by (auto simp: in_set_conv_nth)
    then show "\<exists>j < length els. j \<noteq> ?i \<and> c = els ! j" by (intro exI [of _ "Suc ?i + j"]) simp
  qed
  ultimately show ?thesis by (simp add: bt_abs_def split bt_chain_append map_add_def split: option.split)
qed

lemma bt_lookup_outside:
  "bt_ok key bucket els \<Longrightarrow> length els \<le> bucket k \<Longrightarrow> bt_abs key val els k = None"
  unfolding bt_abs_def bt_chain_None bt_ok_def by (auto simp: in_set_conv_nth [of _ els])

lemma bt_ok_update:
  "bt_ok key bucket els \<Longrightarrow> distinct (map key c) \<Longrightarrow> \<forall>e \<in> set c. bucket (key e) = i \<Longrightarrow> bt_ok key bucket (els[i := c])"
  unfolding bt_ok_def by (metis length_list_update nth_list_update_eq nth_list_update_neq)

lemma bt_abs_update:
  assumes "bt_ok key bucket els" and "i < length els" and "distinct (map key c)" and "\<forall>e \<in> set c. bucket (key e) = i"
  shows "bt_abs key val (els[i := c]) k = (if bucket k = i then bt_chain key val c k else bt_abs key val els k)"
  using assms bt_lookup [OF assms(1), of k val] bt_lookup [OF bt_ok_update [OF assms(1,3,4)], of k val]
    bt_lookup_outside [OF assms(1), of k val] bt_lookup_outside [OF bt_ok_update [OF assms(1,3,4)], of k val]
  by (cases "bucket k < length els") auto

lemma bt_distinct:
  assumes "bt_ok key bucket els"
  shows "distinct (map key (concat els))"
proof -
  have "distinct (map key (concat (take n els)))" if "n \<le> length els" for n
    using that
  proof (induction n)
    case (Suc n)
    have "key ` set (concat (take n els)) \<inter> key ` set (els ! n) = {}"
    proof (rule ccontr)
      assume "\<not> ?thesis"
      then obtain c e e' where "c \<in> set (take n els)" "e \<in> set c" "e' \<in> set (els ! n)" "key e = key e'" by auto
      then obtain j where "j < n" "e \<in> set (els ! j)" using Suc.prems by (auto simp: in_set_conv_nth [of c])
      then have "bucket (key e) = j" "bucket (key e') = n"
        using assms Suc.prems \<open>e' \<in> _\<close> by (auto simp: bt_ok_def)
      then show False using \<open>j < n\<close> \<open>key e = key e'\<close> by simp
    qed
    then show ?case using Suc assms by (simp add: take_Suc_conv_app_nth bt_ok_def)
  qed simp
  from this [of "length els"] show ?thesis by simp
qed

lemma bt_count:
  assumes "bt_ok key bucket els"
  shows "card (dom (bt_abs key val els)) = length (concat els)"
proof -
  have "dom (bt_abs key val els) = set (map key (concat els))"
    by (auto simp: bt_abs_def bt_chain_def dom_map_of_conv_image_fst image_image)
  then show ?thesis using distinct_card [OF bt_distinct [OF assms]] by simp
qed

lemma bt_Some_iff:
  assumes "bt_ok key bucket els"
  shows "bt_abs key val els k = Some v \<longleftrightarrow> (\<exists>e \<in> set (concat els). key e = k \<and> val e = v)"
proof -
  have "map fst (map (\<lambda>e. (key e, val e)) (concat els)) = map key (concat els)" by simp
  then have "distinct (map fst (map (\<lambda>e. (key e, val e)) (concat els)))" using bt_distinct [OF assms] by (simp only:)
  then show ?thesis by (auto simp: bt_abs_def bt_chain_def map_of_eq_Some_iff simp del: set_concat)
qed

end
