(* ===== verification/HashMap.thy ===== *)
theory HashMap
  imports KeyValue
begin

text \<open>
  The general hash map of the server, \<^verbatim>\<open>src/server_utils/src/map.c\<close>: chained buckets over a
  power-of-two table, four hash functions, doubling of the table when chains get long.

  A chain of \<^verbatim>\<open>ismHashMapEntry\<close> linked by \<open>next\<close> is a list of entries in chain order; the
  bucket array \<open>elements\<close> is the list of the chains, an empty one standing for the NULL pointer.
  A key pointer is the list of the bytes that can be read at it, or \<open>None\<close> for NULL, and a value
  pointer is an option. Reading past the bytes of a key is undefined in C: such a call has the
  result \<open>None\<close>. The two allocations (\<^verbatim>\<open>malloc\<close> of the entry, \<^verbatim>\<open>calloc\<close> of the doubled table)
  succeed or fail by the parameters \<open>malloc_ok\<close> and \<open>calloc_ok\<close>.
  The lock of a map (mutex or spin lock) is the field \<open>hm_locked\<close>; taking a held lock or
  releasing a free one has no result.

  The lemmas show that every operation keeps the representation invariant \<open>hm_inv\<close> and acts on
  the abstract map \<open>hm_abs\<close> as insertion, lookup and removal do; the locale \<open>kv_map\<close> is the
  contract clients use.
\<close>

section \<open>Data\<close>

datatype ismHashFunctionType_t = HASH_INT32 | HASH_INT64 | HASH_STRING | HASH_BYTE_ARRAY

record 'v ismHashMapEntry =
  hme_hash_code :: u32
  hme_key_len :: nat
  hme_key :: "u8 list"
  hme_value :: 'v

record 'v ismHashMap =
  hm_hashFunc :: ismHashFunctionType_t
  hm_elements :: "'v ismHashMapEntry list list"
  hm_locked :: bool
  hm_mask :: u32
  hm_capacity :: u32
  hm_size :: u32
  hm_nelements :: u32

section \<open>Hash functions\<close>

definition FNV_OFFSET_BASIS_32 :: u32 where "FNV_OFFSET_BASIS_32 = 0x811C9DC5"

definition FNV_PRIME_32 :: u32 where "FNV_PRIME_32 = 0x1000193"

text \<open>
  Each hash function takes the readable bytes at the key and the caller's key length and returns
  the hash with the length of the key, which only the string hash changes.
\<close>

definition memhash_int32 :: "u8 list \<Rightarrow> nat \<Rightarrow> (u32 \<times> nat) option" where
  "memhash_int32 mem len =
     (if length mem < 4 then None
      else let hash = of_nat (le_nat (take 4 mem)) :: u32;
               hash = push_bit 7 hash OR drop_bit 25 hash
           in Some (hash div 127, len))"

definition memhash_int64 :: "u8 list \<Rightarrow> nat \<Rightarrow> (u32 \<times> nat) option" where
  "memhash_int64 mem len =
     (if length mem < 8 then None
      else let val = of_nat (le_nat (take 8 mem)) :: u64;
               val = push_bit 7 val OR drop_bit 57 val
           in Some (ucast ((val div 127) AND 0xFFFFFFFF), len))"

definition fnv_step :: "u32 \<Rightarrow> u8 \<Rightarrow> u32" where
  "fnv_step hash b = (hash XOR ucast b) * FNV_PRIME_32"

fun memhash_string_loop :: "u32 \<Rightarrow> nat \<Rightarrow> u8 list \<Rightarrow> (u32 \<times> nat) option" where
  "memhash_string_loop hash len [] = None"
| "memhash_string_loop hash len (b # bs) =
     (let hash = fnv_step hash b; len = len + 1
      in if b \<noteq> 0 then memhash_string_loop hash len bs else Some (hash, len))"

definition memhash_string :: "u8 list \<Rightarrow> nat \<Rightarrow> (u32 \<times> nat) option" where
  "memhash_string mem len = memhash_string_loop FNV_OFFSET_BASIS_32 0 mem"

definition memhash_byteArray :: "u8 list \<Rightarrow> nat \<Rightarrow> (u32 \<times> nat) option" where
  "memhash_byteArray mem len =
     (if length mem < len then None
      else Some (foldl fnv_step FNV_OFFSET_BASIS_32 (take len mem), len))"

fun hashFunc :: "ismHashFunctionType_t \<Rightarrow> u8 list \<Rightarrow> nat \<Rightarrow> (u32 \<times> nat) option" where
  "hashFunc HASH_INT32 = memhash_int32"
| "hashFunc HASH_INT64 = memhash_int64"
| "hashFunc HASH_STRING = memhash_string"
| "hashFunc HASH_BYTE_ARRAY = memhash_byteArray"

definition ism_common_computeHashCode :: "u8 list \<Rightarrow> nat \<Rightarrow> u32 option" where
  "ism_common_computeHashCode ptr len =
     map_option fst (if len \<noteq> 0 then memhash_byteArray ptr len else memhash_string ptr len)"

section \<open>Creation\<close>

text \<open>The \<open>do\<close> loop that doubles the capacity until it reaches the requested one.\<close>

partial_function (option) hm_grow :: "u32 \<Rightarrow> u32 \<Rightarrow> u32 option" where
  "hm_grow cap capacity =
     (let cap = cap * 2 in if cap < capacity then hm_grow cap capacity else Some cap)"

text \<open>The created map, or \<open>None\<close> for the NULL pointer; no result at all if the loop does not end.\<close>

definition ism_common_createHashMap ::
    "bool \<Rightarrow> bool \<Rightarrow> u32 \<Rightarrow> ismHashFunctionType_t \<Rightarrow> 'v ismHashMap option option" where
  "ism_common_createHashMap map_ok elements_ok capacity hashType =
     (if \<not> map_ok then Some None
      else case (if capacity < 0x1000000 then hm_grow 1 capacity else Some 0x1000000) of
          None \<Rightarrow> None
        | Some cap \<Rightarrow>
            if \<not> elements_ok then Some None
            else Some (Some \<lparr>hm_hashFunc = hashType, hm_elements = replicate (unat cap) [],
                    hm_locked = False, hm_mask = cap - 1, hm_capacity = cap, hm_size = 0,
                    hm_nelements = 0\<rparr>))"

section \<open>Resizing\<close>

text \<open>
  The inner \<open>while\<close> moves the entries of one old chain to the front of their new chains; a new
  chain that was empty counts in \<open>size\<close>. The outer \<open>for\<close> runs over the old buckets.
\<close>

fun hm_move_chain ::
    "u32 \<Rightarrow> 'v ismHashMapEntry list \<Rightarrow> 'v ismHashMapEntry list list \<times> u32
       \<Rightarrow> 'v ismHashMapEntry list list \<times> u32" where
  "hm_move_chain msk [] st = st"
| "hm_move_chain msk (pelm # elm) (elements, sz) =
     (let index = unat (hme_hash_code pelm AND msk);
          next = elements ! index
      in hm_move_chain msk elm
           (elements[index := pelm # next], if next = [] then sz + 1 else sz))"

fun hm_move_chains ::
    "u32 \<Rightarrow> 'v ismHashMapEntry list list \<Rightarrow> 'v ismHashMapEntry list list \<times> u32
       \<Rightarrow> 'v ismHashMapEntry list list \<times> u32" where
  "hm_move_chains msk [] st = st"
| "hm_move_chains msk (c # cs) st = hm_move_chains msk cs (hm_move_chain msk c st)"

definition HM_resize_map :: "bool \<Rightarrow> 'v ismHashMap \<Rightarrow> 'v ismHashMap" where
  "HM_resize_map calloc_ok hash_map =
     (if hm_capacity hash_map > 0xFFFFFF then hash_map
      else if \<not> calloc_ok then hash_map
      else let capacity = hm_capacity hash_map * 2;
               msk = capacity - 1;
               (elements, sz) = hm_move_chains msk (hm_elements hash_map)
                                    (replicate (unat capacity) [], 0)
           in hash_map\<lparr>hm_capacity := capacity, hm_mask := msk,
                       hm_elements := elements, hm_size := sz\<rparr>)"

section \<open>Insertion, lookup and removal\<close>

text \<open>Keys of eight and of four bytes are compared as integers, others by \<^verbatim>\<open>memcmp\<close>.\<close>

definition hm_same_key :: "u8 list \<Rightarrow> u8 list \<Rightarrow> nat \<Rightarrow> bool" where
  "hm_same_key key key' keyLen =
     (if keyLen = 8 then (of_nat (le_nat key) :: 64 word) = of_nat (le_nat key')
      else if keyLen = 4 then (of_nat (le_nat key) :: 32 word) = of_nat (le_nat key')
      else key = key')"

text \<open>The walk along the chain: the previous value and the changed chain, if the key is there.\<close>

fun hm_replace :: "u8 list \<Rightarrow> nat \<Rightarrow> 'v \<Rightarrow> 'v ismHashMapEntry list
    \<Rightarrow> ('v \<times> 'v ismHashMapEntry list) option" where
  "hm_replace key keyLen v [] = None"
| "hm_replace key keyLen v (lle # next) =
     (if hme_key_len lle = keyLen \<and> hm_same_key key (hme_key lle) keyLen
      then Some (hme_value lle, lle\<lparr>hme_value := v\<rparr> # next)
      else map_option (\<lambda>(prev, next'). (prev, lle # next')) (hm_replace key keyLen v next))"

text \<open>
  The test whether to double the table compares floating-point numbers: \<open>1.6 * size > capacity\<close>
  and \<open>nelements / size > 1.6\<close>. All of them are far below \<open>2 ^ 53\<close>, an exact tie rounds to a tie
  and every other pair differs by more than the rounding, so both are comparisons of integers.
\<close>

definition hm_overloaded :: "'v ismHashMap \<Rightarrow> bool" where
  "hm_overloaded hash_map \<longleftrightarrow>
     8 * unat (hm_size hash_map) > 5 * unat (hm_capacity hash_map) \<and>
     5 * unat (hm_nelements hash_map) > 8 * unat (hm_size hash_map)"

text \<open>The new entry into its bucket: the changed map and the previous value.\<close>

definition hm_store :: "nat \<Rightarrow> 'v ismHashMapEntry \<Rightarrow> 'v ismHashMap \<Rightarrow> 'v ismHashMap \<times> 'v option" where
  "hm_store index new_lle hm =
     (let lle = hm_elements hm ! index in
      if lle \<noteq> [] then
        (case hm_replace (hme_key new_lle) (hme_key_len new_lle) (hme_value new_lle) lle of
           Some (previous_value, lle') \<Rightarrow>
             (hm\<lparr>hm_elements := (hm_elements hm)[index := lle']\<rparr>, Some previous_value)
         | None \<Rightarrow>
             (hm\<lparr>hm_elements := (hm_elements hm)[index := lle @ [new_lle]],
                hm_nelements := hm_nelements hm + 1\<rparr>, None))
      else
        (hm\<lparr>hm_elements := (hm_elements hm)[index := [new_lle]],
           hm_size := hm_size hm + 1,
           hm_nelements := hm_nelements hm + 1\<rparr>, None))"

text \<open>The result is the return code, the map and what is stored at \<open>retvalue\<close>.\<close>

definition ism_common_putHashMapElement ::
    "bool \<Rightarrow> bool \<Rightarrow> 'v ismHashMap option \<Rightarrow> u8 list option \<Rightarrow> int \<Rightarrow> 'v option
       \<Rightarrow> (int \<times> 'v ismHashMap option \<times> 'v option) option" where
  "ism_common_putHashMapElement malloc_ok calloc_ok hash_map key key_len value =
     (case (hash_map, key, value) of
        (Some hm, Some mem, Some v) \<Rightarrow>
          if key_len < 0 then Some (-1, hash_map, None)
          else (case hashFunc (hm_hashFunc hm) mem (nat key_len) of
            None \<Rightarrow> None
          | Some (hash_code, keyLen) \<Rightarrow>
              let index = unat (hash_code AND hm_mask hm) in
              if \<not> malloc_ok then Some (-1, hash_map, None)
              else if length mem < keyLen \<or> length (hm_elements hm) \<le> index then None
              else
                let new_lle = \<lparr>hme_hash_code = hash_code, hme_key_len = keyLen,
                               hme_key = take keyLen mem, hme_value = v\<rparr>;
                    (hm1, previous_value) = hm_store index new_lle hm;
                    hm2 = (if hm_overloaded hm1 then HM_resize_map calloc_ok hm1 else hm1)
                in Some (0, Some hm2, previous_value))
      | _ \<Rightarrow> Some (-1, hash_map, None))"

text \<open>The walk of the lookup, which also compares the hash codes: the value and the chain without it.\<close>

fun hm_find :: "u8 list \<Rightarrow> nat \<Rightarrow> u32 \<Rightarrow> 'v ismHashMapEntry list
    \<Rightarrow> ('v \<times> 'v ismHashMapEntry list) option" where
  "hm_find key keyLen hash_code [] = None"
| "hm_find key keyLen hash_code (lle # next) =
     (if (hme_key_len lle = keyLen \<and> hme_hash_code lle = hash_code)
           \<and> hm_same_key key (hme_key lle) keyLen
      then Some (hme_value lle, next)
      else map_option (\<lambda>(v, next'). (v, lle # next')) (hm_find key keyLen hash_code next))"

definition getHashMapElement ::
    "'v ismHashMap option \<Rightarrow> u8 list option \<Rightarrow> int \<Rightarrow> bool
       \<Rightarrow> ('v option \<times> 'v ismHashMap option) option" where
  "getHashMapElement hash_map key key_len remove =
     (case (hash_map, key) of
        (Some hm, Some mem) \<Rightarrow>
          if key_len < 0 \<or> hm_nelements hm = 0 then Some (None, hash_map)
          else (case hashFunc (hm_hashFunc hm) mem (nat key_len) of
            None \<Rightarrow> None
          | Some (hash_code, keyLen) \<Rightarrow>
              let index = unat (hash_code AND hm_mask hm) in
              if length mem < keyLen \<or> length (hm_elements hm) \<le> index then None
              else (case hm_find (take keyLen mem) keyLen hash_code (hm_elements hm ! index) of
                None \<Rightarrow> Some (None, hash_map)
              | Some (v, chain) \<Rightarrow>
                  if remove then
                    Some (Some v, Some (hm\<lparr>hm_elements := (hm_elements hm)[index := chain],
                      hm_size := (if chain = [] then hm_size hm - 1 else hm_size hm),
                      hm_nelements := hm_nelements hm - 1\<rparr>))
                  else Some (Some v, hash_map)))
      | _ \<Rightarrow> Some (None, hash_map))"

definition ism_common_getHashMapElement ::
    "'v ismHashMap option \<Rightarrow> u8 list option \<Rightarrow> int \<Rightarrow> 'v option option" where
  "ism_common_getHashMapElement hash_map key key_len =
     map_option fst (getHashMapElement hash_map key key_len False)"

definition ism_common_removeHashMapElement ::
    "'v ismHashMap option \<Rightarrow> u8 list option \<Rightarrow> int \<Rightarrow> ('v option \<times> 'v ismHashMap option) option" where
  "ism_common_removeHashMapElement hash_map key key_len = getHashMapElement hash_map key key_len True"

section \<open>Locked operations\<close>

definition mapLock :: "'v ismHashMap \<Rightarrow> 'v ismHashMap option" where
  "mapLock hm = (if hm_locked hm then None else Some (hm\<lparr>hm_locked := True\<rparr>))"

definition mapUnlock :: "'v ismHashMap \<Rightarrow> 'v ismHashMap option" where
  "mapUnlock hm = (if hm_locked hm then Some (hm\<lparr>hm_locked := False\<rparr>) else None)"

definition ism_common_putHashMapElementLock ::
    "bool \<Rightarrow> bool \<Rightarrow> 'v ismHashMap \<Rightarrow> u8 list option \<Rightarrow> int \<Rightarrow> 'v option
       \<Rightarrow> (int \<times> 'v ismHashMap \<times> 'v option) option" where
  "ism_common_putHashMapElementLock malloc_ok calloc_ok hash_map key key_len value =
     Option.bind (mapLock hash_map) (\<lambda>hm.
     Option.bind (ism_common_putHashMapElement malloc_ok calloc_ok (Some hm) key key_len value)
       (\<lambda>(retValue, hm', prev).
     Option.bind (Option.bind hm' mapUnlock) (\<lambda>hm''. Some (retValue, hm'', prev))))"

definition ism_common_getHashMapElementLock ::
    "'v ismHashMap \<Rightarrow> u8 list option \<Rightarrow> int \<Rightarrow> ('v option \<times> 'v ismHashMap) option" where
  "ism_common_getHashMapElementLock hash_map key key_len =
     Option.bind (mapLock hash_map) (\<lambda>hm.
     Option.bind (ism_common_getHashMapElement (Some hm) key key_len) (\<lambda>retValue.
     Option.bind (mapUnlock hm) (\<lambda>hm'. Some (retValue, hm'))))"

definition ism_common_removeHashMapElementLock ::
    "'v ismHashMap \<Rightarrow> u8 list option \<Rightarrow> int \<Rightarrow> ('v option \<times> 'v ismHashMap) option" where
  "ism_common_removeHashMapElementLock hash_map key key_len =
     Option.bind (mapLock hash_map) (\<lambda>hm.
     Option.bind (ism_common_removeHashMapElement (Some hm) key key_len) (\<lambda>(retValue, hm').
     Option.bind (Option.bind hm' mapUnlock) (\<lambda>hm''. Some (retValue, hm''))))"

section \<open>Enumeration\<close>

text \<open>
  The entries array, in bucket and chain order; \<open>None\<close> is the \<^verbatim>\<open>abort\<close> of the consistency check
  that its length is \<open>nelements\<close>, or a write through the result of a failed allocation. The terminating \<open>-1\<close> is left out of the list.
\<close>

definition ism_common_getHashMapEntriesArray :: "bool \<Rightarrow> 'v ismHashMap \<Rightarrow> 'v ismHashMapEntry list option" where
  "ism_common_getHashMapEntriesArray malloc_ok hash_map =
     (let result = concat (hm_elements hash_map)
      in if \<not> malloc_ok \<or> (of_nat (length result) :: u32) \<noteq> hm_nelements hash_map then None else Some result)"

fun hm_enumerate :: "('v ismHashMapEntry \<Rightarrow> 'c \<Rightarrow> int \<times> 'c) \<Rightarrow> 'v ismHashMapEntry list \<Rightarrow> 'c \<Rightarrow> int \<times> 'c" where
  "hm_enumerate callback [] context = (0, context)"
| "hm_enumerate callback (hme # next) context =
     (let (rc, context) = callback hme context
      in if rc \<noteq> 0 then (rc, context) else hm_enumerate callback next context)"

definition ism_common_enumerateHashMap ::
    "'v ismHashMap \<Rightarrow> ('v ismHashMapEntry \<Rightarrow> 'c \<Rightarrow> int \<times> 'c) \<Rightarrow> 'c \<Rightarrow> int \<times> 'c" where
  "ism_common_enumerateHashMap hash_map callback context =
     hm_enumerate callback (concat (hm_elements hash_map)) context"

definition ism_common_getHashMapNumElements :: "'v ismHashMap \<Rightarrow> u32" where
  "ism_common_getHashMapNumElements hash_map = hm_nelements hash_map"

text \<open>
  Destroying a map: the values passed to the callback \<open>freeCB\<close>, in this order. Without a map or
  a callback there are none.
\<close>

fun hm_free_values :: "'v ismHashMapEntry list list \<Rightarrow> 'v list" where
  "hm_free_values [] = []"
| "hm_free_values ([] # chs) = hm_free_values chs"
| "hm_free_values ((lle # lle_next) # chs) = hme_value lle # hm_free_values (lle_next # chs)"

definition ism_common_destroyHashMapAndFreeValues :: "'v ismHashMap option \<Rightarrow> bool \<Rightarrow> 'v list" where
  "ism_common_destroyHashMapAndFreeValues hash_map freeCB =
     (case hash_map of None \<Rightarrow> [] | Some hm \<Rightarrow> if freeCB then hm_free_values (hm_elements hm) else [])"

section \<open>Invariant and abstraction\<close>

text \<open>The bucket of a key: defined for the byte strings that the map's hash function accepts as keys.\<close>

definition hm_index :: "ismHashFunctionType_t \<Rightarrow> u32 \<Rightarrow> u8 list \<Rightarrow> nat option" where
  "hm_index ft msk k =
     (case hashFunc ft k (length k) of
        Some (h, n) \<Rightarrow> if n = length k then Some (unat (h AND msk)) else None
      | None \<Rightarrow> None)"

definition hme_ok :: "ismHashFunctionType_t \<Rightarrow> 'v ismHashMapEntry \<Rightarrow> bool" where
  "hme_ok ft e \<longleftrightarrow> hme_key_len e = length (hme_key e) \<and>
     hashFunc ft (hme_key e) (hme_key_len e) = Some (hme_hash_code e, hme_key_len e)"

definition hm_chain_ok :: "ismHashFunctionType_t \<Rightarrow> u32 \<Rightarrow> nat \<Rightarrow> 'v ismHashMapEntry list \<Rightarrow> bool" where
  "hm_chain_ok ft msk i c \<longleftrightarrow> distinct (map hme_key c) \<and>
     (\<forall>e \<in> set c. hme_ok ft e \<and> unat (hme_hash_code e AND msk) = i)"

definition hm_table_ok :: "ismHashFunctionType_t \<Rightarrow> u32 \<Rightarrow> 'v ismHashMapEntry list list \<Rightarrow> bool" where
  "hm_table_ok ft msk els \<longleftrightarrow> (\<forall>i < length els. hm_chain_ok ft msk i (els ! i))"

definition hm_nonempty :: "'v ismHashMapEntry list list \<Rightarrow> nat" where
  "hm_nonempty els = length (filter (\<lambda>c. c \<noteq> []) els)"

definition hm_inv :: "'v ismHashMap \<Rightarrow> bool" where
  "hm_inv hm \<longleftrightarrow>
     (\<exists>n \<le> 24. unat (hm_capacity hm) = 2 ^ n) \<and>
     length (hm_elements hm) = unat (hm_capacity hm) \<and>
     hm_mask hm = hm_capacity hm - 1 \<and>
     hm_table_ok (hm_hashFunc hm) (hm_mask hm) (hm_elements hm) \<and>
     length (concat (hm_elements hm)) < 2 ^ 32 \<and>
     hm_nelements hm = of_nat (length (concat (hm_elements hm))) \<and>
     hm_size hm = of_nat (hm_nonempty (hm_elements hm))"

definition hm_alist :: "'v ismHashMapEntry list \<Rightarrow> (u8 list \<times> 'v) list" where
  "hm_alist c = map (\<lambda>e. (hme_key e, hme_value e)) c"

definition hm_abs :: "'v ismHashMap \<Rightarrow> u8 list \<rightharpoonup> 'v" where
  "hm_abs hm = map_of (hm_alist (concat (hm_elements hm)))"

text \<open>The bytes that identify a key given by its readable bytes and its length.\<close>

definition hm_key :: "ismHashFunctionType_t \<Rightarrow> u8 list \<Rightarrow> int \<Rightarrow> u8 list option" where
  "hm_key ft mem key_len =
     (if key_len < 0 then None
      else case hashFunc ft mem (nat key_len) of
        Some (h, n) \<Rightarrow>
          if n \<le> length mem \<and> hashFunc ft (take n mem) n = Some (h, n) then Some (take n mem) else None
      | None \<Rightarrow> None)"

section \<open>Chains\<close>

lemma hm_same_key_iff:
  "length k = n \<Longrightarrow> length k' = n \<Longrightarrow> hm_same_key k k' n \<longleftrightarrow> k = k'"
  unfolding hm_same_key_def
  using word_le_inj [of k k', where ?'a = 64] word_le_inj [of k k', where ?'a = 32] by auto

lemma hm_alist_simps [simp]:
  "hm_alist [] = []" "hm_alist (e # c) = (hme_key e, hme_value e) # hm_alist c"
  "hm_alist (c @ c') = hm_alist c @ hm_alist c'"
  by (simp_all add: hm_alist_def)

lemma fst_set_hm_alist [simp]: "fst ` set (hm_alist c) = hme_key ` set c"
  by (induction c) auto

lemma map_fst_hm_alist [simp]: "map fst (hm_alist c) = map hme_key c"
  by (induction c) auto

lemma map_of_hm_alist_None: "map_of (hm_alist c) k = None \<longleftrightarrow> k \<notin> hme_key ` set c"
  by (simp add: map_of_eq_None_iff)

lemma hm_chain_ok_Cons:
  "hm_chain_ok ft msk i (e # c) \<longleftrightarrow> hme_ok ft e \<and> unat (hme_hash_code e AND msk) = i \<and>
     hme_key e \<notin> hme_key ` set c \<and> hm_chain_ok ft msk i c"
  by (auto simp: hm_chain_ok_def)

lemma hm_chain_ok_Nil [simp]: "hm_chain_ok ft msk i []"
  by (simp add: hm_chain_ok_def)

lemma hm_chain_ok_snoc:
  "hm_chain_ok ft msk i (c @ [e]) \<longleftrightarrow> hme_ok ft e \<and> unat (hme_hash_code e AND msk) = i \<and>
     hme_key e \<notin> hme_key ` set c \<and> hm_chain_ok ft msk i c"
  by (auto simp: hm_chain_ok_def)

text \<open>For an entry that is well-formed, the tests of both walks compare the keys.\<close>

lemma hme_ok_test:
  assumes "hme_ok ft e"
  shows "hme_key_len e = length k \<and> hm_same_key k (hme_key e) (length k) \<longleftrightarrow> hme_key e = k"
proof (cases "length (hme_key e) = length k")
  case True
  then show ?thesis
    using assms hm_same_key_iff [of k "length k" "hme_key e"] by (auto simp: hme_ok_def)
next
  case False
  then show ?thesis using assms by (auto simp: hme_ok_def)
qed

lemma hme_ok_test_hash:
  assumes "hme_ok ft e" and "hashFunc ft k (length k) = Some (h, length k)"
  shows "(hme_key_len e = length k \<and> hme_hash_code e = h) \<and> hm_same_key k (hme_key e) (length k)
    \<longleftrightarrow> hme_key e = k"
proof -
  have "hme_key e = k \<Longrightarrow> hme_hash_code e = h" using assms by (auto simp: hme_ok_def)
  then show ?thesis using hme_ok_test [OF assms(1), of k] by blast
qed

lemma hm_replace_Cons:
  assumes "hm_chain_ok ft msk i (e # c)"
  shows "hm_replace k (length k) v (e # c) =
    (if hme_key e = k then Some (hme_value e, e\<lparr>hme_value := v\<rparr> # c)
     else map_option (\<lambda>(prev, c'). (prev, e # c')) (hm_replace k (length k) v c))"
  using hme_ok_test [of ft e k] assms by (simp add: hm_chain_ok_Cons)

lemma hm_find_Cons:
  assumes "hm_chain_ok ft msk i (e # c)" and "hashFunc ft k (length k) = Some (h, length k)"
  shows "hm_find k (length k) h (e # c) =
    (if hme_key e = k then Some (hme_value e, c)
     else map_option (\<lambda>(v, c'). (v, e # c')) (hm_find k (length k) h c))"
  using hme_ok_test_hash [of ft e k h] assms by (simp add: hm_chain_ok_Cons)

lemma hm_replace_None:
  assumes "hm_chain_ok ft msk i c" and "hm_replace k (length k) v c = None"
  shows "k \<notin> hme_key ` set c"
  using assms
proof (induction c)
  case (Cons e c)
  then show ?case
    by (simp add: hm_replace_Cons [OF Cons.prems(1)] hm_chain_ok_Cons split: if_splits del: hm_replace.simps)
qed simp

lemma hm_replace_Some:
  assumes "hm_chain_ok ft msk i c" and "hm_replace k (length k) v c = Some (prev, c')"
  shows "hm_chain_ok ft msk i c' \<and> length c' = length c \<and> c \<noteq> [] \<and> c' \<noteq> [] \<and>
    hme_key ` set c' = hme_key ` set c \<and>
    map_of (hm_alist c) k = Some prev \<and> map_of (hm_alist c') = (map_of (hm_alist c))(k \<mapsto> v)"
  using assms
proof (induction c arbitrary: c')
  case Nil
  then show ?case by simp
next
  case (Cons e c)
  have ok: "hm_chain_ok ft msk i c" using Cons.prems(1) by (simp add: hm_chain_ok_Cons)
  note eq = Cons.prems(2) [unfolded hm_replace_Cons [OF Cons.prems(1)]]
  show ?case
  proof (cases "hme_key e = k")
    case True
    then have "prev = hme_value e" and "c' = e\<lparr>hme_value := v\<rparr> # c" using eq by simp_all
    then show ?thesis using Cons.prems(1) True by (auto simp: hm_chain_ok_Cons hme_ok_def)
  next
    case False
    then obtain c'' where c'': "hm_replace k (length k) v c = Some (prev, c'')" "c' = e # c''"
      using eq by auto
    note IH = Cons.IH [OF ok c''(1)]
    then have "map_of (hm_alist c') = (map_of (hm_alist (e # c)))(k \<mapsto> v)"
      using False c''(2) by (simp add: fun_eq_iff)
    moreover have "map_of (hm_alist (e # c)) k = Some prev" using IH False by simp
    ultimately show ?thesis
      using IH Cons.prems(1) c''(2) by (simp add: hm_chain_ok_Cons del: hm_alist_simps map_of.simps)
  qed
qed

lemma hm_find_None:
  assumes "hm_chain_ok ft msk i c" and "hashFunc ft k (length k) = Some (h, length k)"
    and "hm_find k (length k) h c = None"
  shows "k \<notin> hme_key ` set c"
  using assms
proof (induction c)
  case (Cons e c)
  then show ?case
    by (simp add: hm_find_Cons [OF Cons.prems(1,2)] hm_chain_ok_Cons split: if_splits del: hm_find.simps)
qed simp

lemma hm_find_Some:
  assumes "hm_chain_ok ft msk i c" and "hashFunc ft k (length k) = Some (h, length k)"
    and "hm_find k (length k) h c = Some (v, c')"
  shows "hm_chain_ok ft msk i c' \<and> length c = Suc (length c') \<and> set c' \<subseteq> set c \<and>
    map_of (hm_alist c) k = Some v \<and> map_of (hm_alist c') = (map_of (hm_alist c))(k := None)"
  using assms
proof (induction c arbitrary: c')
  case Nil
  then show ?case by simp
next
  case (Cons e c)
  have ok: "hm_chain_ok ft msk i c" using Cons.prems(1) by (simp add: hm_chain_ok_Cons)
  note eq = Cons.prems(3) [unfolded hm_find_Cons [OF Cons.prems(1,2)]]
  show ?case
  proof (cases "hme_key e = k")
    case True
    then have "v = hme_value e" and "c' = c" using eq by simp_all
    moreover have "map_of (hm_alist c) k = None"
      using Cons.prems(1) True by (simp add: hm_chain_ok_Cons map_of_hm_alist_None)
    ultimately show ?thesis
      using ok True by (auto simp: fun_eq_iff)
  next
    case False
    then obtain c'' where c'': "hm_find k (length k) h c = Some (v, c'')" "c' = e # c''"
      using eq by auto
    note IH = Cons.IH [OF ok Cons.prems(2) c''(1)]
    then have "map_of (hm_alist c') = (map_of (hm_alist (e # c)))(k := None)"
      using False c''(2) by (simp add: fun_eq_iff)
    moreover have "map_of (hm_alist (e # c)) k = Some v" using IH False by simp
    moreover have "hme_key e \<notin> hme_key ` set c''" using IH Cons.prems(1) by (auto simp: hm_chain_ok_Cons)
    ultimately show ?thesis
      using IH Cons.prems(1) c''(2) by (auto simp: hm_chain_ok_Cons simp del: hm_alist_simps map_of.simps)
  qed
qed

section \<open>Tables\<close>

lemma hm_table_ok_nth: "hm_table_ok ft msk els \<Longrightarrow> i < length els \<Longrightarrow> hm_chain_ok ft msk i (els ! i)"
  by (simp add: hm_table_ok_def)

lemma hm_table_ok_update:
  "hm_table_ok ft msk els \<Longrightarrow> hm_chain_ok ft msk i c \<Longrightarrow> hm_table_ok ft msk (els[i := c])"
  unfolding hm_table_ok_def by (metis length_list_update nth_list_update_eq nth_list_update_neq)

lemma hm_table_ok_replicate [simp]: "hm_table_ok ft msk (replicate n [])"
  by (simp add: hm_table_ok_def)

text \<open>An entry is in the bucket its hash code selects, so a key is looked up in one bucket only.\<close>

lemma hm_table_entry:
  assumes "hm_table_ok ft msk els" and "e \<in> set (concat els)"
  shows "hme_ok ft e \<and> unat (hme_hash_code e AND msk) < length els
    \<and> e \<in> set (els ! unat (hme_hash_code e AND msk))"
proof -
  obtain i where "i < length els" and "e \<in> set (els ! i)"
    using assms(2) by (auto simp only: set_concat_nth)
  then show ?thesis
    using hm_table_ok_nth [OF assms(1)] by (auto simp: hm_chain_ok_def)
qed

lemma hm_lookup_bucket:
  assumes "hm_table_ok ft msk els" and "hashFunc ft k (length k) = Some (h, length k)"
    and "unat (h AND msk) < length els"
  shows "map_of (hm_alist (concat els)) k = map_of (hm_alist (els ! unat (h AND msk))) k"
proof -
  let ?i = "unat (h AND msk)"
  have "k \<notin> hme_key ` set (concat (take ?i els))" 
  proof
    assume "k \<in> hme_key ` set (concat (take ?i els))"
    then obtain e j where "j < ?i" "j < length els" "e \<in> set (els ! j)" "hme_key e = k"
      by (auto simp: set_concat_nth simp del: set_concat)
    then show False
      using hm_table_ok_nth [OF assms(1)] assms(2) by (force simp: hm_chain_ok_def hme_ok_def)
  qed
  then have before: "map_of (hm_alist (concat (take ?i els))) k = None"
    by (simp only: map_of_hm_alist_None not_False_eq_True)
  have "k \<notin> hme_key ` set (concat (drop (Suc ?i) els))"
  proof
    assume "k \<in> hme_key ` set (concat (drop (Suc ?i) els))"
    then obtain e j where "j < length (drop (Suc ?i) els)" "e \<in> set (drop (Suc ?i) els ! j)" "hme_key e = k"
      by (auto simp: set_concat_nth simp del: set_concat)
    then have "Suc ?i + j < length els" "e \<in> set (els ! (Suc ?i + j))" "hme_key e = k" by auto
    then show False
      using hm_table_ok_nth [OF assms(1), of "Suc ?i + j"] assms(2)
      by (fastforce simp: hm_chain_ok_def hme_ok_def)
  qed
  then have after: "map_of (hm_alist (concat (drop (Suc ?i) els))) k = None"
    by (simp only: map_of_hm_alist_None not_False_eq_True)
  have "hm_alist (concat els) = hm_alist (concat (take ?i els)) @ hm_alist (els ! ?i)
      @ hm_alist (concat (drop (Suc ?i) els))"
    using concat_nth_split [OF assms(3)] by (metis hm_alist_simps(3))
  then show ?thesis using before after
    by (simp only: map_of_append map_add_def) (simp split: option.splits)
qed

text \<open>A string of bytes that is not a key of the map's kind is in no bucket.\<close>

lemma hm_lookup_no_hash:
  assumes "hm_table_ok ft msk els" and "\<nexists>h. hashFunc ft k (length k) = Some (h, length k)"
  shows "map_of (hm_alist (concat els)) k = None"
proof -
  have "hme_key e \<noteq> k" if "e \<in> set (concat els)" for e
    using hm_table_entry [OF assms(1) that] assms(2) by (auto simp: hme_ok_def)
  then show ?thesis by (auto simp: map_of_hm_alist_None simp del: set_concat)
qed

text \<open>Changing one bucket changes the abstract map on the keys of that bucket only.\<close>

lemma hm_lookup_update:
  assumes "hm_table_ok ft msk els" and "hm_chain_ok ft msk i c" and "i < length els"
    and "\<And>h. unat (h AND msk) < length els"
    and "\<And>k'. hm_index ft msk k' = Some i \<Longrightarrow> map_of (hm_alist c) k' = m k'"
    and "\<And>k'. hm_index ft msk k' \<noteq> Some i \<Longrightarrow> map_of (hm_alist (concat els)) k' = m k'"
  shows "map_of (hm_alist (concat (els[i := c]))) = m"
proof (rule ext)
  fix k'
  note ok' = hm_table_ok_update [OF assms(1,2)]
  show "map_of (hm_alist (concat (els[i := c]))) k' = m k'"
  proof (cases "\<exists>h. hashFunc ft k' (length k') = Some (h, length k')")
    case True
    then obtain h where h: "hashFunc ft k' (length k') = Some (h, length k')" ..
    then show ?thesis
      using hm_lookup_bucket [OF assms(1) h assms(4)] hm_lookup_bucket [OF ok' h] assms(3-6) h
      by (cases "unat (h AND msk) = i") (auto simp: hm_index_def)
  next
    case False
    then have "hm_index ft msk k' = None" by (auto simp: hm_index_def split: option.splits)
    then show ?thesis
      using hm_lookup_no_hash [OF assms(1) False] hm_lookup_no_hash [OF ok' False] assms(6) by simp
  qed
qed

section \<open>Resizing keeps the map\<close>

lemma hm_move_chain_append: "hm_move_chain msk (c @ c') st = hm_move_chain msk c' (hm_move_chain msk c st)"
  by (induction msk c st rule: hm_move_chain.induct) (simp_all add: Let_def)

lemma hm_move_chains_concat: "hm_move_chains msk cs st = hm_move_chain msk (concat cs) st"
  by (induction cs arbitrary: st) (simp_all add: hm_move_chain_append)

lemma hm_nonempty_update:
  assumes "i < length els"
  shows "hm_nonempty (els[i := c]) + (if els ! i \<noteq> [] then 1 else 0)
    = hm_nonempty els + (if c \<noteq> [] then 1 else 0)"
  using length_filter_update [OF assms, of "\<lambda>c. c \<noteq> []" c] by (simp add: hm_nonempty_def)

lemma set_concat_push:
  assumes "i < length els"
  shows "set (concat (els[i := e # els ! i])) = insert e (set (concat els))"
  using concat_update_split [OF assms, of "e # els ! i"] concat_nth_split [OF assms]
  by (metis Un_insert_left Un_insert_right append_Cons list.set(2) set_append)

lemma hm_move_chain_ok:
  assumes "hm_table_ok ft msk els" and "\<forall>e \<in> set es. hme_ok ft e" and "distinct (map hme_key es)"
    and "hme_key ` set es \<inter> hme_key ` set (concat els) = {}" and "\<And>h. unat (h AND msk) < length els"
    and "sz = of_nat (hm_nonempty els)" and "hm_move_chain msk es (els, sz) = (els', sz')"
  shows "hm_table_ok ft msk els' \<and> length els' = length els \<and>
    set (concat els') = set (concat els) \<union> set es \<and>
    length (concat els') = length (concat els) + length es \<and> sz' = of_nat (hm_nonempty els')"
  using assms
proof (induction es arbitrary: els sz)
  case Nil
  then show ?case by auto
next
  case (Cons e es)
  let ?i = "unat (hme_hash_code e AND msk)" let ?els = "els[?i := e # els ! ?i]"
  let ?sz = "if els ! ?i = [] then sz + 1 else sz"
  note i = Cons.prems(5) [of "hme_hash_code e"]
  have set: "set (concat ?els) = insert e (set (concat els))" by (rule set_concat_push [OF i])
  have "hme_key e \<notin> hme_key ` set (els ! ?i)"
    using Cons.prems(4) set_nth_concat [OF i] by auto
  then have ok: "hm_table_ok ft msk ?els"
    using Cons.prems(1,2) i by (intro hm_table_ok_update) (auto simp: hm_chain_ok_Cons hm_table_ok_nth)
  have disj: "hme_key ` set es \<inter> hme_key ` set (concat ?els) = {}"
    using Cons.prems(3,4) unfolding set by auto
  have sz: "?sz = of_nat (hm_nonempty ?els)"
    using hm_nonempty_update [OF i, of "e # els ! ?i"] Cons.prems(6) by (auto split: if_splits)
  have len: "length (concat ?els) = length (concat els) + 1"
    using length_concat_update [OF i, of "e # els ! ?i"] by simp
  have "hm_move_chain msk es (?els, ?sz) = (els', sz')"
    using Cons.prems(7) by (simp add: Let_def)
  then have "hm_table_ok ft msk els' \<and> length els' = length ?els \<and>
      set (concat els') = set (concat ?els) \<union> set es \<and>
      length (concat els') = length (concat ?els) + length es \<and> sz' = of_nat (hm_nonempty els')"
    using Cons.prems(2,3,5) by (intro Cons.IH [OF ok _ _ disj _ sz]) auto
  then show ?case unfolding set len by simp
qed

lemma hm_entries_distinct:
  assumes "hm_table_ok ft msk els"
  shows "distinct (map hme_key (concat els))"
proof -
  have *: "distinct (map hme_key (concat (take n els)))" if "n \<le> length els" for n
    using that
  proof (induction n)
    case (Suc n)
    have "hme_key ` set (concat (take n els)) \<inter> hme_key ` set (els ! n) = {}"
    proof (rule ccontr)
      assume "\<not> ?thesis"
      then obtain e e' j where "j < n" "e \<in> set (els ! j)" "e' \<in> set (els ! n)" "hme_key e = hme_key e'"
        using Suc.prems by (auto simp: set_concat_nth simp del: set_concat)
      then show False
        using hm_table_ok_nth [OF assms, of j] hm_table_ok_nth [OF assms, of n] Suc.prems
        by (force simp: hm_chain_ok_def hme_ok_def)
    qed
    moreover have "distinct (map hme_key (els ! n))"
      using hm_table_ok_nth [OF assms, of n] Suc.prems by (simp add: hm_chain_ok_def)
    ultimately show ?case
      using Suc by (simp add: take_Suc_conv_app_nth)
  qed simp
  then show ?thesis using * [of "length els"] by simp
qed

text \<open>Two tables with the same entries represent the same map.\<close>

lemma hm_abs_set:
  assumes "hm_table_ok ft msk els" and "hm_table_ok ft msk' els'" and "set (concat els) = set (concat els')"
  shows "map_of (hm_alist (concat els)) = map_of (hm_alist (concat els'))"
proof (rule map_of_eqI)
  have "set (hm_alist (concat els)) = set (hm_alist (concat els'))"
    using assms(3) by (simp add: hm_alist_def)
  then have eq: "map_of (hm_alist (concat els)) k = Some v \<longleftrightarrow> map_of (hm_alist (concat els')) k = Some v" for k v
    using hm_entries_distinct [OF assms(1)] hm_entries_distinct [OF assms(2)]
    by (metis map_fst_hm_alist map_of_eq_Some_iff)
  show "set (map fst (hm_alist (concat els))) = set (map fst (hm_alist (concat els')))"
    using assms(3) by simp
  show "\<forall>k \<in> set (map fst (hm_alist (concat els))).
      map_of (hm_alist (concat els)) k = map_of (hm_alist (concat els')) k"
    using eq by (metis map_of_eq_None_iff not_Some_eq set_map)
qed

lemma hm_and_mask_less:
  assumes "msk = c - 1" and "c \<noteq> 0" and "n = unat (c :: u32)"
  shows "unat (h AND msk) < n"
  using unat_and_le [of h msk] unat_minus_one_less [of c] assms by simp

lemma hm_invD:
  assumes "hm_inv hm"
  shows "hm_table_ok (hm_hashFunc hm) (hm_mask hm) (hm_elements hm)"
    and "hm_nelements hm = of_nat (length (concat (hm_elements hm)))"
    and "hm_size hm = of_nat (hm_nonempty (hm_elements hm))"
    and "length (concat (hm_elements hm)) < 2 ^ 32"
  using assms unfolding hm_inv_def by blast+

lemma hm_nelements_unat:
  assumes "hm_inv hm"
  shows "unat (hm_nelements hm) = length (concat (hm_elements hm))"
  using hm_invD(2,4) [OF assms] by (simp add: unat_of_nat)

lemma hm_inv_index: "hm_inv hm \<Longrightarrow> unat (h AND hm_mask hm) < length (hm_elements hm)"
  by (rule hm_and_mask_less [of _ "hm_capacity hm"]) (auto simp: hm_inv_def)

lemma HM_resize_map_correct [ism_inv]:
  fixes hm :: "'v ismHashMap"
  assumes "hm_inv hm"
  shows "hm_inv (HM_resize_map ok hm) \<and> hm_abs (HM_resize_map ok hm) = hm_abs hm \<and>
    hm_hashFunc (HM_resize_map ok hm) = hm_hashFunc hm \<and>
    hm_locked (HM_resize_map ok hm) = hm_locked hm \<and>
    length (concat (hm_elements (HM_resize_map ok hm))) = length (concat (hm_elements hm))"
proof (cases "hm_capacity hm > 0xFFFFFF \<or> \<not> ok")
  case True
  then show ?thesis using assms by (auto simp: HM_resize_map_def)
next
  case False
  let ?cap = "hm_capacity hm * 2" let ?msk = "?cap - 1" let ?new = "replicate (unat ?cap) [] :: 'v ismHashMapEntry list list"
  obtain n where n: "n \<le> 24" "unat (hm_capacity hm) = 2 ^ n" using assms by (auto simp: hm_inv_def)
  have "unat (hm_capacity hm) \<le> 0xFFFFFF" using False by (simp add: word_le_nat_alt not_less)
  then have "n \<noteq> 24" using n(2) by auto
  then have "n < 24" using n(1) by simp
  have cap: "unat ?cap = 2 ^ Suc n"
    using n \<open>n < 24\<close> unat_mult_lem [of "hm_capacity hm" 2] power_strict_increasing [of "Suc n" 32 "2::nat"] by simp
  obtain els sz where mv: "hm_move_chain ?msk (concat (hm_elements hm)) (?new, 0) = (els, sz)"
    by (meson surj_pair)
  note inv = assms [unfolded hm_inv_def]
  have es: "\<forall>e \<in> set (concat (hm_elements hm)). hme_ok (hm_hashFunc hm) e"
    using inv hm_table_entry by blast
  have idx: "unat (h AND ?msk) < length ?new" for h
    using cap by (intro hm_and_mask_less [of _ ?cap]) auto
  have "hm_table_ok (hm_hashFunc hm) ?msk els \<and> length els = length ?new \<and>
      set (concat els) = set (concat ?new) \<union> set (concat (hm_elements hm)) \<and>
      length (concat els) = length (concat ?new) + length (concat (hm_elements hm)) \<and>
      sz = of_nat (hm_nonempty els)"
    by (rule hm_move_chain_ok [OF _ es _ _ idx _ mv])
       (use inv hm_entries_distinct in \<open>auto simp: hm_nonempty_def simp del: set_concat\<close>)
  then have els: "hm_table_ok (hm_hashFunc hm) ?msk els" "length els = unat ?cap"
      "set (concat els) = set (concat (hm_elements hm))"
      "length (concat els) = length (concat (hm_elements hm))" "sz = of_nat (hm_nonempty els)"
    by auto
  have rs: "HM_resize_map ok hm = hm\<lparr>hm_capacity := ?cap, hm_mask := ?msk, hm_elements := els, hm_size := sz\<rparr>"
    using False mv by (simp add: HM_resize_map_def hm_move_chains_concat Let_def)
  have "hm_abs (HM_resize_map ok hm) = hm_abs hm"
    unfolding rs hm_abs_def using hm_abs_set [OF els(1) hm_invD(1) [OF assms] els(3)] by simp
  moreover have "hm_inv (HM_resize_map ok hm)"
    unfolding hm_inv_def rs using els inv cap \<open>n < 24\<close> by (simp add: exI [of _ "Suc n"])
  ultimately show ?thesis using els(4) rs by simp
qed

section \<open>The operations on the abstract map\<close>

lemma hm_inv_bucket:
  assumes "hm_inv hm" and "i < length (hm_elements hm)"
    and "hm_chain_ok (hm_hashFunc hm) (hm_mask hm) i c"
    and "length (concat ((hm_elements hm)[i := c])) < 2 ^ 32"
    and "n = of_nat (length (concat ((hm_elements hm)[i := c])))"
    and "s = of_nat (hm_nonempty ((hm_elements hm)[i := c]))"
  shows "hm_inv (hm\<lparr>hm_elements := (hm_elements hm)[i := c], hm_size := s, hm_nelements := n\<rparr>)"
  using assms hm_table_ok_update [OF hm_invD(1) [OF assms(1)] assms(3)] unfolding hm_inv_def by simp

lemma hm_abs_bucket:
  assumes "hm_inv hm" and "hashFunc (hm_hashFunc hm) k (length k) = Some (h, length k)"
    and "hm_chain_ok (hm_hashFunc hm) (hm_mask hm) (unat (h AND hm_mask hm)) c"
    and "map_of (hm_alist c) = (map_of (hm_alist (hm_elements hm ! unat (h AND hm_mask hm))))(k := x)"
  shows "map_of (hm_alist (concat ((hm_elements hm)[unat (h AND hm_mask hm) := c]))) = (hm_abs hm)(k := x)"
proof (rule hm_lookup_update [OF _ assms(3)])
  let ?i = "unat (h AND hm_mask hm)"
  show ok: "hm_table_ok (hm_hashFunc hm) (hm_mask hm) (hm_elements hm)" by (rule hm_invD(1) [OF assms(1)])
  show "?i < length (hm_elements hm)" and idx: "\<And>h. unat (h AND hm_mask hm) < length (hm_elements hm)"
    using hm_inv_index [OF assms(1)] by simp_all
  fix k'
  have k: "hm_index (hm_hashFunc hm) (hm_mask hm) k = Some ?i" using assms(2) by (simp add: hm_index_def)
  {
    assume "hm_index (hm_hashFunc hm) (hm_mask hm) k' = Some ?i"
    then obtain h' where h': "hashFunc (hm_hashFunc hm) k' (length k') = Some (h', length k')"
        "unat (h' AND hm_mask hm) = ?i"
      by (auto simp: hm_index_def split: option.splits if_splits)
    show "map_of (hm_alist c) k' = ((hm_abs hm)(k := x)) k'"
      using hm_lookup_bucket [OF ok h'(1) idx] h'(2) assms(4) by (simp add: hm_abs_def)
  next
    assume "hm_index (hm_hashFunc hm) (hm_mask hm) k' \<noteq> Some ?i"
    then have "k' \<noteq> k" using k by auto
    then show "map_of (hm_alist (concat (hm_elements hm))) k' = ((hm_abs hm)(k := x)) k'"
      by (simp add: hm_abs_def)
  }
qed

lemma hm_abs_lookup:
  assumes "hm_inv hm" and "hashFunc (hm_hashFunc hm) k (length k) = Some (h, length k)"
  shows "hm_abs hm k = map_of (hm_alist (hm_elements hm ! unat (h AND hm_mask hm))) k"
  unfolding hm_abs_def by (rule hm_lookup_bucket [OF hm_invD(1) [OF assms(1)] assms(2) hm_inv_index [OF assms(1)]])

lemma hm_key_Some:
  assumes "hm_key ft mem len = Some k"
  obtains h where "0 \<le> len" "hashFunc ft mem (nat len) = Some (h, length k)" "length k \<le> length mem"
    "take (length k) mem = k" "hashFunc ft k (length k) = Some (h, length k)"
  using assms by (auto simp: hm_key_def split: option.splits if_splits)

text \<open>The insertion before the test whether to resize.\<close>

lemma hm_put_bucket:
  fixes hm :: "'v ismHashMap" and v :: 'v
  assumes "hm_inv hm" and h: "hashFunc (hm_hashFunc hm) k (length k) = Some (h, length k)"
    and room: "length (concat (hm_elements hm)) + 1 < 2 ^ 32"
  defines "i \<equiv> unat (h AND hm_mask hm)"
    and "e \<equiv> \<lparr>hme_hash_code = h, hme_key_len = length k, hme_key = k, hme_value = v\<rparr>"
  defines "r \<equiv> hm_store i e hm"
  shows "hm_inv (fst r) \<and> hm_abs (fst r) = (hm_abs hm)(k \<mapsto> v) \<and> snd r = hm_abs hm k \<and>
    hm_hashFunc (fst r) = hm_hashFunc hm \<and> hm_locked (fst r) = hm_locked hm"
proof -
  define c where "c = hm_elements hm ! i"
  note cnt = hm_invD(2,3) [OF assms(1)]
  have i: "i < length (hm_elements hm)" unfolding i_def by (rule hm_inv_index [OF assms(1)])
  have ok: "hm_chain_ok (hm_hashFunc hm) (hm_mask hm) i c"
    unfolding c_def by (rule hm_table_ok_nth [OF hm_invD(1) [OF assms(1)] i])
  note look = hm_abs_lookup [OF assms(1) h, folded i_def, folded c_def]
  note upd = hm_abs_bucket [OF assms(1) h, folded i_def, folded c_def]
  have e: "hme_ok (hm_hashFunc hm) e" "hme_key e = k" "hme_value e = v" "hme_hash_code e = h" "hme_key_len e = length k"
    using h by (simp_all add: e_def hme_ok_def)
  show ?thesis
  proof (cases "hm_replace k (length k) v c")
    case None
    have new: "k \<notin> hme_key ` set c" by (rule hm_replace_None [OF ok None])
    have ok': "hm_chain_ok (hm_hashFunc hm) (hm_mask hm) i (c @ [e])"
      using ok e new by (simp add: hm_chain_ok_snoc i_def)
    have m: "map_of (hm_alist (c @ [e])) = (map_of (hm_alist c))(k \<mapsto> v)"
      using new e by (auto simp: fun_eq_iff map_add_def map_of_hm_alist_None [symmetric] split: option.splits)
    have len: "length (concat ((hm_elements hm)[i := c @ [e]])) = length (concat (hm_elements hm)) + 1"
      using length_concat_update [OF i, of "c @ [e]"] by (simp add: c_def)
    have sz: "hm_nonempty ((hm_elements hm)[i := c @ [e]]) = hm_nonempty (hm_elements hm) + (if c = [] then 1 else 0)"
      using hm_nonempty_update [OF i, of "c @ [e]"] by (auto simp: c_def split: if_splits)
    have r: "r = (hm\<lparr>hm_elements := (hm_elements hm)[i := c @ [e]],
        hm_size := of_nat (hm_nonempty ((hm_elements hm)[i := c @ [e]])),
        hm_nelements := of_nat (length (concat ((hm_elements hm)[i := c @ [e]])))\<rparr>, None)"
      using None cnt by (simp add: r_def hm_store_def c_def [symmetric] e_def [symmetric] len sz e)
    have "hm_inv (fst r)"
      unfolding r fst_conv by (rule hm_inv_bucket [OF assms(1) i ok']) (use room len in simp_all)
    moreover have "map_of (hm_alist c) k = None" using new by (simp only: map_of_hm_alist_None not_False_eq_True)
    ultimately show ?thesis using upd [OF ok' m] look r by (simp add: hm_abs_def)
  next
    case (Some p)
    then obtain prev c' where p: "hm_replace k (length k) v c = Some (prev, c')" by (cases p) auto
    note rep = hm_replace_Some [OF ok p]
    have len: "length (concat ((hm_elements hm)[i := c'])) = length (concat (hm_elements hm))"
      using length_concat_update [OF i, of c'] rep by (simp add: c_def)
    have sz: "hm_nonempty ((hm_elements hm)[i := c']) = hm_nonempty (hm_elements hm)"
      using hm_nonempty_update [OF i, of c'] rep by (simp add: c_def)
    have r: "r = (hm\<lparr>hm_elements := (hm_elements hm)[i := c'],
        hm_size := of_nat (hm_nonempty ((hm_elements hm)[i := c'])),
        hm_nelements := of_nat (length (concat ((hm_elements hm)[i := c'])))\<rparr>, Some prev)"
      using p cnt rep by (simp add: r_def hm_store_def c_def [symmetric] len sz e)
    have "hm_inv (fst r)"
      unfolding r fst_conv by (rule hm_inv_bucket [OF assms(1) i]) (use room len rep in simp_all)
    then show ?thesis using upd [of c' "Some v"] rep look r by (simp add: hm_abs_def)
  qed
qed

lemma ism_common_putHashMapElement_correct:
  assumes "hm_inv hm" and "hm_key (hm_hashFunc hm) mem len = Some k"
    and "length (concat (hm_elements hm)) + 1 < 2 ^ 32"
  shows "\<exists>hm'. ism_common_putHashMapElement True ok (Some hm) (Some mem) len (Some v)
      = Some (0, Some hm', hm_abs hm k) \<and>
    hm_inv hm' \<and> hm_abs hm' = (hm_abs hm)(k \<mapsto> v) \<and>
    hm_hashFunc hm' = hm_hashFunc hm \<and> hm_locked hm' = hm_locked hm"
proof -
  obtain h where k: "0 \<le> len" "hashFunc (hm_hashFunc hm) mem (nat len) = Some (h, length k)"
      "length k \<le> length mem" "take (length k) mem = k" "hashFunc (hm_hashFunc hm) k (length k) = Some (h, length k)"
    using hm_key_Some [OF assms(2)] .
  define e where "e = \<lparr>hme_hash_code = h, hme_key_len = length k, hme_key = k, hme_value = v\<rparr>"
  define hm1 where "hm1 = fst (hm_store (unat (h AND hm_mask hm)) e hm)"
  define hm2 where "hm2 = (if hm_overloaded hm1 then HM_resize_map ok hm1 else hm1)"
  note put = hm_put_bucket [OF assms(1) k(5) assms(3), of v, folded e_def, folded hm1_def]
  have "ism_common_putHashMapElement True ok (Some hm) (Some mem) len (Some v) = Some (0, Some hm2, hm_abs hm k)"
    unfolding ism_common_putHashMapElement_def
    using k hm_inv_index [OF assms(1), of h] put
    by (simp add: Let_def not_less case_prod_beta not_le hm2_def hm1_def e_def)
  moreover have "hm_inv hm2 \<and> hm_abs hm2 = (hm_abs hm)(k \<mapsto> v) \<and>
      hm_hashFunc hm2 = hm_hashFunc hm \<and> hm_locked hm2 = hm_locked hm"
    using put HM_resize_map_correct [of hm1 ok] by (simp add: hm2_def)
  ultimately show ?thesis by blast
qed

lemma getHashMapElement_correct:
  assumes "hm_inv hm" and "hm_key (hm_hashFunc hm) mem len = Some k"
  shows "\<exists>hm'. getHashMapElement (Some hm) (Some mem) len remove = Some (hm_abs hm k, Some hm') \<and>
    hm_inv hm' \<and> hm_abs hm' = (if remove then (hm_abs hm)(k := None) else hm_abs hm) \<and>
    hm_hashFunc hm' = hm_hashFunc hm \<and> hm_locked hm' = hm_locked hm \<and>
    length (concat (hm_elements hm')) \<le> length (concat (hm_elements hm)) \<and> (\<not> remove \<longrightarrow> hm' = hm)"
proof -
  obtain h where k: "0 \<le> len" "hashFunc (hm_hashFunc hm) mem (nat len) = Some (h, length k)"
      "length k \<le> length mem" "take (length k) mem = k" "hashFunc (hm_hashFunc hm) k (length k) = Some (h, length k)"
    using hm_key_Some [OF assms(2)] .
  define i where "i = unat (h AND hm_mask hm)"
  define c where "c = hm_elements hm ! i"
  have i: "i < length (hm_elements hm)" unfolding i_def by (rule hm_inv_index [OF assms(1)])
  have ok: "hm_chain_ok (hm_hashFunc hm) (hm_mask hm) i c"
    unfolding c_def by (rule hm_table_ok_nth [OF hm_invD(1) [OF assms(1)] i])
  note look = hm_abs_lookup [OF assms(1) k(5), folded i_def, folded c_def]
  have get: "getHashMapElement (Some hm) (Some mem) len remove =
    (if hm_nelements hm = 0 then Some (None, Some hm)
     else case hm_find k (length k) h c of
         None \<Rightarrow> Some (None, Some hm)
       | Some (v, c') \<Rightarrow>
          if remove then Some (Some v, Some (hm\<lparr>hm_elements := (hm_elements hm)[i := c'],
             hm_size := (if c' = [] then hm_size hm - 1 else hm_size hm),
             hm_nelements := hm_nelements hm - 1\<rparr>)) else Some (Some v, Some hm))"
    using k i unfolding getHashMapElement_def i_def c_def by (simp add: Let_def)
  show ?thesis
  proof (cases "hm_find k (length k) h c")
    case None
    then have "hm_abs hm k = None"
      using hm_find_None [OF ok k(5)] look by (simp add: map_of_hm_alist_None)
    then show ?thesis using None assms(1) get by (auto simp: fun_upd_idem)
  next
    case (Some p)
    then obtain v c' where p: "hm_find k (length k) h c = Some (v, c')" by (cases p) auto
    note fnd = hm_find_Some [OF ok k(5) p]
    have len: "length (concat (hm_elements hm)) = Suc (length (concat ((hm_elements hm)[i := c'])))"
      using length_concat_update [OF i, of c'] fnd by (simp add: c_def)
    have "hm_elements hm ! i \<noteq> []" using fnd by (auto simp: c_def)
    then have "hm_nonempty (hm_elements hm) = hm_nonempty ((hm_elements hm)[i := c']) + (if c' = [] then 1 else 0)"
      using hm_nonempty_update [OF i, of c'] by (simp split: if_splits)
    then have sz: "of_nat (hm_nonempty (hm_elements hm)) - (if c' = [] then 1 else 0 :: u32)
        = of_nat (hm_nonempty ((hm_elements hm)[i := c']))"
      by simp
    have "hm_nelements hm \<noteq> 0"
      using hm_nelements_unat [OF assms(1)] len by (metis Zero_not_Suc unat_0)
    then have r: "getHashMapElement (Some hm) (Some mem) len remove = Some (Some v, Some
        (if remove then hm\<lparr>hm_elements := (hm_elements hm)[i := c'],
            hm_size := of_nat (hm_nonempty ((hm_elements hm)[i := c'])),
            hm_nelements := of_nat (length (concat ((hm_elements hm)[i := c'])))\<rparr> else hm))"
      using get p hm_invD(2,3) [OF assms(1)] len sz by auto
    have "hm_inv (hm\<lparr>hm_elements := (hm_elements hm)[i := c'],
            hm_size := of_nat (hm_nonempty ((hm_elements hm)[i := c'])),
            hm_nelements := of_nat (length (concat ((hm_elements hm)[i := c'])))\<rparr>)"
      by (rule hm_inv_bucket [OF assms(1) i]) (use fnd len hm_invD(4) [OF assms(1)] in simp_all)
    then show ?thesis
      using r fnd len look assms(1) hm_abs_bucket [OF assms(1) k(5), folded i_def, folded c_def, of c' None]
      by (simp add: hm_abs_def)
  qed
qed

section \<open>Creation\<close>

lemma hm_grow_power:
  assumes "unat cap = 2 ^ n" and "n < 24" and "unat capacity \<le> 2 ^ 24"
  shows "\<exists>c m. hm_grow cap capacity = Some c \<and> unat c = 2 ^ m \<and> m \<le> 24 \<and> capacity \<le> c"
  using assms
proof (induction "24 - n" arbitrary: n cap)
  case 0
  then show ?case by simp
next
  case (Suc d)
  have dbl: "unat (cap * 2) = 2 ^ Suc n"
    using Suc.prems(1,2) unat_mult_lem [of cap 2] power_strict_increasing [of "Suc n" 32 "2::nat"] by simp
  show ?case
  proof (cases "cap * 2 < capacity")
    case True
    then have "(2::nat) ^ Suc n < 2 ^ 24"
      using dbl Suc.prems(3) by (simp add: word_less_nat_alt del: power_Suc)
    then have "Suc n < 24" by (rule power_less_imp_less_exp [rotated]) simp
    then show ?thesis
      using Suc.hyps(1) [of "Suc n" "cap * 2"] Suc.hyps(2) Suc.prems(3) dbl True
      by (simp add: hm_grow.simps [of cap])
  next
    case False
    then show ?thesis
      using dbl Suc.prems(2)
      by (intro exI [of _ "cap * 2"] exI [of _ "Suc n"]) (simp add: hm_grow.simps [of cap])
  qed
qed

lemma ism_common_createHashMap_correct:
  "\<exists>hm :: 'v ismHashMap. ism_common_createHashMap True True capacity ft = Some (Some hm) \<and>
     hm_inv hm \<and> hm_abs hm = Map.empty \<and> hm_hashFunc hm = ft \<and> \<not> hm_locked hm \<and>
     concat (hm_elements hm) = [] \<and> min (unat capacity) (2 ^ 24) \<le> unat (hm_capacity hm)"
proof -
  obtain c n where c: "(if capacity < 0x1000000 then hm_grow 1 capacity else Some 0x1000000) = Some c"
      "unat c = 2 ^ n" "n \<le> 24" "min (unat capacity) (2 ^ 24) \<le> unat c"
  proof (cases "capacity < 0x1000000")
    case True
    then have "unat capacity \<le> 2 ^ 24" by (simp add: word_less_nat_alt)
    then obtain c m where "hm_grow 1 capacity = Some c" "unat c = 2 ^ m" "m \<le> 24" "capacity \<le> c"
      using hm_grow_power [of 1 0 capacity] by auto
    then show ?thesis
      by (intro that [of c m]) (use True in \<open>auto simp: word_le_nat_alt min.coboundedI1\<close>)
  next
    case False
    then show ?thesis by (intro that [of "0x1000000" 24]) simp_all
  qed
  have "concat (replicate m []) = []" for m by (induction m) auto
  then show ?thesis
    using c by (auto simp: ism_common_createHashMap_def hm_inv_def hm_abs_def hm_nonempty_def)
qed

section \<open>Locked operations and enumeration\<close>

text \<open>
  On a map whose lock is free the locked operations are the plain ones and leave the lock free.
\<close>

lemma hm_inv_locked [simp]: "hm_inv (hm\<lparr>hm_locked := b\<rparr>) \<longleftrightarrow> hm_inv hm"
  and hm_abs_locked [simp]: "hm_abs (hm\<lparr>hm_locked := b\<rparr>) = hm_abs hm"
  by (simp_all add: hm_inv_def hm_abs_def)

lemma putHashMapElementLock_correct:
  assumes "hm_inv hm" and "\<not> hm_locked hm" and "hm_key (hm_hashFunc hm) mem len = Some k"
    and "length (concat (hm_elements hm)) + 1 < 2 ^ 32"
  shows "\<exists>hm'. ism_common_putHashMapElementLock True ok hm (Some mem) len (Some v)
      = Some (0, hm', hm_abs hm k) \<and>
    hm_inv hm' \<and> hm_abs hm' = (hm_abs hm)(k \<mapsto> v) \<and> hm_hashFunc hm' = hm_hashFunc hm \<and> \<not> hm_locked hm'"
  using ism_common_putHashMapElement_correct [of "hm\<lparr>hm_locked := True\<rparr>" mem len k ok v] assms
  by (auto simp: ism_common_putHashMapElementLock_def mapLock_def mapUnlock_def)

lemma getHashMapElementLock_correct:
  assumes "hm_inv hm" and "\<not> hm_locked hm" and "hm_key (hm_hashFunc hm) mem len = Some k"
  shows "ism_common_getHashMapElementLock hm (Some mem) len = Some (hm_abs hm k, hm)"
  using getHashMapElement_correct [of "hm\<lparr>hm_locked := True\<rparr>" mem len k False] assms
  by (auto simp: ism_common_getHashMapElementLock_def ism_common_getHashMapElement_def mapLock_def mapUnlock_def)

lemma removeHashMapElementLock_correct:
  assumes "hm_inv hm" and "\<not> hm_locked hm" and "hm_key (hm_hashFunc hm) mem len = Some k"
  shows "\<exists>hm'. ism_common_removeHashMapElementLock hm (Some mem) len = Some (hm_abs hm k, hm') \<and>
    hm_inv hm' \<and> hm_abs hm' = (hm_abs hm)(k := None) \<and> hm_hashFunc hm' = hm_hashFunc hm \<and> \<not> hm_locked hm'"
  using getHashMapElement_correct [of "hm\<lparr>hm_locked := True\<rparr>" mem len k True] assms
  by (auto simp: ism_common_removeHashMapElementLock_def ism_common_removeHashMapElement_def mapLock_def mapUnlock_def)

section \<open>Maps with 64-bit keys\<close>

text \<open>
  The operations as the server calls them on a map created with \<open>HASH_INT64\<close>: the key is passed as
  the address and the size of a 64-bit integer.
\<close>

definition hm64_get :: "'v ismHashMap \<Rightarrow> u64 \<Rightarrow> 'v option" where
  "hm64_get hm k = the (ism_common_getHashMapElement (Some hm) (Some (u64_image k)) 8)"

definition hm64_put :: "u64 \<Rightarrow> 'v \<Rightarrow> 'v ismHashMap \<Rightarrow> 'v ismHashMap" where
  "hm64_put k v hm = (case ism_common_putHashMapElement True True (Some hm) (Some (u64_image k)) 8 (Some v) of
     Some (_, Some hm', _) \<Rightarrow> hm' | _ \<Rightarrow> hm)"

definition hm64_del :: "u64 \<Rightarrow> 'v ismHashMap \<Rightarrow> 'v ismHashMap" where
  "hm64_del k hm = (case ism_common_removeHashMapElement (Some hm) (Some (u64_image k)) 8 of
     Some (_, Some hm') \<Rightarrow> hm' | _ \<Rightarrow> hm)"

definition hm64_inv :: "'v ismHashMap \<Rightarrow> bool" where
  "hm64_inv hm \<longleftrightarrow> hm_inv hm \<and> hm_hashFunc hm = HASH_INT64"

definition hm_room :: "'v ismHashMap \<Rightarrow> bool" where
  "hm_room hm \<longleftrightarrow> length (concat (hm_elements hm)) + 1 < 2 ^ 32"

lemma hm_key_u64 [simp]: "hm_key HASH_INT64 (u64_image k) 8 = Some (u64_image k)"
  by (simp add: hm_key_def memhash_int64_def Let_def)

lemma hm64_get_abs: "hm64_inv hm \<Longrightarrow> hm64_get hm k = hm_abs hm (u64_image k)"
  using getHashMapElement_correct [of hm "u64_image k" 8 "u64_image k" False]
  by (auto simp: hm64_get_def hm64_inv_def ism_common_getHashMapElement_def)

lemma hm64_put_abs:
  "hm64_inv hm \<Longrightarrow> hm_room hm \<Longrightarrow>
    hm64_inv (hm64_put k v hm) \<and> hm_abs (hm64_put k v hm) = (hm_abs hm)(u64_image k \<mapsto> v)"
  using ism_common_putHashMapElement_correct [of hm "u64_image k" 8 "u64_image k" True v]
  by (auto simp: hm64_put_def hm64_inv_def hm_room_def)

lemma hm64_del_abs:
  "hm64_inv hm \<Longrightarrow> hm64_inv (hm64_del k hm) \<and> hm_abs (hm64_del k hm) = (hm_abs hm)(u64_image k := None)"
  using getHashMapElement_correct [of hm "u64_image k" 8 "u64_image k" True]
  by (auto simp: hm64_del_def hm64_inv_def ism_common_removeHashMapElement_def)

interpretation hm64: kv_map hm64_inv hm_room "\<lambda>_. True" hm64_get hm64_put hm64_del
  by unfold_locales (auto simp: hm64_get_abs hm64_put_abs hm64_del_abs)

section \<open>Properties\<close>

text \<open>
  A call of the map's interface; the flag of an insertion is the outcome of the allocation of a
  doubled table, should the insertion ask for one.
\<close>

datatype 'v hm_call = PutCall bool "u8 list" int 'v | GetCall "u8 list" int | RemoveCall "u8 list" int

fun hm_call_key :: "ismHashFunctionType_t \<Rightarrow> 'v hm_call \<Rightarrow> u8 list option" where
  "hm_call_key ft (PutCall _ mem len _) = hm_key ft mem len"
| "hm_call_key ft (GetCall mem len) = hm_key ft mem len"
| "hm_call_key ft (RemoveCall mem len) = hm_key ft mem len"

fun hm_do :: "'v hm_call \<Rightarrow> 'v ismHashMap \<Rightarrow> ('v option \<times> 'v ismHashMap) option" where
  "hm_do (PutCall ok mem len v) hm =
     (case ism_common_putHashMapElement True ok (Some hm) (Some mem) len (Some v) of
        Some (rc, Some hm', prev) \<Rightarrow> if rc = 0 then Some (prev, hm') else None | _ \<Rightarrow> None)"
| "hm_do (GetCall mem len) hm =
     map_option (\<lambda>v. (v, hm)) (ism_common_getHashMapElement (Some hm) (Some mem) len)"
| "hm_do (RemoveCall mem len) hm =
     (case ism_common_removeHashMapElement (Some hm) (Some mem) len of
        Some (v, Some hm') \<Rightarrow> Some (v, hm') | _ \<Rightarrow> None)"

fun hm_run :: "'v hm_call list \<Rightarrow> 'v ismHashMap \<Rightarrow> ('v option list \<times> 'v ismHashMap) option" where
  "hm_run [] hm = Some ([], hm)"
| "hm_run (c # cs) hm =
     (case hm_do c hm of None \<Rightarrow> None
      | Some (r, hm') \<Rightarrow> map_option (\<lambda>(rs, hm''). (r # rs, hm'')) (hm_run cs hm'))"

text \<open>The same calls on a finite map from keys to values.\<close>

fun spec_do :: "ismHashFunctionType_t \<Rightarrow> 'v hm_call \<Rightarrow> (u8 list \<rightharpoonup> 'v) \<Rightarrow> 'v option \<times> (u8 list \<rightharpoonup> 'v)" where
  "spec_do ft (PutCall _ mem len v) m = (let k = the (hm_key ft mem len) in (m k, m(k \<mapsto> v)))"
| "spec_do ft (GetCall mem len) m = (m (the (hm_key ft mem len)), m)"
| "spec_do ft (RemoveCall mem len) m = (let k = the (hm_key ft mem len) in (m k, m(k := None)))"

fun spec_run :: "ismHashFunctionType_t \<Rightarrow> 'v hm_call list \<Rightarrow> (u8 list \<rightharpoonup> 'v) \<Rightarrow> 'v option list \<times> (u8 list \<rightharpoonup> 'v)" where
  "spec_run ft [] m = ([], m)"
| "spec_run ft (c # cs) m =
     (let (r, m') = spec_do ft c m; (rs, m'') = spec_run ft cs m' in (r # rs, m''))"

lemma hm_count:
  assumes "hm_inv hm"
  shows hm_length_concat: "length (concat (hm_elements hm)) = card (dom (hm_abs hm))"
    and hm_dom_finite: "finite (dom (hm_abs hm))"
proof -
  have dist: "distinct (map hme_key (concat (hm_elements hm)))"
    using assms unfolding hm_inv_def by (blast intro: hm_entries_distinct)
  have dom: "dom (hm_abs hm) = set (map hme_key (concat (hm_elements hm)))"
    unfolding hm_abs_def dom_map_of_conv_image_fst by (metis list.set_map map_fst_hm_alist)
  show "length (concat (hm_elements hm)) = card (dom (hm_abs hm))"
    unfolding dom distinct_card [OF dist] by simp
  show "finite (dom (hm_abs hm))" by (simp add: hm_abs_def finite_dom_map_of)
qed

lemma hm_do_refines:
  assumes "hm_inv hm" and "hm_call_key (hm_hashFunc hm) c = Some k"
    and "card (dom (hm_abs hm)) + 1 < 2 ^ 32"
  shows "\<exists>hm'. hm_do c hm = Some (fst (spec_do (hm_hashFunc hm) c (hm_abs hm)), hm') \<and>
    hm_inv hm' \<and> hm_abs hm' = snd (spec_do (hm_hashFunc hm) c (hm_abs hm)) \<and>
    hm_hashFunc hm' = hm_hashFunc hm"
proof (cases c)
  case (PutCall ok mem len v)
  then have "hm_key (hm_hashFunc hm) mem len = Some k" using assms(2) by simp
  from ism_common_putHashMapElement_correct [OF assms(1) this, of ok v] this PutCall assms(1,3)
  show ?thesis by (auto simp: hm_length_concat)
next
  case (GetCall mem len)
  then have "hm_key (hm_hashFunc hm) mem len = Some k" using assms(2) by simp
  from getHashMapElement_correct [OF assms(1) this, of False] this GetCall assms(1)
  show ?thesis by (auto simp: ism_common_getHashMapElement_def)
next
  case (RemoveCall mem len)
  then have "hm_key (hm_hashFunc hm) mem len = Some k" using assms(2) by simp
  from getHashMapElement_correct [OF assms(1) this, of True] this RemoveCall
  show ?thesis by (auto simp: ism_common_removeHashMapElement_def)
qed

lemma card_dom_spec_do: "finite (dom m) \<Longrightarrow> card (dom (snd (spec_do ft c m))) \<le> card (dom m) + 1"
  by (cases c) (auto simp: Let_def card_insert_if card_Diff_singleton_if)

lemma hm_run_refines:
  assumes "hm_inv hm" and "list_all (\<lambda>c. hm_call_key (hm_hashFunc hm) c \<noteq> None) cs"
    and "card (dom (hm_abs hm)) + length cs < 2 ^ 32"
  shows "\<exists>hm'. hm_run cs hm = Some (fst (spec_run (hm_hashFunc hm) cs (hm_abs hm)), hm') \<and>
    hm_inv hm' \<and> hm_abs hm' = snd (spec_run (hm_hashFunc hm) cs (hm_abs hm)) \<and> hm_hashFunc hm' = hm_hashFunc hm"
  using assms
proof (induction cs arbitrary: hm)
  case (Cons c cs)
  let ?s = "spec_do (hm_hashFunc hm) c (hm_abs hm)"
  obtain k where "hm_call_key (hm_hashFunc hm) c = Some k" using Cons.prems by auto
  then obtain hm1 where hm1: "hm_do c hm = Some (fst ?s, hm1)" "hm_inv hm1" "hm_abs hm1 = snd ?s"
      "hm_hashFunc hm1 = hm_hashFunc hm"
    using hm_do_refines [OF Cons.prems(1)] Cons.prems(3) by force
  have "card (dom (hm_abs hm1)) \<le> card (dom (hm_abs hm)) + 1"
    using card_dom_spec_do hm_dom_finite [OF Cons.prems(1)] by (simp add: hm1(3))
  with Cons.IH [OF hm1(2)] Cons.prems hm1 show ?case by (auto simp: split_beta)
qed simp

text \<open>
  C2: On a map just created, with any capacity and hash function, every sequence of insertions,
  lookups and removals with valid keys returns what it returns on a finite map from keys to
  values, whether or not the table can be enlarged on the way; the map ends with that
  content and the element count is the number of its keys.
\<close>

theorem hash_map_refines_map:
  assumes "list_all (\<lambda>c. hm_call_key ft c \<noteq> None) cs" and "length cs < 2 ^ 32"
  shows "\<exists>(hm :: 'v ismHashMap) hm'. ism_common_createHashMap True True capacity ft = Some (Some hm) \<and>
    hm_run cs hm = Some (fst (spec_run ft cs Map.empty), hm') \<and>
    hm_abs hm' = snd (spec_run ft cs Map.empty) \<and>
    ism_common_getHashMapNumElements hm' = of_nat (card (dom (hm_abs hm')))"
proof -
  obtain hm :: "'v ismHashMap" where hm: "ism_common_createHashMap True True capacity ft = Some (Some hm)"
      "hm_inv hm" "hm_abs hm = Map.empty" "hm_hashFunc hm = ft"
    using ism_common_createHashMap_correct [of capacity ft] by blast
  obtain hm' where "hm_run cs hm = Some (fst (spec_run ft cs Map.empty), hm')" "hm_inv hm'"
      "hm_abs hm' = snd (spec_run ft cs Map.empty)"
    using hm_run_refines [OF hm(2), of cs] hm(3,4) assms by auto
  moreover from this(2) have "ism_common_getHashMapNumElements hm' = of_nat (card (dom (hm_abs hm')))"
    by (simp only: ism_common_getHashMapNumElements_def hm_length_concat [symmetric]) (simp add: hm_inv_def)
  ultimately show ?thesis using hm(1) by blast
qed

theorem hash_map_witness:
  "\<exists>(hm :: nat ismHashMap) hm'. ism_common_createHashMap True True 4 HASH_STRING = Some (Some hm) \<and>
    hm_run [PutCall True [97, 0, 9] 0 5, GetCall [97, 0] 0, RemoveCall [97, 0] 0, GetCall [97, 0] 0] hm
      = Some ([None, Some 5, Some 5, None], hm')"
  using hash_map_refines_map [of HASH_STRING "[PutCall True [97, 0, 9] 0 5, GetCall [97, 0] 0, RemoveCall [97, 0] 0,
      GetCall [97, 0] 0] :: nat hm_call list" 4]
  by (auto simp: hm_key_def memhash_string_def)

lemma hm_free_values_concat: "hm_free_values els = map hme_value (concat els)"
  by (induction els rule: hm_free_values.induct) simp_all

text \<open>
  C25: The entries array of a sound map, if it can be allocated, passes its consistency check and holds, each exactly once, the
  keys of the map with their values; destroying the map hands each stored value to the
  callback exactly once, and an enumeration whose callback always continues visits all of them.
\<close>

theorem hash_map_entries:
  fixes hm :: "'v ismHashMap"
  assumes "hm_inv hm"
  shows "\<exists>es. ism_common_getHashMapEntriesArray True hm = Some es \<and> distinct (map hme_key es) \<and>
    (\<forall>k v. hm_abs hm k = Some v \<longleftrightarrow> (\<exists>e \<in> set es. hme_key e = k \<and> hme_value e = v)) \<and>
    ism_common_destroyHashMapAndFreeValues (Some hm) True = map hme_value es \<and>
    ism_common_enumerateHashMap hm (\<lambda>e seen. (0, seen @ [e])) [] = (0, es)"
proof -
  let ?es = "concat (hm_elements hm)"
  have dist: "distinct (map hme_key ?es)"
    using assms unfolding hm_inv_def by (blast intro: hm_entries_distinct)
  then have "distinct (map fst (hm_alist ?es))" by simp
  then have "hm_abs hm k = Some v \<longleftrightarrow> (k, v) \<in> set (hm_alist ?es)" for k v
    by (simp add: hm_abs_def map_of_eq_Some_iff)
  moreover have "hm_enumerate (\<lambda>e seen. (0, seen @ [e])) es seen = (0, seen @ es)" for es seen :: "'v ismHashMapEntry list"
    by (induction es arbitrary: seen) simp_all
  moreover have "ism_common_getHashMapEntriesArray True hm = Some ?es"
    using assms by (simp add: ism_common_getHashMapEntriesArray_def hm_inv_def)
  ultimately show ?thesis using dist
    by (auto simp: hm_alist_def ism_common_destroyHashMapAndFreeValues_def hm_free_values_concat
        ism_common_enumerateHashMap_def)
qed


theorem hash_map_entries_witness:
  "\<exists>es. ism_common_getHashMapEntriesArray True (\<lparr>hm_hashFunc = HASH_INT64,
      hm_elements = [[], [\<lparr>hme_hash_code = 0x50A1B, hme_key_len = 8, hme_key = [7, 0, 5, 0, 0, 0, 0, 0], hme_value = ''v''\<rparr>]],
      hm_locked = False, hm_mask = 1, hm_capacity = 2, hm_size = 1, hm_nelements = 1\<rparr>) = Some es \<and>
    map hme_value es = [''v'']"
proof -
  let ?hm = "\<lparr>hm_hashFunc = HASH_INT64,
      hm_elements = [[], [\<lparr>hme_hash_code = 0x50A1B, hme_key_len = 8, hme_key = [7, 0, 5, 0, 0, 0, 0, 0], hme_value = ''v''\<rparr>]],
      hm_locked = False, hm_mask = 1, hm_capacity = 2, hm_size = 1, hm_nelements = 1\<rparr>"
  have "\<exists>n \<le> 24. (2 :: nat) = 2 ^ n" by (rule exI [of _ 1]) simp
  then have "hm_inv ?hm"
    by (simp add: hm_inv_def hm_table_ok_def hm_chain_ok_def hme_ok_def hm_nonempty_def memhash_int64_def less_Suc_eq)
  from hash_map_entries [OF this] show ?thesis
    by (auto simp: ism_common_destroyHashMapAndFreeValues_def)
qed

end
