(* ===== verification/MsgId.thy ===== *)
theory MsgId
  imports HashMap
begin

text \<open>
  The message identifiers a MQTT session has in flight, \<^verbatim>\<open>src/server_protocol/src/msgid.c\<close>. All
  sessions share a few global hash maps with 64-bit keys, one set for each direction; a session's
  list refers to one of them by its direction and index, and builds its keys from the
  client's 48-bit number and the 16-bit message identifier.

  An entry is owned by the map or by the free list of the session, so the entries are values here;
  the memory of an entry that is freed is gone with it. A call that would dereference a NULL map
  or entry has no result. The lemmas use the map through the contract \<open>kv_map\<close>.
\<close>

section \<open>Data\<close>

record ism_msgid_info_t =
  mi_handle :: "128 word"
  mi_msgid :: u16
  mi_state :: u16
  mi_pending :: int

type_synonym ids_map = "ism_msgid_info_t ismHashMap"

text \<open>The maps of both directions; an entry \<open>None\<close> is the NULL pointer of a map not created.\<close>

record msgid_globals =
  g_numMsgIdMaps :: int
  g_msgIdsMapTx :: "ids_map option list"
  g_msgIdsMapRx :: "ids_map option list"

record ism_msgid_list_t =
  ml_freeList :: "ism_msgid_info_t list"
  ml_idsMap :: "bool \<times> nat"
  ml_client_uid :: u64
  ml_inUseCount :: u16
  ml_freeCount :: u16
  ml_range :: u16

definition idsMap_ref :: "msgid_globals \<Rightarrow> bool \<times> nat \<Rightarrow> ids_map option" where
  "idsMap_ref g r =
     (let maps = (if fst r then g_msgIdsMapRx g else g_msgIdsMapTx g)
      in if snd r < length maps then maps ! snd r else None)"

definition idsMap_upd :: "msgid_globals \<Rightarrow> bool \<times> nat \<Rightarrow> ids_map \<Rightarrow> msgid_globals" where
  "idsMap_upd g r m =
     (if fst r then g\<lparr>g_msgIdsMapRx := (g_msgIdsMapRx g)[snd r := Some m]\<rparr>
      else g\<lparr>g_msgIdsMapTx := (g_msgIdsMapTx g)[snd r := Some m]\<rparr>)"

section \<open>Operations\<close>

text \<open>
  \<open>alloc\<close> says of each map, by direction and index, whether its allocations succeed. \<open>numMaps\<close> and
  \<open>capacity\<close> are the two configuration values.
\<close>

definition ism_msgid_init :: "(bool \<times> nat \<Rightarrow> bool) \<Rightarrow> int \<Rightarrow> int \<Rightarrow> msgid_globals option" where
  "ism_msgid_init alloc numMaps capacity =
     (let create = (\<lambda>rx. those (map (\<lambda>i. ism_common_createHashMap (alloc (rx, i)) (alloc (rx, i))
                                              (of_int capacity) HASH_INT64) [0..<nat numMaps]))
      in Option.bind (create False) (\<lambda>tx.
         Option.bind (create True) (\<lambda>rx.
         Some \<lparr>g_numMsgIdMaps = numMaps, g_msgIdsMapTx = tx, g_msgIdsMapRx = rx\<rparr>)))"

definition COMPUTE_KEY :: "u16 \<Rightarrow> u64 \<Rightarrow> u64" where
  "COMPUTE_KEY m c = push_bit 16 c OR ucast m"

definition ism_create_msgid_list :: "bool \<Rightarrow> msgid_globals \<Rightarrow> u64 \<Rightarrow> bool \<Rightarrow> u16 \<Rightarrow> ism_msgid_list_t option" where
  "ism_create_msgid_list calloc_ok g client_uid isRX rng =
     (let n = of_int (g_numMsgIdMaps g) :: u64; mapIdx = unat (client_uid mod n)
      in if \<not> calloc_ok \<or> n = 0 \<or> length (if isRX then g_msgIdsMapRx g else g_msgIdsMapTx g) \<le> mapIdx then None
         else Some \<lparr>ml_freeList = [], ml_idsMap = (isRX, mapIdx), ml_client_uid = client_uid,
                ml_inUseCount = 0, ml_freeCount = 0, ml_range = rng\<rparr>)"

text \<open>
  The loop of \<^verbatim>\<open>ism_msgid_freelist\<close>. Its counter is a 16-bit integer, so the test
  \<^verbatim>\<open>msgid <= 0xFFFF\<close> never stops it and it can fail to end: the first argument bounds the
  iterations, \<open>None\<close> is a run that is not over by then.
\<close>

fun msgid_freelist_loop :: "nat \<Rightarrow> u64 \<Rightarrow> u16 \<Rightarrow> u16 \<Rightarrow> ids_map \<Rightarrow> ids_map option" where
  "msgid_freelist_loop 0 client_uid msgid inUseCount ids = None"
| "msgid_freelist_loop (Suc fuel) client_uid msgid inUseCount ids =
     (if inUseCount \<noteq> 0 \<and> msgid \<le> 0xFFFF then
        case ism_common_removeHashMapElement (Some ids) (Some (u64_image (COMPUTE_KEY msgid client_uid))) 8 of
          Some (entry, Some ids') \<Rightarrow>
            msgid_freelist_loop fuel client_uid (msgid + 1)
              (if entry \<noteq> None then inUseCount - 1 else inUseCount) ids'
        | _ \<Rightarrow> None
      else Some ids)"

definition ism_msgid_freelist :: "nat \<Rightarrow> msgid_globals \<Rightarrow> ism_msgid_list_t option \<Rightarrow> msgid_globals option" where
  "ism_msgid_freelist fuel g mlist =
     (case mlist of None \<Rightarrow> Some g
      | Some mlist \<Rightarrow>
          if ml_inUseCount mlist \<noteq> 0 then
            Option.bind (Option.bind (idsMap_ref g (ml_idsMap mlist)) mapLock) (\<lambda>ids.
            Option.bind (msgid_freelist_loop fuel (ml_client_uid mlist) 1 (ml_inUseCount mlist) ids) (\<lambda>ids.
            Option.bind (mapUnlock ids) (\<lambda>ids. Some (idsMap_upd g (ml_idsMap mlist) ids))))
          else Some g)"

definition freeMsgInfo :: "ism_msgid_list_t \<Rightarrow> ism_msgid_info_t option \<Rightarrow> ism_msgid_list_t" where
  "freeMsgInfo mlist entry =
     (case entry of None \<Rightarrow> mlist
      | Some entry \<Rightarrow>
          let mlist = mlist\<lparr>ml_inUseCount := ml_inUseCount mlist - 1\<rparr>
          in if ml_freeCount mlist < ml_range mlist then
               mlist\<lparr>ml_freeCount := ml_freeCount mlist + 1,
                     ml_freeList := entry\<lparr>mi_handle := 0\<rparr> # ml_freeList mlist\<rparr>
             else mlist)"

text \<open>
  \<open>entry_ok\<close>, \<open>malloc_ok\<close> and \<open>calloc_ok\<close> are the outcomes of the allocations of the entry, of the map's
  element and of the doubled table.
\<close>

definition ism_msgid_addMsgIdInfo ::
    "bool \<Rightarrow> bool \<Rightarrow> bool \<Rightarrow> msgid_globals \<Rightarrow> ism_msgid_list_t \<Rightarrow> 128 word \<Rightarrow> u16 \<Rightarrow> u16
       \<Rightarrow> (int \<times> msgid_globals \<times> ism_msgid_list_t) option" where
  "ism_msgid_addMsgIdInfo entry_ok malloc_ok calloc_ok g mlist handle msgid state =
     (let key = COMPUTE_KEY msgid (ml_client_uid mlist)
      in Option.bind
           (case ml_freeList mlist of
              entry # next \<Rightarrow> Some (entry, mlist\<lparr>ml_freeList := next, ml_freeCount := ml_freeCount mlist - 1\<rparr>)
            | [] \<Rightarrow> if entry_ok then Some (\<lparr>mi_handle = 0, mi_msgid = 0, mi_state = 0, mi_pending = 0\<rparr>, mlist)
                    else None) (\<lambda>(entry, mlist).
         let entry = entry\<lparr>mi_msgid := msgid, mi_handle := handle, mi_state := state, mi_pending := 1\<rparr>
         in Option.bind (idsMap_ref g (ml_idsMap mlist)) (\<lambda>ids.
            Option.bind (ism_common_putHashMapElementLock malloc_ok calloc_ok ids (Some (u64_image key)) 8 (Some entry))
              (\<lambda>(_, ids, _).
            Some (0, idsMap_upd g (ml_idsMap mlist) ids, mlist\<lparr>ml_inUseCount := ml_inUseCount mlist + 1\<rparr>)))))"

text \<open>The handle and, where there is an entry, the value stored at \<open>pPending\<close>.\<close>

definition ism_msgid_delMsgIdInfo ::
    "msgid_globals \<Rightarrow> ism_msgid_list_t \<Rightarrow> u16
       \<Rightarrow> (128 word \<times> int option \<times> msgid_globals \<times> ism_msgid_list_t) option" where
  "ism_msgid_delMsgIdInfo g mlist msgid =
     (let key = COMPUTE_KEY msgid (ml_client_uid mlist)
      in Option.bind (idsMap_ref g (ml_idsMap mlist)) (\<lambda>ids.
         Option.bind (ism_common_removeHashMapElementLock ids (Some (u64_image key)) 8) (\<lambda>(entry, ids).
         let g = idsMap_upd g (ml_idsMap mlist) ids
         in case entry of
              None \<Rightarrow> Some (0, None, g, mlist)
            | Some e \<Rightarrow> Some (mi_handle e, Some (mi_pending e), g, freeMsgInfo mlist (Some e)))))"

definition ism_msgid_getMsgIdInfo ::
    "msgid_globals \<Rightarrow> ism_msgid_list_t \<Rightarrow> u16 \<Rightarrow> (ism_msgid_info_t option \<times> msgid_globals) option" where
  "ism_msgid_getMsgIdInfo g mlist msgid =
     (let key = COMPUTE_KEY msgid (ml_client_uid mlist)
      in Option.bind (idsMap_ref g (ml_idsMap mlist)) (\<lambda>ids.
         Option.bind (ism_common_getHashMapElementLock ids (Some (u64_image key)) 8) (\<lambda>(entry, ids).
         Some (entry, idsMap_upd g (ml_idsMap mlist) ids))))"

section \<open>Keys\<close>

text \<open>The client numbers \<^verbatim>\<open>mqtt.c\<close> hands out: a counter cut to 48 bits.\<close>

definition client_uid_ok :: "u64 \<Rightarrow> bool" where
  "client_uid_ok c \<longleftrightarrow> c AND 0x0000FFFFFFFFFFFF = c"

lemma client_uid_bit: "client_uid_ok c \<Longrightarrow> 48 \<le> n \<Longrightarrow> \<not> bit c n"
proof -
  assume c: "client_uid_ok c" and n: "48 \<le> n"
  have "(0x0000FFFFFFFFFFFF :: u64) = mask 48" by (simp add: mask_eq_exp_minus_1)
  then have "c = take_bit 48 c" using c by (simp add: client_uid_ok_def take_bit_eq_mask)
  then show ?thesis using n by (metis bit_take_bit_iff leD)
qed

lemma COMPUTE_KEY_bit:
  "bit (COMPUTE_KEY m c) n \<longleftrightarrow> n < 64 \<and> (if n < 16 then bit m n else bit c (n - 16))"
  using bit_imp_le_length [of m n]
  by (auto simp: COMPUTE_KEY_def bit_simps)

lemma COMPUTE_KEY_inj:
  assumes "COMPUTE_KEY m c = COMPUTE_KEY m' c'"
  shows COMPUTE_KEY_msgid: "m = m'"
    and COMPUTE_KEY_client: "client_uid_ok c \<Longrightarrow> client_uid_ok c' \<Longrightarrow> c = c'"
proof -
  have b: "bit (COMPUTE_KEY m c) n = bit (COMPUTE_KEY m' c') n" for n using assms by simp
  show "m = m'" 
  proof (rule bit_word_eqI)
    show "bit m n = bit m' n" if "n < LENGTH(16)" for n
      using b [of n] that by (simp add: COMPUTE_KEY_bit)
  qed
  show "c = c'" if ok: "client_uid_ok c" "client_uid_ok c'"
  proof (rule bit_word_eqI)
    show "bit c n = bit c' n" if "n < LENGTH(64)" for n
    proof (cases "n < 48")
      case True
      then show ?thesis using b [of "n + 16"] by (simp add: COMPUTE_KEY_bit)
    next
      case False
      then show ?thesis using ok by (simp add: client_uid_bit)
    qed
  qed
qed

section \<open>The map under the session's calls\<close>

text \<open>What the session sees of a shared map: its entry for a message identifier of a client.\<close>

definition ids_get :: "ids_map \<Rightarrow> u64 \<Rightarrow> u16 \<Rightarrow> ism_msgid_info_t option" where
  "ids_get ids c m = hm64_get ids (COMPUTE_KEY m c)"

definition ids_own :: "ids_map \<Rightarrow> u64 \<Rightarrow> u16 set" where
  "ids_own ids c = {m. ids_get ids c m \<noteq> None}"

lemma finite_ids_own [simp]: "finite (ids_own ids c)"
  by (rule finite_subset [OF subset_UNIV]) simp

lemma hm64_remove:
  "hm64_inv ids \<Longrightarrow>
    ism_common_removeHashMapElement (Some ids) (Some (u64_image k)) 8
      = Some (hm64_get ids k, Some (hm64_del k ids))"
  using getHashMapElement_correct [of ids "u64_image k" 8 "u64_image k" True]
  by (auto simp: hm64_del_def hm64_inv_def hm64_get_abs ism_common_removeHashMapElement_def)

lemma ids_get_del:
  assumes "hm64_inv ids" and "client_uid_ok c" and "client_uid_ok c'"
  shows "ids_get (hm64_del (COMPUTE_KEY m c) ids) c' m' = (if c' = c \<and> m' = m then None else ids_get ids c' m')"
  using assms COMPUTE_KEY_inj [of m' c' m c] by (auto simp: ids_get_def hm64.get_del)

lemma ids_own_del:
  assumes "hm64_inv ids" and "client_uid_ok c"
  shows "ids_own (hm64_del (COMPUTE_KEY m c) ids) c = ids_own ids c - {m}"
  using assms by (auto simp: ids_own_def ids_get_del split: if_splits)

lemma unat_pred_u16: "(n :: u16) \<noteq> 0 \<Longrightarrow> unat (n - 1) = unat n - 1"
  by (simp add: unat_minus_one)

text \<open>One turn of the loop, in terms of the contract.\<close>

lemma freelist_loop_step:
  assumes "hm64_inv ids" and "inUse \<noteq> 0"
  shows "msgid_freelist_loop (Suc fuel) c m inUse ids =
    msgid_freelist_loop fuel c (m + 1) (if m \<in> ids_own ids c then inUse - 1 else inUse)
      (hm64_del (COMPUTE_KEY m c) ids)"
proof -
  have "unat m < 2 ^ 16" using unsigned_less [of m, where ?'a = nat] by simp
  then have "m \<le> 0xFFFF" by (simp add: word_le_nat_alt)
  then show ?thesis using assms by (simp add: hm64_remove ids_own_def ids_get_def)
qed

lemma hm64_del_locked: "hm64_inv ids \<Longrightarrow> hm_locked (hm64_del k ids) = hm_locked ids"
  using getHashMapElement_correct [of ids "u64_image k" 8 "u64_image k" True]
  by (auto simp: hm64_del_def hm64_inv_def ism_common_removeHashMapElement_def)

text \<open>
  When the counter agrees with the entries of the client, the loop ends after at most one turn
  for each of the 65536 identifiers and takes exactly the client's entries out of the map.
\<close>

lemma freelist_loop_ends:
  assumes "hm64_inv ids" and "client_uid_ok c"
    and "unat inUse = card (ids_own ids c)" and "ids_own ids c \<subseteq> of_nat ` {j..<j + d}" and "d < fuel"
  shows "\<exists>ids'. msgid_freelist_loop fuel c (of_nat j) inUse ids = Some ids' \<and> hm64_inv ids' \<and>
    hm_locked ids' = hm_locked ids \<and>
    (\<forall>c' m. client_uid_ok c' \<longrightarrow> ids_get ids' c' m = (if c' = c then None else ids_get ids c' m))"
  using assms
proof (induction d arbitrary: ids inUse j fuel)
  case 0
  then obtain f where "fuel = Suc f" by (cases fuel) auto
  moreover have "ids_own ids c = {}" using 0 by simp
  ultimately show ?case using 0 by (auto simp: ids_own_def unat_eq_zero)
next
  case (Suc d)
  then obtain f where f: "fuel = Suc f" "d < f" by (cases fuel) auto
  show ?case
  proof (cases "inUse = 0")
    case True
    then have "ids_own ids c = {}" using Suc.prems by simp
    then show ?thesis using True f Suc.prems by (auto simp: ids_own_def)
  next
    case False
    let ?m = "of_nat j :: u16"
    let ?ids = "hm64_del (COMPUTE_KEY ?m c) ids"
    let ?n = "if ?m \<in> ids_own ids c then inUse - 1 else inUse"
    have own: "ids_own ?ids c = ids_own ids c - {?m}" using Suc.prems by (simp add: ids_own_del)
    have "unat ?n = card (ids_own ?ids c)"
      using Suc.prems False by (simp add: own unat_pred_u16 card_Diff_singleton_if)
    moreover have "{j..<j + Suc d} = insert j {Suc j..<Suc j + d}" by auto
    then have "ids_own ?ids c \<subseteq> of_nat ` {Suc j..<Suc j + d}" using Suc.prems own by auto
    ultimately obtain ids' where ids': "msgid_freelist_loop f c (of_nat (Suc j)) ?n ?ids = Some ids'"
        "hm64_inv ids'" "hm_locked ids' = hm_locked ?ids"
        "\<forall>c' m. client_uid_ok c' \<longrightarrow> ids_get ids' c' m = (if c' = c then None else ids_get ?ids c' m)"
      using Suc.IH [of ?ids ?n "Suc j" f] Suc.prems f hm64.inv_del by blast
    have "msgid_freelist_loop fuel c ?m inUse ids = Some ids'"
      using ids'(1) freelist_loop_step [OF Suc.prems(1) False] by (simp add: f(1) add.commute)
    then show ?thesis using ids' Suc.prems by (auto simp: ids_get_del hm64_del_locked)
  qed
qed

lemma hm64_inv_locked [simp]: "hm64_inv (ids\<lparr>hm_locked := b\<rparr>) \<longleftrightarrow> hm64_inv ids"
  by (simp add: hm64_inv_def)

lemma ids_get_locked [simp]: "hm64_inv ids \<Longrightarrow> ids_get (ids\<lparr>hm_locked := b\<rparr>) c m = ids_get ids c m"
  by (simp add: ids_get_def hm64_get_abs)

lemma freelist_loop_locked:
  assumes "hm64_inv ids" and "unat inUse = card (ids_own ids c)" and "client_uid_ok c" and "65536 < fuel"
  shows "\<exists>ids'. msgid_freelist_loop fuel c (of_nat 1) inUse (ids\<lparr>hm_locked := True\<rparr>) = Some ids' \<and>
    hm64_inv ids' \<and> hm_locked ids' \<and>
    (\<forall>c' m. client_uid_ok c' \<longrightarrow> ids_get ids' c' m = (if c' = c then None else ids_get ids c' m))"
proof -
  have "m \<in> of_nat ` {1..<1 + 65536}" for m :: u16
  proof (cases "m = 0")
    case True
    then have "m = of_nat 65536" by simp
    then show ?thesis by (rule image_eqI) simp
  next
    case False
    then have "0 < unat m" by (simp add: unat_gt_0)
    moreover have "unat m < 2 ^ 16" using unsigned_less [of m, where ?'a = nat] by simp
    ultimately show ?thesis by (intro image_eqI [of _ _ "unat m"]) auto
  qed
  then have "ids_own (ids\<lparr>hm_locked := True\<rparr>) c \<subseteq> of_nat ` {1..<1 + 65536}" by blast
  moreover have get: "ids_get (ids\<lparr>hm_locked := True\<rparr>) = ids_get ids" using assms(1) by (intro ext) simp
  ultimately show ?thesis
    using freelist_loop_ends [of "ids\<lparr>hm_locked := True\<rparr>" c inUse 1 65536 fuel] assms by (simp add: ids_own_def cong: if_cong)
qed

text \<open>When the counter is above the number of entries, no number of turns is enough.\<close>

lemma freelist_loop_runs:
  assumes "hm64_inv ids" and "client_uid_ok c" and "card (ids_own ids c) < unat inUse"
  shows "msgid_freelist_loop fuel c m inUse ids = None"
  using assms
proof (induction fuel arbitrary: ids inUse m)
  case 0
  then show ?case by simp
next
  case (Suc fuel)
  let ?ids = "hm64_del (COMPUTE_KEY m c) ids"
  have n: "inUse \<noteq> 0" using Suc.prems by auto
  have "card (ids_own ?ids c) < unat (if m \<in> ids_own ids c then inUse - 1 else inUse)"
  proof (cases "m \<in> ids_own ids c")
    case True
    then have "0 < card (ids_own ids c)" by (auto simp: card_gt_0_iff)
    then show ?thesis using Suc.prems n True by (simp add: ids_own_del unat_pred_u16 card_Diff_singleton_if)
  qed (use Suc.prems n in \<open>simp add: ids_own_del\<close>)
  then show ?case using Suc.IH [of ?ids] Suc.prems freelist_loop_step [OF Suc.prems(1) n]
    by (simp add: hm64.inv_del)
qed

section \<open>Sessions\<close>

text \<open>
  The invariant of a session's list: its map exists, is sound and unlocked, the counter
  \<open>inUseCount\<close> is the number of the client's entries in it, and the free list has \<open>freeCount\<close>
  entries, at most \<open>range\<close>.
\<close>

definition msgid_inv :: "msgid_globals \<Rightarrow> ism_msgid_list_t \<Rightarrow> bool" where
  "msgid_inv g ml \<longleftrightarrow>
     (case idsMap_ref g (ml_idsMap ml) of None \<Rightarrow> False
      | Some ids \<Rightarrow> hm64_inv ids \<and> \<not> hm_locked ids \<and>
          unat (ml_inUseCount ml) = card (ids_own ids (ml_client_uid ml))) \<and>
     client_uid_ok (ml_client_uid ml) \<and>
     unat (ml_freeCount ml) = length (ml_freeList ml) \<and> ml_freeCount ml \<le> ml_range ml"

definition msgid_get :: "msgid_globals \<Rightarrow> bool \<times> nat \<Rightarrow> u64 \<Rightarrow> u16 \<Rightarrow> ism_msgid_info_t option" where
  "msgid_get g r c m = Option.bind (idsMap_ref g r) (\<lambda>ids. ids_get ids c m)"

definition msgid_room :: "msgid_globals \<Rightarrow> ism_msgid_list_t \<Rightarrow> bool" where
  "msgid_room g ml \<longleftrightarrow> (case idsMap_ref g (ml_idsMap ml) of None \<Rightarrow> False | Some ids \<Rightarrow> hm_room ids)"

lemma idsMap_ref_upd:
  "idsMap_ref g r = Some ids \<Longrightarrow> idsMap_ref (idsMap_upd g r ids') r' = (if r' = r then Some ids' else idsMap_ref g r')"
  by (cases r; cases r') (auto simp: idsMap_ref_def idsMap_upd_def Let_def split: if_splits)

lemma idsMap_upd_same: "idsMap_ref g r = Some ids \<Longrightarrow> idsMap_upd g r ids = g"
  by (cases r) (auto simp: idsMap_ref_def idsMap_upd_def Let_def list_update_same_conv split: if_splits)

lemma msgid_invE:
  assumes "msgid_inv g ml"
  obtains ids where "idsMap_ref g (ml_idsMap ml) = Some ids" and "hm64_inv ids" and "\<not> hm_locked ids"
    and "unat (ml_inUseCount ml) = card (ids_own ids (ml_client_uid ml))" and "client_uid_ok (ml_client_uid ml)"
    and "unat (ml_freeCount ml) = length (ml_freeList ml)" and "ml_freeCount ml \<le> ml_range ml"
  using assms by (auto simp: msgid_inv_def split: option.splits)

text \<open>
  A step of one client that replaces its map by one that differs in its own entries only keeps
  the invariants of the other sessions.
\<close>

lemma msgid_inv_frame:
  assumes "msgid_inv g ml" and "idsMap_ref g r = Some ids" and "hm64_inv ids'" and "\<not> hm_locked ids'"
    and "\<And>m. r = ml_idsMap ml \<Longrightarrow> ids_get ids' (ml_client_uid ml) m = ids_get ids (ml_client_uid ml) m"
  shows "msgid_inv (idsMap_upd g r ids') ml"
  using assms by (auto simp: msgid_inv_def idsMap_ref_upd ids_own_def)

lemma putLock64:
  assumes "hm64_inv ids" and "\<not> hm_locked ids" and "hm_room ids"
  shows "\<exists>ids'. ism_common_putHashMapElementLock True ok ids (Some (u64_image k)) 8 (Some v)
      = Some (0, ids', hm64_get ids k) \<and> hm64_inv ids' \<and> \<not> hm_locked ids' \<and>
    (\<forall>k'. hm64_get ids' k' = (if k' = k then Some v else hm64_get ids k'))"
  using putHashMapElementLock_correct [of ids "u64_image k" 8 "u64_image k" ok v] assms
  by (fastforce simp: hm64_inv_def hm_room_def hm64_get_abs)

text \<open>Insertion with any outcome of the allocation of the element: without one, the map is as it was.\<close>

lemma putLock64_any:
  assumes "hm64_inv ids" and "\<not> hm_locked ids" and "hm_room ids"
  shows "\<exists>rc ids' prev. ism_common_putHashMapElementLock malloc_ok ok ids (Some (u64_image k)) 8 (Some v) = Some (rc, ids', prev) \<and>
    hm64_inv ids' \<and> \<not> hm_locked ids' \<and> (\<forall>k'. hm64_get ids' k' = (if malloc_ok \<and> k' = k then Some v else hm64_get ids k'))"
proof (cases malloc_ok)
  case True
  obtain ids' where "ism_common_putHashMapElementLock True ok ids (Some (u64_image k)) 8 (Some v) = Some (0, ids', hm64_get ids k)"
      "hm64_inv ids'" "\<not> hm_locked ids'" "\<forall>k'. hm64_get ids' k' = (if k' = k then Some v else hm64_get ids k')"
    using putLock64 [OF assms] by blast
  then show ?thesis using True by simp
next
  case False
  have "memhash_int64 (u64_image k) 8 \<noteq> None" by (simp add: memhash_int64_def)
  then have "ism_common_putHashMapElementLock False ok ids (Some (u64_image k)) 8 (Some v) = Some (-1, ids, None)"
    using assms(1,2) by (auto simp: ism_common_putHashMapElementLock_def ism_common_putHashMapElement_def mapLock_def mapUnlock_def hm64_inv_def)
  then show ?thesis using False assms by simp
qed

lemma removeLock64:
  assumes "hm64_inv ids" and "\<not> hm_locked ids"
  obtains ids' where "ism_common_removeHashMapElementLock ids (Some (u64_image k)) 8
      = Some (hm64_get ids k, ids')" and "hm64_inv ids'" and "\<not> hm_locked ids'"
    and "\<forall>k'. hm64_get ids' k' = (if k' = k then None else hm64_get ids k')"
proof -
  obtain ids' where "ism_common_removeHashMapElementLock ids (Some (u64_image k)) 8
        = Some (hm_abs ids (u64_image k), ids')" "hm_inv ids'"
      "hm_abs ids' = (hm_abs ids)(u64_image k := None)" "hm_hashFunc ids' = HASH_INT64" "\<not> hm_locked ids'"
    using removeHashMapElementLock_correct [of ids "u64_image k" 8 "u64_image k"] assms
    by (auto simp: hm64_inv_def)
  then show thesis using assms by (intro that [of ids']) (auto simp: hm64_inv_def hm64_get_abs)
qed

lemma unat_pred_Suc: "unat (n :: u16) = Suc k \<Longrightarrow> unat (n - 1) = k"
  using unat_pred_u16 [of n] by fastforce

lemma unat_Suc_u16: "unat (n :: u16) < 65535 \<Longrightarrow> unat (n + 1) = Suc (unat n)"
  by (simp add: unat_word_ariths)

lemma freeMsgInfo_inv:
  fixes ml :: ism_msgid_list_t
  assumes "unat (ml_freeCount ml) = length (ml_freeList ml)" and "ml_freeCount ml \<le> ml_range ml"
  shows "unat (ml_freeCount (freeMsgInfo ml e)) = length (ml_freeList (freeMsgInfo ml e)) \<and>
    ml_freeCount (freeMsgInfo ml e) \<le> ml_range ml \<and> ml_range (freeMsgInfo ml e) = ml_range ml"
proof (cases "ml_freeCount ml < ml_range ml")
  case True
  then have "unat (ml_freeCount ml) < unat (ml_range ml)" by (simp add: word_less_nat_alt)
  moreover have "unat (ml_range ml) < 2 ^ 16" using unsigned_less [of "ml_range ml", where ?'a = nat] by simp
  ultimately have "unat (ml_freeCount ml + 1) = Suc (unat (ml_freeCount ml))" by (simp add: unat_Suc_u16)
  then show ?thesis using assms True
    by (auto simp: freeMsgInfo_def Let_def word_less_nat_alt word_le_nat_alt split: option.splits)
qed (use assms in \<open>auto simp: freeMsgInfo_def Let_def split: option.splits\<close>)

lemma msgid_entry_eq:
  fixes e :: ism_msgid_info_t
  shows "e\<lparr>mi_msgid := m, mi_handle := h, mi_state := s, mi_pending := p\<rparr>
    = \<lparr>mi_handle = h, mi_msgid = m, mi_state = s, mi_pending = p\<rparr>"
  by (cases e) simp

text \<open>
  What registering an identifier does to the session's map and to its list, if there is an entry for it: with an element of the map the
  entry is stored, without one only the count grows.
\<close>

lemma addMsgIdInfo_run:
  assumes "idsMap_ref g (ml_idsMap ml) = Some ids" and "hm64_inv ids" and "\<not> hm_locked ids"
    and "hm_room ids" and "client_uid_ok (ml_client_uid ml)" and "entry_ok \<or> ml_freeList ml \<noteq> []"
  obtains ids' where "ism_msgid_addMsgIdInfo entry_ok malloc_ok ok g ml handle msgid state
      = Some (0, idsMap_upd g (ml_idsMap ml) ids', ml\<lparr>ml_inUseCount := ml_inUseCount ml + 1,
          ml_freeList := tl (ml_freeList ml),
          ml_freeCount := ml_freeCount ml - (if ml_freeList ml = [] then 0 else 1)\<rparr>)"
    and "hm64_inv ids'" and "\<not> hm_locked ids'"
    and "\<forall>c m. client_uid_ok c \<longrightarrow> ids_get ids' c m =
      (if malloc_ok \<and> c = ml_client_uid ml \<and> m = msgid
       then Some \<lparr>mi_handle = handle, mi_msgid = msgid, mi_state = state, mi_pending = 1\<rparr>
       else ids_get ids c m)"
proof -
  let ?c = "ml_client_uid ml"
  let ?e = "\<lparr>mi_handle = handle, mi_msgid = msgid, mi_state = state, mi_pending = 1\<rparr>"
  obtain rc ids' prev where put: "ism_common_putHashMapElementLock malloc_ok ok ids
        (Some (u64_image (COMPUTE_KEY msgid ?c))) 8 (Some ?e) = Some (rc, ids', prev)"
      "hm64_inv ids'" "\<not> hm_locked ids'"
      "\<And>k. hm64_get ids' k = (if malloc_ok \<and> k = COMPUTE_KEY msgid ?c then Some ?e else hm64_get ids k)"
    using putLock64_any [OF assms(2-4), of malloc_ok ok "COMPUTE_KEY msgid ?c" ?e] by blast
  show thesis
  proof (rule that [OF _ put(2,3)])
    show "ism_msgid_addMsgIdInfo entry_ok malloc_ok ok g ml handle msgid state
        = Some (0, idsMap_upd g (ml_idsMap ml) ids', ml\<lparr>ml_inUseCount := ml_inUseCount ml + 1,
          ml_freeList := tl (ml_freeList ml),
          ml_freeCount := ml_freeCount ml - (if ml_freeList ml = [] then 0 else 1)\<rparr>)"
      using assms(1,6) put(1)
      by (cases "ml_freeList ml") (simp_all add: ism_msgid_addMsgIdInfo_def msgid_entry_eq)
    show "\<forall>c m. client_uid_ok c \<longrightarrow> ids_get ids' c m = (if malloc_ok \<and> c = ?c \<and> m = msgid then Some ?e else ids_get ids c m)"
      using assms(5) COMPUTE_KEY_inj [of _ _ msgid ?c] by (auto simp: ids_get_def put)
  qed
qed

text \<open>Freeing a list that counts more entries than the map has for its client.\<close>

lemma freelist_overcounted:
  assumes "idsMap_ref g (ml_idsMap ml) = Some ids" and "hm64_inv ids" and "\<not> hm_locked ids" and "client_uid_ok (ml_client_uid ml)"
    and "card (ids_own ids (ml_client_uid ml)) < unat (ml_inUseCount ml)"
  shows "ism_msgid_freelist fuel g (Some ml) = None"
proof -
  have "card (ids_own (ids\<lparr>hm_locked := True\<rparr>) (ml_client_uid ml)) = card (ids_own ids (ml_client_uid ml))"
    using assms(2) by (simp add: ids_own_def)
  moreover have "ml_inUseCount ml \<noteq> 0" using assms(5) by force
  ultimately show ?thesis using assms by (simp add: ism_msgid_freelist_def mapLock_def freelist_loop_runs)
qed

section \<open>Properties\<close>

text \<open>
  C8: Registering a message identifier that is not in use, with any outcome of the allocations. Without an entry, when the free list is empty and the allocation of one
  fails, the code writes through a null pointer. Otherwise it returns 0, counts the identifier, and leaves the lists of other clients, and those over another map,
  with their invariant. If the map gets its element, the handle and state are stored as a pending entry, no other entry of any map changes, and
  the invariant of the session is kept. If it does not, the code still returns 0: nothing is stored in any map, the invariant of the session is lost and freeing its list never
  returns.
\<close>

theorem addMsgIdInfo_correct:
  assumes "msgid_inv g ml" and "msgid_room g ml" and "unat (ml_inUseCount ml) < 65535"
    and "msgid_get g (ml_idsMap ml) (ml_client_uid ml) msgid = None"
  shows "if entry_ok \<or> ml_freeList ml \<noteq> [] then
    \<exists>g' ml'. ism_msgid_addMsgIdInfo entry_ok malloc_ok calloc_ok g ml handle msgid state = Some (0, g', ml') \<and>
      ml_inUseCount ml' = ml_inUseCount ml + 1 \<and>
      (\<forall>r c m. client_uid_ok c \<longrightarrow> msgid_get g' r c m =
         (if malloc_ok \<and> r = ml_idsMap ml \<and> c = ml_client_uid ml \<and> m = msgid
          then Some \<lparr>mi_handle = handle, mi_msgid = msgid, mi_state = state, mi_pending = 1\<rparr>
          else msgid_get g r c m)) \<and>
      (if malloc_ok then msgid_inv g' ml' else \<not> msgid_inv g' ml' \<and> (\<forall>fuel. ism_msgid_freelist fuel g' (Some ml') = None)) \<and>
      (\<forall>ml2. msgid_inv g ml2 \<and> (ml_client_uid ml2 \<noteq> ml_client_uid ml \<or> ml_idsMap ml2 \<noteq> ml_idsMap ml) \<longrightarrow> msgid_inv g' ml2)
    else ism_msgid_addMsgIdInfo entry_ok malloc_ok calloc_ok g ml handle msgid state = None"
proof (cases "entry_ok \<or> ml_freeList ml \<noteq> []")
  case True
  let ?c = "ml_client_uid ml"
  obtain ids where ids: "idsMap_ref g (ml_idsMap ml) = Some ids" "hm64_inv ids" "\<not> hm_locked ids"
      "unat (ml_inUseCount ml) = card (ids_own ids ?c)" "client_uid_ok ?c"
      "unat (ml_freeCount ml) = length (ml_freeList ml)" "ml_freeCount ml \<le> ml_range ml"
    using msgid_invE [OF assms(1)] by blast
  have "hm_room ids" using assms(2) ids by (simp add: msgid_room_def)
  define ml' where ml': "ml' = ml\<lparr>ml_inUseCount := ml_inUseCount ml + 1, ml_freeList := tl (ml_freeList ml),
        ml_freeCount := ml_freeCount ml - (if ml_freeList ml = [] then 0 else 1)\<rparr>"
  obtain ids' where add: "ism_msgid_addMsgIdInfo entry_ok malloc_ok calloc_ok g ml handle msgid state
        = Some (0, idsMap_upd g (ml_idsMap ml) ids', ml')"
      and inv: "hm64_inv ids'" "\<not> hm_locked ids'"
      and get: "\<forall>c m. client_uid_ok c \<longrightarrow> ids_get ids' c m = (if malloc_ok \<and> c = ?c \<and> m = msgid
        then Some \<lparr>mi_handle = handle, mi_msgid = msgid, mi_state = state, mi_pending = 1\<rparr>
        else ids_get ids c m)"
    using addMsgIdInfo_run [OF ids(1-3) \<open>hm_room ids\<close> ids(5) True, of malloc_ok calloc_ok handle msgid state] unfolding ml' .
  define g' where "g' = idsMap_upd g (ml_idsMap ml) ids'"
  have own: "ids_own ids' ?c = (if malloc_ok then insert msgid (ids_own ids ?c) else ids_own ids ?c)" "msgid \<notin> ids_own ids ?c"
    using ids assms(4) by (auto simp: ids_own_def get msgid_get_def)
  have n: "unat (ml_inUseCount ml') = Suc (card (ids_own ids ?c))" using ids(4) assms(3) by (simp add: ml' unat_Suc_u16)
  have "unat (ml_freeCount ml') = length (ml_freeList ml') \<and> ml_freeCount ml' \<le> ml_range ml'"
    using ids(6,7) by (cases "ml_freeList ml") (auto simp: ml' word_le_nat_alt unat_pred_Suc)
  then have session: "msgid_inv g' ml' \<longleftrightarrow> malloc_ok"
    using ids inv own n by (auto simp: msgid_inv_def g'_def ml' idsMap_ref_upd)
  have "ism_msgid_freelist fuel g' (Some ml') = None" if "\<not> malloc_ok" for fuel
    using that own(1) n ids inv by (intro freelist_overcounted [of _ _ ids']) (simp_all add: g'_def ml' idsMap_ref_upd)
  moreover have "msgid_inv g' ml2" if "msgid_inv g ml2" "ml_client_uid ml2 \<noteq> ?c \<or> ml_idsMap ml2 \<noteq> ml_idsMap ml" for ml2
    unfolding g'_def using that by (intro msgid_inv_frame [OF that(1) ids(1) inv]) (auto simp: get elim!: msgid_invE)
  ultimately show ?thesis
    using True add [folded g'_def] ids(1) session by (auto simp: msgid_get_def g'_def idsMap_ref_upd get ml')
qed (simp add: ism_msgid_addMsgIdInfo_def)

text \<open>
  C12: Removing a message identifier returns the stored handle and pending flag (the handle 0 and no
  flag when there is none), takes exactly this entry out, and keeps the invariant of the
  session and of every session of another client.
\<close>

theorem delMsgIdInfo_correct:
  assumes "msgid_inv g ml"
  shows "\<exists>g' ml'. ism_msgid_delMsgIdInfo g ml msgid =
      Some (case msgid_get g (ml_idsMap ml) (ml_client_uid ml) msgid of
              None \<Rightarrow> (0, None, g', ml') | Some e \<Rightarrow> (mi_handle e, Some (mi_pending e), g', ml')) \<and>
    msgid_inv g' ml' \<and>
    (\<forall>r c m. client_uid_ok c \<longrightarrow> msgid_get g' r c m =
       (if r = ml_idsMap ml \<and> c = ml_client_uid ml \<and> m = msgid then None else msgid_get g r c m)) \<and>
    (\<forall>ml2. msgid_inv g ml2 \<and> ml_client_uid ml2 \<noteq> ml_client_uid ml \<longrightarrow> msgid_inv g' ml2)"
proof -
  let ?c = "ml_client_uid ml"
  obtain ids where ids: "idsMap_ref g (ml_idsMap ml) = Some ids" "hm64_inv ids" "\<not> hm_locked ids"
      "unat (ml_inUseCount ml) = card (ids_own ids ?c)" "client_uid_ok ?c"
      "unat (ml_freeCount ml) = length (ml_freeList ml)" "ml_freeCount ml \<le> ml_range ml"
    using msgid_invE [OF assms(1)] by blast
  obtain ids' where rem: "ism_common_removeHashMapElementLock ids (Some (u64_image (COMPUTE_KEY msgid ?c))) 8
        = Some (hm64_get ids (COMPUTE_KEY msgid ?c), ids')" and inv: "hm64_inv ids'" "\<not> hm_locked ids'"
      and get64: "\<forall>k. hm64_get ids' k = (if k = COMPUTE_KEY msgid ?c then None else hm64_get ids k)"
    using removeLock64 [OF ids(2,3), of "COMPUTE_KEY msgid ?c"] .
  have get: "ids_get ids' c m = (if c = ?c \<and> m = msgid then None else ids_get ids c m)"
    if "client_uid_ok c" for c m
    using that ids(5) COMPUTE_KEY_inj [of m c msgid ?c] by (auto simp: ids_get_def get64)
  define ml' where "ml' = freeMsgInfo ml (ids_get ids ?c msgid)"
  have same: "ml_idsMap ml' = ml_idsMap ml" "ml_client_uid ml' = ?c"
    by (auto simp: ml'_def freeMsgInfo_def Let_def split: option.splits)
  have n: "ml_inUseCount ml' = (if msgid \<in> ids_own ids ?c then ml_inUseCount ml - 1 else ml_inUseCount ml)"
    by (auto simp: ml'_def freeMsgInfo_def Let_def ids_own_def split: option.splits)
  have own: "ids_own ids' ?c = ids_own ids ?c - {msgid}" using ids(5) by (auto simp: ids_own_def get split: if_splits)
  have "unat (ml_inUseCount ml') = card (ids_own ids' ?c)"
    using ids(4) by (cases "ml_inUseCount ml = 0") (auto simp: n own unat_pred_u16 card_Diff_singleton_if)
  then have "msgid_inv (idsMap_upd g (ml_idsMap ml) ids') ml'"
    using ids inv same freeMsgInfo_inv [OF ids(6,7), of "ids_get ids ?c msgid"]
    by (simp add: msgid_inv_def idsMap_ref_upd flip: ml'_def)
  moreover have "msgid_inv (idsMap_upd g (ml_idsMap ml) ids') ml2"
    if "msgid_inv g ml2" "ml_client_uid ml2 \<noteq> ?c" for ml2
    using that by (intro msgid_inv_frame [OF that(1) ids(1) inv]) (auto simp: get elim!: msgid_invE)
  moreover have "ism_msgid_delMsgIdInfo g ml msgid =
      Some (case msgid_get g (ml_idsMap ml) ?c msgid of
              None \<Rightarrow> (0, None, idsMap_upd g (ml_idsMap ml) ids', ml')
            | Some e \<Rightarrow> (mi_handle e, Some (mi_pending e), idsMap_upd g (ml_idsMap ml) ids', ml'))"
    using rem ids(1) by (cases "ids_get ids ?c msgid")
      (simp_all add: ism_msgid_delMsgIdInfo_def msgid_get_def ml'_def freeMsgInfo_def flip: ids_get_def)
  ultimately show ?thesis
    using ids(1) by (intro exI [of _ "idsMap_upd g (ml_idsMap ml) ids'"] exI [of _ ml'])
      (simp add: msgid_get_def idsMap_ref_upd get)
qed


text \<open>
  C14: Freeing the list of a session returns, after at most 65536 turns of its loop, and leaves in the
  shared map exactly the entries of the other clients; the invariants of the other sessions hold after it.
\<close>

theorem freelist_correct:
  assumes "msgid_inv g ml" and "65536 < fuel"
  shows "\<exists>g'. ism_msgid_freelist fuel g (Some ml) = Some g' \<and>
    (\<forall>r c m. client_uid_ok c \<longrightarrow> msgid_get g' r c m =
       (if r = ml_idsMap ml \<and> c = ml_client_uid ml then None else msgid_get g r c m)) \<and>
    (\<forall>ml2. msgid_inv g ml2 \<and> ml_client_uid ml2 \<noteq> ml_client_uid ml \<longrightarrow> msgid_inv g' ml2)"
proof -
  let ?c = "ml_client_uid ml"
  obtain ids where ids: "idsMap_ref g (ml_idsMap ml) = Some ids" "hm64_inv ids" "\<not> hm_locked ids"
      "unat (ml_inUseCount ml) = card (ids_own ids ?c)" "client_uid_ok ?c"
      "unat (ml_freeCount ml) = length (ml_freeList ml)" "ml_freeCount ml \<le> ml_range ml"
    using msgid_invE [OF assms(1)] by blast
  show ?thesis
  proof (cases "ml_inUseCount ml = 0")
    case True
    then have "ids_own ids ?c = {}" using ids(4) by simp
    then show ?thesis using True ids(1) by (auto simp: ism_msgid_freelist_def msgid_get_def ids_own_def)
  next
    case False
    obtain ids' where ids': "msgid_freelist_loop fuel ?c (of_nat 1) (ml_inUseCount ml) (ids\<lparr>hm_locked := True\<rparr>) = Some ids'"
        "hm64_inv ids'" "hm_locked ids'"
        "\<forall>c m. client_uid_ok c \<longrightarrow> ids_get ids' c m = (if c = ?c then None else ids_get ids c m)"
      using freelist_loop_locked [OF ids(2,4,5) assms(2)] by blast
    have run: "ism_msgid_freelist fuel g (Some ml) = Some (idsMap_upd g (ml_idsMap ml) (ids'\<lparr>hm_locked := False\<rparr>))"
      using False ids(1,3) ids' by (simp add: ism_msgid_freelist_def mapLock_def mapUnlock_def)
    have inv: "hm64_inv (ids'\<lparr>hm_locked := False\<rparr>)" "\<not> hm_locked (ids'\<lparr>hm_locked := False\<rparr>)"
      using ids'(2) by simp_all
    have "msgid_inv (idsMap_upd g (ml_idsMap ml) (ids'\<lparr>hm_locked := False\<rparr>)) ml2"
      if "msgid_inv g ml2" "ml_client_uid ml2 \<noteq> ?c" for ml2
      using that ids' by (intro msgid_inv_frame [OF that(1) ids(1) inv]) (auto elim!: msgid_invE)
    then show ?thesis using run ids(1) ids' by (auto simp: msgid_get_def idsMap_ref_upd)
  qed
qed

text \<open>
  C33: Registering an identifier that is still in use replaces its entry but counts it again; freeing
  the list then never returns, whatever number of turns its loop is given.
\<close>

theorem add_twice_freelist_runs:
  assumes "msgid_inv g ml" and "msgid_room g ml" and "unat (ml_inUseCount ml) < 65535"
    and "msgid_get g (ml_idsMap ml) (ml_client_uid ml) msgid \<noteq> None"
  shows "\<exists>g' ml'. ism_msgid_addMsgIdInfo True True ok g ml handle msgid state = Some (0, g', ml') \<and>
    (\<forall>fuel. ism_msgid_freelist fuel g' (Some ml') = None)"
proof -
  let ?c = "ml_client_uid ml"
  obtain ids where ids: "idsMap_ref g (ml_idsMap ml) = Some ids" "hm64_inv ids" "\<not> hm_locked ids"
      "unat (ml_inUseCount ml) = card (ids_own ids ?c)" "client_uid_ok ?c"
    using msgid_invE [OF assms(1)] by blast
  have "hm_room ids" using assms(2) ids by (simp add: msgid_room_def)
  then obtain ids' where add: "ism_msgid_addMsgIdInfo True True ok g ml handle msgid state
        = Some (0, idsMap_upd g (ml_idsMap ml) ids', ml\<lparr>ml_inUseCount := ml_inUseCount ml + 1,
          ml_freeList := tl (ml_freeList ml),
          ml_freeCount := ml_freeCount ml - (if ml_freeList ml = [] then 0 else 1)\<rparr>)"
      and inv: "hm64_inv ids'" "\<not> hm_locked ids'"
      and get: "\<forall>c m. client_uid_ok c \<longrightarrow> ids_get ids' c m = (if c = ?c \<and> m = msgid
        then Some \<lparr>mi_handle = handle, mi_msgid = msgid, mi_state = state, mi_pending = 1\<rparr>
        else ids_get ids c m)"
    using addMsgIdInfo_run [OF ids(1-3) \<open>hm_room ids\<close> ids(5), of True True ok handle msgid state] by auto
  have "ids_own (ids'\<lparr>hm_locked := True\<rparr>) ?c = ids_own ids ?c"
    using ids assms(4) inv(1) get by (auto simp: ids_own_def msgid_get_def)
  then have n: "card (ids_own (ids'\<lparr>hm_locked := True\<rparr>) ?c) < unat (ml_inUseCount ml + 1)"
    using ids(4) assms(3) by (simp add: unat_Suc_u16)
  then have "ml_inUseCount ml + 1 \<noteq> 0" by force
  then show ?thesis using add ids inv n
    by (auto simp: ism_msgid_freelist_def idsMap_ref_upd mapLock_def freelist_loop_runs)
qed


text \<open>
  After the start of the server with at least one map for each direction, a new session's list
  satisfies the invariant, its map is the one its number selects, and no identifier of it is in use.
\<close>

lemma create_msgid_list_correct:
  assumes "0 < numMaps" and "numMaps < 2 ^ 31" and "0 \<le> capacity" and "capacity < 2 ^ 31" and "client_uid_ok c"
  shows "\<exists>g ml. ism_msgid_init (\<lambda>_. True) numMaps capacity = Some g \<and>
    ism_create_msgid_list True g c isRX rng = Some ml \<and> msgid_inv g ml \<and>
    ml_idsMap ml = (isRX, unat c mod nat numMaps) \<and> msgid_get g (ml_idsMap ml) c m = None"
proof -
  obtain hm :: ids_map where hm: "ism_common_createHashMap True True (of_int capacity) HASH_INT64 = Some (Some hm)"
      "hm64_inv hm" "hm_abs hm = Map.empty" "\<not> hm_locked hm"
    using ism_common_createHashMap_correct [of "of_int capacity" HASH_INT64, where ?'v = ism_msgid_info_t]
    by (auto simp: hm64_inv_def)
  define g where "g = \<lparr>g_numMsgIdMaps = numMaps, g_msgIdsMapTx = replicate (nat numMaps) (Some hm),
    g_msgIdsMapRx = replicate (nat numMaps) (Some hm)\<rparr>"
  have "those (replicate n (Some x)) = Some (replicate n x)" for n and x :: "ids_map option"
    by (induction n) simp_all
  then have init: "ism_msgid_init (\<lambda>_. True) numMaps capacity = Some g"
    using hm(1) by (simp add: ism_msgid_init_def g_def map_replicate_const)
  let ?n = "of_int numMaps :: u64" and ?i = "unat c mod nat numMaps"
  have "?n = of_nat (nat numMaps)" "nat numMaps < 2 ^ 64" using assms(1,2) by simp_all
  then have n: "unat ?n = nat numMaps" by (simp add: unat_of_nat)
  then have "?n \<noteq> 0" "?i < nat numMaps" using assms(1) by auto
  moreover have "unat (c mod ?n) = ?i" by (simp add: unat_mod_distrib n)
  ultimately have "ism_create_msgid_list True g c isRX rng = Some \<lparr>ml_freeList = [], ml_idsMap = (isRX, ?i),
      ml_client_uid = c, ml_inUseCount = 0, ml_freeCount = 0, ml_range = rng\<rparr>" "idsMap_ref g (isRX, ?i) = Some hm"
    by (simp_all add: ism_create_msgid_list_def g_def idsMap_ref_def)
  moreover have "ids_get hm c' m' = None" for c' m' using hm by (simp add: ids_get_def hm64_get_abs)
  ultimately show ?thesis using init hm assms(5) by (auto simp: msgid_inv_def ids_own_def msgid_get_def)
qed

section \<open>A session to try the properties on\<close>

text \<open>
  One map of two buckets for each direction, and the sending list of client 5: as it is created, and
  with identifier 7 in use.
\<close>

definition demo_entry :: ism_msgid_info_t where
  "demo_entry = \<lparr>mi_handle = 77, mi_msgid = 7, mi_state = 2, mi_pending = 1\<rparr>"

definition demo_ids :: "bool \<Rightarrow> ids_map" where
  "demo_ids used = \<lparr>hm_hashFunc = HASH_INT64,
     hm_elements = [[], if used then [\<lparr>hme_hash_code = 0x50A1B, hme_key_len = 8, hme_key = [7, 0, 5, 0, 0, 0, 0, 0],
                         hme_value = demo_entry\<rparr>] else []],
     hm_locked = False, hm_mask = 1, hm_capacity = 2, hm_size = (if used then 1 else 0),
     hm_nelements = (if used then 1 else 0)\<rparr>"

definition demo_g :: "bool \<Rightarrow> msgid_globals" where
  "demo_g used = \<lparr>g_numMsgIdMaps = 1, g_msgIdsMapTx = [Some (demo_ids used)], g_msgIdsMapRx = [Some (demo_ids False)]\<rparr>"

definition demo_ml :: "bool \<Rightarrow> ism_msgid_list_t" where
  "demo_ml used = \<lparr>ml_freeList = [], ml_idsMap = (False, 0), ml_client_uid = 5,
     ml_inUseCount = (if used then 1 else 0), ml_freeCount = 0, ml_range = 4\<rparr>"

lemma demo_key: "u64_image (COMPUTE_KEY 7 5) = [7, 0, 5, 0, 0, 0, 0, 0]"
  by (simp add: COMPUTE_KEY_def flip: le_nat_inj)

lemma demo_hash: "memhash_int64 [7, 0, 5, 0, 0, 0, 0, 0] 8 = Some (0x50A1B, 8)"
  by (simp add: memhash_int64_def)

lemma demo_inv: "hm64_inv (demo_ids used)"
proof -
  have "\<exists>n \<le> 24. (2 :: nat) = 2 ^ n" by (rule exI [of _ 1]) simp
  then show ?thesis
    by (simp add: hm64_inv_def hm_inv_def demo_ids_def hm_table_ok_def hm_chain_ok_def hme_ok_def
        hm_nonempty_def demo_hash less_Suc_eq)
qed


lemma demo_get: "ids_get (demo_ids used) 5 m = (if used \<and> m = 7 then Some demo_entry else None)"
proof -
  have "ids_get (demo_ids used) 5 m = (if used \<and> u64_image (COMPUTE_KEY m 5) = u64_image (COMPUTE_KEY 7 5)
      then Some demo_entry else None)"
    by (simp only: ids_get_def hm64_get_abs [OF demo_inv] demo_key) (simp add: hm_abs_def hm_alist_def demo_ids_def)
  then show ?thesis using COMPUTE_KEY_msgid [of m 5 7 5] by auto
qed

lemma demo_session: "msgid_inv (demo_g used) (demo_ml used)" "msgid_room (demo_g used) (demo_ml used)"
  "msgid_get (demo_g used) (False, 0) 5 m = (if used \<and> m = 7 then Some demo_entry else None)"
  "unat (ml_inUseCount (demo_ml used)) < 65535" "ml_idsMap (demo_ml used) = (False, 0)"
  "ml_client_uid (demo_ml used) = 5"
proof -
  have ref: "idsMap_ref (demo_g used) (False, 0) = Some (demo_ids used)" by (simp add: idsMap_ref_def demo_g_def)
  show "msgid_get (demo_g used) (False, 0) 5 m = (if used \<and> m = 7 then Some demo_entry else None)"
    by (simp add: msgid_get_def ref demo_get)
  have "ids_own (demo_ids used) 5 = (if used then {7} else {})" by (auto simp: ids_own_def demo_get)
  then show "msgid_inv (demo_g used) (demo_ml used)"
    by (simp add: msgid_inv_def demo_ml_def ref demo_inv client_uid_ok_def) (simp add: demo_ids_def)
  show "msgid_room (demo_g used) (demo_ml used)"
    by (simp add: msgid_room_def demo_ml_def ref) (simp add: hm_room_def demo_ids_def)
qed (simp_all add: demo_ml_def)

theorem addMsgIdInfo_witness:
  "(\<exists>g' ml'. ism_msgid_addMsgIdInfo True True True (demo_g True) (demo_ml True) 99 8 1 = Some (0, g', ml') \<and>
      msgid_inv g' ml' \<and> msgid_get g' (False, 0) 5 7 = Some demo_entry \<and>
      msgid_get g' (False, 0) 5 8 = Some \<lparr>mi_handle = 99, mi_msgid = 8, mi_state = 1, mi_pending = 1\<rparr>) \<and>
    (\<exists>g' ml'. ism_msgid_addMsgIdInfo True False True (demo_g True) (demo_ml True) 99 8 1 = Some (0, g', ml') \<and>
      msgid_get g' (False, 0) 5 8 = None \<and> ism_msgid_freelist 65537 g' (Some ml') = None)"
proof -
  note add = addMsgIdInfo_correct [of "demo_g True" "demo_ml True" 8 True _ True 99 1]
  show ?thesis using add [of True] add [of False] by (auto simp: demo_session client_uid_ok_def)
qed

theorem delMsgIdInfo_witness:
  "\<exists>g' ml'. ism_msgid_delMsgIdInfo (demo_g True) (demo_ml True) 7 = Some (77, Some 1, g', ml') \<and>
    msgid_inv g' ml' \<and> msgid_get g' (False, 0) 5 7 = None"
  using delMsgIdInfo_correct [of "demo_g True" "demo_ml True" 7]
  by (auto simp: demo_session client_uid_ok_def demo_entry_def)

theorem freelist_witness:
  "\<exists>g'. ism_msgid_freelist 65537 (demo_g True) (Some (demo_ml True)) = Some g' \<and>
    msgid_get g' (False, 0) 5 7 = None"
  using freelist_correct [of "demo_g True" "demo_ml True" 65537]
  by (auto simp: demo_session client_uid_ok_def)

theorem add_twice_witness:
  "\<exists>g' ml'. ism_msgid_addMsgIdInfo True True True (demo_g True) (demo_ml True) 99 7 1 = Some (0, g', ml') \<and>
    (\<forall>fuel. ism_msgid_freelist fuel g' (Some ml') = None)"
  using add_twice_freelist_runs [of "demo_g True" "demo_ml True" 7 True 99 1]
  by (simp add: demo_session)

theorem create_msgid_list_witness:
  "\<exists>g ml. ism_msgid_init (\<lambda>_. True) 10 131072 = Some g \<and> ism_create_msgid_list True g 25 True 16 = Some ml \<and>
    msgid_inv g ml \<and> ml_idsMap ml = (True, 5)"
  using create_msgid_list_correct [of 10 131072 25 True 16 0] by (auto simp: client_uid_ok_def)

end
