(* ===== verification/EngineHashTable.thy ===== *)
theory EngineHashTable
  imports KeyValue
begin

text \<open>
  The hash table of the engine, \<^verbatim>\<open>src/server_engine/src/engineHashTable.c\<close> and \<^verbatim>\<open>.h\<close>: an array of
  chains, each an array of entries sorted by the full hash of the key, which the caller computes.

  The entries in use of a chain are a list, whose length is the field \<open>count\<close>; \<open>hc_size\<close> is the
  allocated size. A key is a string or, in tables used with \<^verbatim>\<open>ieutFLAG_NUMERIC_KEY\<close>, a number kept in the
  pointer; comparing a number with \<^verbatim>\<open>strcmp\<close> has no result. A value pointer is an option and the
  copy made under \<^verbatim>\<open>ieutFLAG_DUPLICATE_VALUE\<close> is equal to the original. Every allocation
  succeeds or fails by a parameter. \<open>hc_dangling\<close> says that the array of a chain has been freed
  while the table still points to it: no operation that reads it has a result.

  The lemmas show that the operations act on a partial map from hash and key to values, and the
  table is an instance of the contract \<open>kv_map\<close>.
\<close>

section \<open>Data\<close>

definition ieutFLAG_DUPLICATE_KEY_STRING :: u32 where "ieutFLAG_DUPLICATE_KEY_STRING = 0x1"

definition ieutFLAG_DUPLICATE_VALUE :: u32 where "ieutFLAG_DUPLICATE_VALUE = 0x2"

definition ieutFLAG_DUPLICATE_RESIZE :: u32 where "ieutFLAG_DUPLICATE_RESIZE = 0x4"

definition ieutFLAG_REPLACE_EXISTING :: u32 where "ieutFLAG_REPLACE_EXISTING = 0x8"

definition ieutFLAG_NUMERIC_KEY :: u32 where "ieutFLAG_NUMERIC_KEY = 0x10"

datatype ieutKey = NumericKey u64 | StringKey string

record 'v ieutHashEntry_t =
  he_key :: ieutKey
  he_value :: "'v option"
  he_keyHash :: u32
  he_flags :: u32

record 'v ieutHashChain_t =
  hc_size :: u32
  hc_entries :: "'v ieutHashEntry_t list"
  hc_dangling :: bool

record 'v ieutHashTable_t =
  ht_totalCount :: u64
  ht_chains :: "'v ieutHashChain_t list"
  ht_capacity :: u32

definition empty_chain :: "'v ieutHashChain_t" where
  "empty_chain = \<lparr>hc_size = 0, hc_entries = [], hc_dangling = False\<rparr>"

text \<open>The array of primes from which capacities are suggested.\<close>

definition CAPACITY_PRIMES :: "u32 list" where
  "CAPACITY_PRIMES = [53, 97, 193, 389, 769, 1543, 3079, 6151, 12289, 24593, 49157, 98317,
     196613, 393241, 786433, 1572869, 3145739]"

section \<open>Operations\<close>

definition ieut_createHashTable :: "bool \<Rightarrow> bool \<Rightarrow> u32 \<Rightarrow> int \<times> 'v ieutHashTable_t option" where
  "ieut_createHashTable table_ok chains_ok capacity =
     (if \<not> table_ok then (ISMRC_AllocateError, None)
      else if \<not> chains_ok then (ISMRC_AllocateError, None)
      else (OK, Some \<lparr>ht_totalCount = 0, ht_chains = replicate (unat capacity) empty_chain, ht_capacity = capacity\<rparr>))"

text \<open>The chains after clearing; reading the entries of a dangling chain has no result.\<close>

definition ieut_clearHashTable :: "'v ieutHashTable_t \<Rightarrow> 'v ieutHashTable_t option" where
  "ieut_clearHashTable table =
     (if list_ex hc_dangling (ht_chains table) then None
      else Some (table\<lparr>ht_chains := map (\<lambda>chain. chain\<lparr>hc_entries := [], hc_size := 0\<rparr>) (ht_chains table),
                       ht_totalCount := 0\<rparr>))"

text \<open>
  The inner loop of \<^verbatim>\<open>ieut_removeEmptyHashEntries\<close> over the entries of one chain, with the running
  total count, and what it does to the chain.
\<close>

fun ieut_drop_empty :: "'v ieutHashEntry_t list \<Rightarrow> u64 \<Rightarrow> 'v ieutHashEntry_t list \<times> u64" where
  "ieut_drop_empty [] totalCount = ([], totalCount)"
| "ieut_drop_empty (entry # entries) totalCount =
     (if he_value entry = None then ieut_drop_empty entries (totalCount - 1)
      else let (es, n) = ieut_drop_empty entries totalCount in (entry # es, n))"

fun ieut_removeEmpty_chains :: "'v ieutHashChain_t list \<Rightarrow> u64 \<Rightarrow> ('v ieutHashChain_t list \<times> u64) option" where
  "ieut_removeEmpty_chains [] totalCount = Some ([], totalCount)"
| "ieut_removeEmpty_chains (chain # chs) totalCount =
     (if hc_entries chain \<noteq> [] then
        if hc_dangling chain then None
        else let (es, n) = ieut_drop_empty (hc_entries chain) totalCount;
                 chain' = (if es = [] then chain\<lparr>hc_entries := [], hc_size := 0\<rparr> else chain\<lparr>hc_entries := es\<rparr>)
             in map_option (\<lambda>(cs, m). (chain' # cs, m)) (ieut_removeEmpty_chains chs n)
      else map_option (\<lambda>(cs, m). (chain # cs, m)) (ieut_removeEmpty_chains chs totalCount))"

definition ieut_removeEmptyHashEntries :: "'v ieutHashTable_t \<Rightarrow> 'v ieutHashTable_t option" where
  "ieut_removeEmptyHashEntries table =
     map_option (\<lambda>(cs, n). table\<lparr>ht_chains := cs, ht_totalCount := n\<rparr>)
       (ieut_removeEmpty_chains (ht_chains table) (ht_totalCount table))"

text \<open>Traversals, with a callback on the key, its hash, the value and the context.\<close>

definition ieut_traverseHashTable ::
    "'v ieutHashTable_t \<Rightarrow> (ieutKey \<Rightarrow> u32 \<Rightarrow> 'v option \<Rightarrow> 'c \<Rightarrow> 'c) \<Rightarrow> 'c \<Rightarrow> 'c option" where
  "ieut_traverseHashTable table callback context =
     (if ht_totalCount table \<noteq> 0 then
        if list_ex (\<lambda>c. hc_entries c \<noteq> [] \<and> hc_dangling c) (ht_chains table) then None
        else Some (fold (\<lambda>entry. callback (he_key entry) (he_keyHash entry) (he_value entry))
                     (concat (map hc_entries (ht_chains table))) context)
      else Some context)"

fun ieut_traverse_entries ::
    "(ieutKey \<Rightarrow> u32 \<Rightarrow> 'v option \<Rightarrow> 'c \<Rightarrow> int \<times> 'c) \<Rightarrow> 'v ieutHashEntry_t list \<Rightarrow> 'c \<Rightarrow> int \<times> 'c" where
  "ieut_traverse_entries callback [] context = (OK, context)"
| "ieut_traverse_entries callback (entry # es) context =
     (let (rc, context) = callback (he_key entry) (he_keyHash entry) (he_value entry) context
      in if rc \<noteq> OK then (rc, context) else ieut_traverse_entries callback es context)"

fun ieut_traverse_chains ::
    "(ieutKey \<Rightarrow> u32 \<Rightarrow> 'v option \<Rightarrow> 'c \<Rightarrow> int \<times> 'c) \<Rightarrow> 'v ieutHashChain_t list \<Rightarrow> 'c \<Rightarrow> (int \<times> 'c) option" where
  "ieut_traverse_chains callback [] context = Some (OK, context)"
| "ieut_traverse_chains callback (chain # chs) context =
     (if hc_entries chain \<noteq> [] then
        if hc_dangling chain then None
        else let (rc, context) = ieut_traverse_entries callback (hc_entries chain) context
             in if rc \<noteq> OK then Some (rc, context) else ieut_traverse_chains callback chs context
      else ieut_traverse_chains callback chs context)"

definition ieut_traverseHashTableWithRC ::
    "'v ieutHashTable_t \<Rightarrow> (ieutKey \<Rightarrow> u32 \<Rightarrow> 'v option \<Rightarrow> 'c \<Rightarrow> int \<times> 'c) \<Rightarrow> 'c \<Rightarrow> (int \<times> 'c) option" where
  "ieut_traverseHashTableWithRC table callback context =
     (if ht_totalCount table \<noteq> 0 then ieut_traverse_chains callback (ht_chains table) context
      else Some (OK, context))"

text \<open>
  Comparison of keys under the flags that say which kind they are: pointers for numeric keys,
  \<^verbatim>\<open>strcmp\<close> for strings.
\<close>

definition ieut_key_eq :: "u32 \<Rightarrow> ieutKey \<Rightarrow> ieutKey \<Rightarrow> bool option" where
  "ieut_key_eq flags k1 k2 =
     (case (k1, k2) of
        (NumericKey n1, NumericKey n2) \<Rightarrow> if flags AND ieutFLAG_NUMERIC_KEY \<noteq> 0 then Some (n1 = n2) else None
      | (StringKey s1, StringKey s2) \<Rightarrow> if flags AND ieutFLAG_NUMERIC_KEY \<noteq> 0 then None else Some (s1 = s2)
      | _ \<Rightarrow> None)"

text \<open>
  The loop the three operations on one entry share: whether the entry is there and the index
  where it is or would be. The flags that select the comparison are those passed by the caller
  for an insertion and those of the entry otherwise.
\<close>

fun ieut_scan :: "('v ieutHashEntry_t \<Rightarrow> u32) \<Rightarrow> ieutKey \<Rightarrow> u32 \<Rightarrow> 'v ieutHashEntry_t list \<Rightarrow> (bool \<times> nat) option" where
  "ieut_scan flags key keyHash [] = Some (False, 0)"
| "ieut_scan flags key keyHash (entry # entries) =
     (if he_keyHash entry = keyHash then
        Option.bind (ieut_key_eq (flags entry) (he_key entry) key) (\<lambda>eq.
          if eq then Some (True, 0)
          else map_option (\<lambda>(b, i). (b, Suc i)) (ieut_scan flags key keyHash entries))
      else if he_keyHash entry > keyHash then Some (False, 0)
      else map_option (\<lambda>(b, i). (b, Suc i)) (ieut_scan flags key keyHash entries))"

text \<open>The array of a full chain is doubled, an empty one gets two places.\<close>

definition ieut_grow_chain :: "'v ieutHashChain_t \<Rightarrow> 'v ieutHashChain_t" where
  "ieut_grow_chain chain =
     (if of_nat (length (hc_entries chain)) = hc_size chain
      then chain\<lparr>hc_size := (if hc_size chain = 0 then 2 else hc_size chain * 2)\<rparr> else chain)"

text \<open>
  The part of the insertion after the chain has room: the entry is searched for, and replaced or
  inserted before the first entry with a greater hash. \<open>None\<close> is a comparison of unlike keys or a
  failed assertion.
\<close>

definition ieut_put_in_chain ::
    "bool \<Rightarrow> 'v ieutHashTable_t \<Rightarrow> nat \<Rightarrow> 'v ieutHashChain_t \<Rightarrow> u32 \<Rightarrow> ieutKey \<Rightarrow> u32 \<Rightarrow> 'v option
       \<Rightarrow> (int \<times> 'v ieutHashTable_t) option" where
  "ieut_put_in_chain key_ok table i chain flags key keyHash newValue =
     (let store = (\<lambda>chain. table\<lparr>ht_chains := (ht_chains table)[i := chain]\<rparr>)
      in Option.bind (ieut_scan (\<lambda>_. flags) key keyHash (hc_entries chain)) (\<lambda>(replace, index).
        if replace then
          let entry = hc_entries chain ! index
          in if flags AND ieutFLAG_REPLACE_EXISTING = 0 then Some (ISMRC_ExistingKey, store chain)
          else if flags AND ieutFLAG_DUPLICATE_KEY_STRING \<noteq> he_flags entry AND ieutFLAG_DUPLICATE_KEY_STRING \<or>
                  flags AND ieutFLAG_DUPLICATE_RESIZE \<noteq> 0 then None
          else
            let newKey = (if flags AND ieutFLAG_DUPLICATE_KEY_STRING = ieutFLAG_DUPLICATE_KEY_STRING
                          then he_key entry else key);
                entry = entry\<lparr>he_key := newKey, he_value := newValue,
                              he_flags := flags AND NOT ieutFLAG_DUPLICATE_RESIZE\<rparr>
            in Some (OK, store (chain\<lparr>hc_entries := (hc_entries chain)[index := entry]\<rparr>))
        else if flags AND (ieutFLAG_DUPLICATE_RESIZE OR ieutFLAG_DUPLICATE_KEY_STRING) = ieutFLAG_DUPLICATE_KEY_STRING \<and>
                (case key of NumericKey _ \<Rightarrow> True | StringKey _ \<Rightarrow> False)
        then None
        else if flags AND (ieutFLAG_DUPLICATE_RESIZE OR ieutFLAG_DUPLICATE_KEY_STRING) = ieutFLAG_DUPLICATE_KEY_STRING \<and>
                \<not> key_ok
        then Some (ISMRC_AllocateError, store chain)
        else
          let entry = \<lparr>he_key = key, he_value = newValue, he_keyHash = keyHash,
                       he_flags = flags AND NOT ieutFLAG_DUPLICATE_RESIZE\<rparr>;
              table' = store (chain\<lparr>hc_entries := take index (hc_entries chain) @ entry # drop index (hc_entries chain)\<rparr>)
          in Some (OK, table'\<lparr>ht_totalCount := ht_totalCount table' + 1\<rparr>)))"

text \<open>
  Insertion. \<open>None\<close> stands also for the division by a capacity of 0 and an access to freed
  entries; in the function above also for a failed assertion and for the duplication of a number as a string. \<open>value_ok\<close>, \<open>realloc_ok\<close> and \<open>key_ok\<close> are the outcomes of the three allocations.
\<close>

definition ieut_putHashEntry ::
    "bool \<Rightarrow> bool \<Rightarrow> bool \<Rightarrow> 'v ieutHashTable_t \<Rightarrow> u32 \<Rightarrow> ieutKey \<Rightarrow> u32 \<Rightarrow> 'v option
       \<Rightarrow> (int \<times> 'v ieutHashTable_t) option" where
  "ieut_putHashEntry value_ok realloc_ok key_ok table flags key keyHash newValue =
     (if newValue \<noteq> None \<and>
         flags AND (ieutFLAG_DUPLICATE_RESIZE OR ieutFLAG_DUPLICATE_VALUE) = ieutFLAG_DUPLICATE_VALUE \<and> \<not> value_ok
      then Some (ISMRC_AllocateError, table)
      else
        let i = unat (keyHash mod ht_capacity table); chain = ht_chains table ! i
        in if ht_capacity table = 0 \<or> length (ht_chains table) \<le> i \<or> hc_dangling chain then None
           else if of_nat (length (hc_entries chain)) = hc_size chain \<and> \<not> realloc_ok
           then Some (ISMRC_AllocateError, table)
           else ieut_put_in_chain key_ok table i (ieut_grow_chain chain) flags key keyHash newValue)"

definition ieut_getHashEntry ::
    "'v ieutHashTable_t \<Rightarrow> ieutKey \<Rightarrow> u32 \<Rightarrow> (int \<times> 'v option) option" where
  "ieut_getHashEntry table key keyHash =
     (let i = unat (keyHash mod ht_capacity table); chain = ht_chains table ! i
      in if ht_capacity table = 0 \<or> length (ht_chains table) \<le> i \<or> (hc_entries chain \<noteq> [] \<and> hc_dangling chain) then None
         else Option.bind (ieut_scan he_flags key keyHash (hc_entries chain)) (\<lambda>(found, index).
           if found then Some (OK, he_value (hc_entries chain ! index)) else Some (ISMRC_NotFound, None)))"

definition ieut_removeHashEntry :: "'v ieutHashTable_t \<Rightarrow> ieutKey \<Rightarrow> u32 \<Rightarrow> 'v ieutHashTable_t option" where
  "ieut_removeHashEntry table key keyHash =
     (let i = unat (keyHash mod ht_capacity table); chain = ht_chains table ! i
      in if ht_capacity table = 0 \<or> length (ht_chains table) \<le> i \<or> (hc_entries chain \<noteq> [] \<and> hc_dangling chain) then None
         else Option.bind (ieut_scan he_flags key keyHash (hc_entries chain)) (\<lambda>(found, index).
           if found then
             Some (table\<lparr>ht_totalCount := ht_totalCount table - 1,
                         ht_chains := (ht_chains table)[i := chain\<lparr>hc_entries :=
                           take index (hc_entries chain) @ drop (Suc index) (hc_entries chain)\<rparr>]\<rparr>)
           else Some table))"

text \<open>
  Resizing. The entries of one chain are put into the new table until an insertion fails;
  \<open>realloc_ok n\<close> is the outcome of the chain allocation for the \<open>n\<close>-th entry moved.
\<close>

fun ieut_resize_entries ::
    "(nat \<Rightarrow> bool) \<Rightarrow> nat \<Rightarrow> 'v ieutHashEntry_t list \<Rightarrow> 'v ieutHashTable_t \<Rightarrow> (int \<times> 'v ieutHashTable_t) option" where
  "ieut_resize_entries realloc_ok n [] newTable = Some (OK, newTable)"
| "ieut_resize_entries realloc_ok n (oldEntry # es) newTable =
     Option.bind (ieut_putHashEntry True (realloc_ok n) True newTable
                    (he_flags oldEntry OR ieutFLAG_DUPLICATE_RESIZE) (he_key oldEntry) (he_keyHash oldEntry)
                    (he_value oldEntry)) (\<lambda>(rc, newTable).
       if rc \<noteq> OK then Some (rc, newTable) else ieut_resize_entries realloc_ok (Suc n) es newTable)"

text \<open>
  The loop over the chains also frees the array of every chain it has moved: on a failure the old
  table keeps pointing to the arrays freed so far.
\<close>

fun ieut_resize_chains ::
    "(nat \<Rightarrow> bool) \<Rightarrow> nat \<Rightarrow> 'v ieutHashChain_t list \<Rightarrow> 'v ieutHashTable_t
       \<Rightarrow> (int \<times> 'v ieutHashChain_t list \<times> 'v ieutHashTable_t) option" where
  "ieut_resize_chains realloc_ok n [] newTable = Some (OK, [], newTable)"
| "ieut_resize_chains realloc_ok n (chain # chs) newTable =
     (if hc_dangling chain then None
      else Option.bind (ieut_resize_entries realloc_ok n (hc_entries chain) newTable) (\<lambda>(rc, newTable).
        if rc \<noteq> OK then Some (rc, chain # chs, newTable)
        else map_option (\<lambda>(rc, cs, newTable). (rc, chain\<lparr>hc_dangling := hc_size chain \<noteq> 0\<rparr> # cs, newTable))
               (ieut_resize_chains realloc_ok (n + length (hc_entries chain)) chs newTable)))"

definition ieut_resizeHashTable ::
    "bool \<Rightarrow> (nat \<Rightarrow> bool) \<Rightarrow> 'v ieutHashTable_t \<Rightarrow> int \<Rightarrow> (int \<times> 'v ieutHashTable_t) option" where
  "ieut_resizeHashTable calloc_ok realloc_ok table newCapacity =
     (if \<not> calloc_ok then Some (ISMRC_AllocateError, table)
      else
        let capacity = of_int newCapacity :: u32;
            newTable = \<lparr>ht_totalCount = 0, ht_chains = replicate (unat capacity) empty_chain, ht_capacity = capacity\<rparr>
        in if ht_totalCount table \<noteq> 0 then
             map_option (\<lambda>(rc, cs, newTable). if rc \<noteq> OK then (rc, table\<lparr>ht_chains := cs\<rparr>) else (OK, newTable))
               (ieut_resize_chains realloc_ok 0 (ht_chains table) newTable)
           else Some (OK, newTable))"

text \<open>The walk down the primes; the smallest is the result when none satisfies the test.\<close>

fun suggest_from :: "u64 \<Rightarrow> u64 \<Rightarrow> u64 \<Rightarrow> u64 list \<Rightarrow> u64" where
  "suggest_from expectedCount limit useCapacity [] = useCapacity"
| "suggest_from expectedCount limit useCapacity (p # ps) =
     (if limit \<ge> p \<and> expectedCount \<ge> p then p else suggest_from expectedCount limit p ps)"

definition ieut_suggestCapacity :: "u64 \<Rightarrow> u64 \<Rightarrow> u32" where
  "ieut_suggestCapacity expectedCount limit =
     (let limit = (if limit = 0 then ucast (last CAPACITY_PRIMES) else limit)
      in ucast (suggest_from expectedCount limit 0 (rev (map ucast CAPACITY_PRIMES))))"

definition ieut_generateUInt64Hash :: "u64 \<Rightarrow> u32" where
  "ieut_generateUInt64Hash key = foldl (\<lambda>keyHash b. (keyHash * 33) XOR ucast b) 5381 (u64_image key)"

section \<open>Invariant and abstraction\<close>

text \<open>
  A table is used with one kind of key and one strategy of duplicating keys: \<open>kind\<close> is the part of
  the flags that says so. Keys that are numbers are not duplicated as strings.
\<close>

definition kind_mask :: u32 where "kind_mask = ieutFLAG_NUMERIC_KEY OR ieutFLAG_DUPLICATE_KEY_STRING"

lemmas ieutFLAG_defs = ieutFLAG_DUPLICATE_KEY_STRING_def ieutFLAG_DUPLICATE_VALUE_def ieutFLAG_DUPLICATE_RESIZE_def
  ieutFLAG_REPLACE_EXISTING_def ieutFLAG_NUMERIC_KEY_def kind_mask_def

definition key_fits :: "u32 \<Rightarrow> ieutKey \<Rightarrow> bool" where
  "key_fits kind key \<longleftrightarrow> (case key of NumericKey _ \<Rightarrow> kind AND ieutFLAG_NUMERIC_KEY \<noteq> 0 \<and> kind AND ieutFLAG_DUPLICATE_KEY_STRING = 0
     | StringKey _ \<Rightarrow> kind AND ieutFLAG_NUMERIC_KEY = 0)"

definition he_id :: "'v ieutHashEntry_t \<Rightarrow> u32 \<times> ieutKey" where
  "he_id e = (he_keyHash e, he_key e)"

definition entry_ok :: "u32 \<Rightarrow> 'v ieutHashEntry_t \<Rightarrow> bool" where
  "entry_ok kind e \<longleftrightarrow> key_fits kind (he_key e) \<and> he_flags e AND kind_mask = kind \<and>
     he_flags e AND ieutFLAG_DUPLICATE_RESIZE = 0"

definition ht_bucket :: "u32 \<Rightarrow> u32 \<times> ieutKey \<Rightarrow> nat" where
  "ht_bucket capacity k = unat (fst k mod capacity)"

definition chain_ok :: "u32 \<Rightarrow> 'v ieutHashChain_t \<Rightarrow> bool" where
  "chain_ok kind c \<longleftrightarrow> \<not> hc_dangling c \<and> sorted (map he_keyHash (hc_entries c)) \<and>
     list_all (entry_ok kind) (hc_entries c) \<and> length (hc_entries c) \<le> unat (hc_size c)"

definition ht_lists :: "'v ieutHashTable_t \<Rightarrow> 'v ieutHashEntry_t list list" where
  "ht_lists t = map hc_entries (ht_chains t)"

definition ht_inv :: "u32 \<Rightarrow> 'v ieutHashTable_t \<Rightarrow> bool" where
  "ht_inv kind t \<longleftrightarrow> ht_capacity t \<noteq> 0 \<and> length (ht_chains t) = unat (ht_capacity t) \<and>
     list_all (chain_ok kind) (ht_chains t) \<and> bt_ok he_id (ht_bucket (ht_capacity t)) (ht_lists t) \<and>
     ht_totalCount t = of_nat (length (concat (ht_lists t)))"

definition ht_abs :: "'v ieutHashTable_t \<Rightarrow> u32 \<times> ieutKey \<rightharpoonup> 'v option" where
  "ht_abs t = bt_abs he_id he_value (ht_lists t)"

definition ht_room :: "'v ieutHashTable_t \<Rightarrow> bool" where
  "ht_room t \<longleftrightarrow> length (concat (ht_lists t)) < 2 ^ 31"

section \<open>The scan of a chain\<close>

lemma key_eq_Some:
  "key_fits kind k1 \<Longrightarrow> key_fits kind k2 \<Longrightarrow> fl AND ieutFLAG_NUMERIC_KEY = kind AND ieutFLAG_NUMERIC_KEY \<Longrightarrow>
    ieut_key_eq fl k1 k2 = Some (k1 = k2)"
  by (auto simp: key_fits_def ieut_key_eq_def split: ieutKey.splits)

lemma ieut_scan_spec:
  assumes "sorted (map he_keyHash es)" and "\<forall>e \<in> set es. key_fits kind (he_key e)" and "key_fits kind key"
    and "\<forall>e \<in> set es. fl e AND ieutFLAG_NUMERIC_KEY = kind AND ieutFLAG_NUMERIC_KEY"
  shows "\<exists>b i. ieut_scan fl key h es = Some (b, i) \<and> i \<le> length es \<and>
    (if b then i < length es \<and> he_id (es ! i) = (h, key)
     else (h, key) \<notin> he_id ` set es \<and> (\<forall>e \<in> set (take i es). he_keyHash e \<le> h) \<and>
          (\<forall>e \<in> set (drop i es). h \<le> he_keyHash e))"
  using assms
proof (induction es)
  case (Cons e es)
  then obtain b i where IH: "ieut_scan fl key h es = Some (b, i)" "i \<le> length es"
      "if b then i < length es \<and> he_id (es ! i) = (h, key)
       else (h, key) \<notin> he_id ` set es \<and> (\<forall>e \<in> set (take i es). he_keyHash e \<le> h) \<and>
          (\<forall>e \<in> set (drop i es). h \<le> he_keyHash e)" by auto
  have eq: "ieut_key_eq (fl e) (he_key e) key = Some (he_key e = key)"
    using Cons.prems by (intro key_eq_Some [of kind]) auto
  consider "he_keyHash e = h" "he_key e = key" | "he_keyHash e \<le> h" "he_id e \<noteq> (h, key)" | "h < he_keyHash e"
    by (metis he_id_def linorder_not_less prod.inject)
  then show ?case
  proof cases
    case 1
    then have "ieut_scan fl key h (e # es) = Some (True, 0)" using eq by simp
    then show ?thesis using 1 by (intro exI [of _ True] exI [of _ 0]) (simp add: he_id_def)
  next
    case 2
    then have "ieut_scan fl key h (e # es) = Some (b, Suc i)" using IH(1) eq by (auto simp: he_id_def)
    then show ?thesis using IH(2,3) 2 by (intro exI [of _ b] exI [of _ "Suc i"]) auto
  next
    case 3
    then have "(h, key) \<notin> he_id ` set (e # es)" using Cons.prems(1) by (auto simp: he_id_def)
    then show ?thesis using 3 Cons.prems(1) by (intro exI [of _ False] exI [of _ 0]) auto
  qed
next
  case Nil
  show ?case by (intro exI [of _ False] exI [of _ 0]) simp
qed

text \<open>What the flags of a table's kind fix.\<close>

lemma kind_bits:
  assumes "fl AND kind_mask = kind"
  shows kind_numeric: "fl AND ieutFLAG_NUMERIC_KEY = kind AND ieutFLAG_NUMERIC_KEY"
    and kind_dup: "fl AND ieutFLAG_DUPLICATE_KEY_STRING = kind AND ieutFLAG_DUPLICATE_KEY_STRING"
  unfolding assms [symmetric] by (simp_all add: ieutFLAG_defs and.assoc)

section \<open>Changing one chain\<close>

lemma ht_invD:
  assumes "ht_inv kind t"
  shows "ht_capacity t \<noteq> 0" and "length (ht_chains t) = unat (ht_capacity t)"
    and "list_all (chain_ok kind) (ht_chains t)" and "bt_ok he_id (ht_bucket (ht_capacity t)) (ht_lists t)"
    and "ht_totalCount t = of_nat (length (concat (ht_lists t)))"
  using assms by (simp_all add: ht_inv_def)

lemma ht_index:
  assumes "ht_inv kind t"
  shows "ht_bucket (ht_capacity t) k < length (ht_chains t)" 
    and "ht_lists t ! ht_bucket (ht_capacity t) k = hc_entries (ht_chains t ! ht_bucket (ht_capacity t) k)"
    and "chain_ok kind (ht_chains t ! ht_bucket (ht_capacity t) k)"
proof -
  show *: "ht_bucket (ht_capacity t) k < length (ht_chains t)"
    using ht_invD(1,2) [OF assms] by (simp add: ht_bucket_def unat_mod_distrib unat_gt_0)
  then show "ht_lists t ! ht_bucket (ht_capacity t) k = hc_entries (ht_chains t ! ht_bucket (ht_capacity t) k)"
    by (simp add: ht_lists_def)
  show "chain_ok kind (ht_chains t ! ht_bucket (ht_capacity t) k)"
    using ht_invD(3) [OF assms] * by (simp add: list_all_length)
qed

lemma ht_abs_bucket:
  assumes "ht_inv kind t"
  shows "ht_abs t k = bt_chain he_id he_value (hc_entries (ht_chains t ! ht_bucket (ht_capacity t) k)) k"
  using bt_lookup [OF ht_invD(4) [OF assms], of k he_value] ht_index [OF assms, of k]
  by (simp add: ht_abs_def ht_lists_def)

lemma ht_bucket_entries:
  assumes "ht_inv kind t"
  shows "distinct (map he_id (hc_entries (ht_chains t ! ht_bucket (ht_capacity t) k)))"
    and "\<forall>e \<in> set (hc_entries (ht_chains t ! ht_bucket (ht_capacity t) k)).
      ht_bucket (ht_capacity t) (he_id e) = ht_bucket (ht_capacity t) k"
  using ht_invD(4) [OF assms] ht_index [OF assms, of k] by (simp_all add: bt_ok_def ht_lists_def)

lemma ht_update:
  assumes inv: "ht_inv kind t" and i: "i < length (ht_chains t)" and c: "chain_ok kind c"
    and dist: "distinct (map he_id (hc_entries c))"
    and bucket: "\<forall>e \<in> set (hc_entries c). ht_bucket (ht_capacity t) (he_id e) = i"
    and n: "n + of_nat (length (hc_entries (ht_chains t ! i))) = ht_totalCount t + of_nat (length (hc_entries c))"
  shows "ht_inv kind (t\<lparr>ht_chains := (ht_chains t)[i := c], ht_totalCount := n\<rparr>) \<and>
    ht_abs (t\<lparr>ht_chains := (ht_chains t)[i := c], ht_totalCount := n\<rparr>) k =
      (if ht_bucket (ht_capacity t) k = i then bt_chain he_id he_value (hc_entries c) k else ht_abs t k)"
proof -
  let ?t = "t\<lparr>ht_chains := (ht_chains t)[i := c], ht_totalCount := n\<rparr>"
  have lists: "ht_lists (t\<lparr>ht_chains := (ht_chains t)[i := c], ht_totalCount := m\<rparr>) = (ht_lists t)[i := hc_entries c]"
    for m by (simp add: ht_lists_def map_update)
  have i': "i < length (ht_lists t)" "ht_lists t ! i = hc_entries (ht_chains t ! i)"
    using i by (simp_all add: ht_lists_def)
  note inv' = ht_invD [OF inv]
  have "length (concat (ht_lists ?t)) + length (ht_lists t ! i) = length (concat (ht_lists t)) + length (hc_entries c)"
    using length_concat_update [OF i'(1), of "hc_entries c"] unfolding lists by simp
  then have "of_nat (length (concat (ht_lists ?t))) + of_nat (length (ht_lists t ! i))
      = (of_nat (length (concat (ht_lists t))) + of_nat (length (hc_entries c)) :: u64)"
    by (metis of_nat_add)
  then have "n = of_nat (length (concat (ht_lists ?t)))"
    using n inv'(5) i'(2) by (metis add_right_cancel)
  moreover have "list_all (chain_ok kind) ((ht_chains t)[i := c])"
    using inv'(3) c by (auto simp: list_all_iff dest: set_update_subset_insert [THEN subsetD])
  ultimately have "ht_inv kind ?t"
    using inv' bt_ok_update [OF inv'(4) dist bucket] by (simp add: ht_inv_def lists)
  then show ?thesis
    using bt_abs_update [OF inv'(4) i'(1) dist bucket, of he_value k] by (simp add: ht_abs_def lists)
qed

section \<open>The operations on one entry\<close>

lemma ht_scan [consumes 3, case_names found absent]:
  assumes "ht_inv kind t" and "key_fits kind key"
    and "\<forall>e \<in> set (hc_entries (ht_chains t ! ht_bucket (ht_capacity t) (h, key))).
      fl e AND ieutFLAG_NUMERIC_KEY = kind AND ieutFLAG_NUMERIC_KEY"
  obtains (found) i where "ieut_scan fl key h (hc_entries (ht_chains t ! ht_bucket (ht_capacity t) (h, key))) = Some (True, i)"
      "i < length (hc_entries (ht_chains t ! ht_bucket (ht_capacity t) (h, key)))"
      "he_id (hc_entries (ht_chains t ! ht_bucket (ht_capacity t) (h, key)) ! i) = (h, key)"
      "ht_abs t (h, key) = Some (he_value (hc_entries (ht_chains t ! ht_bucket (ht_capacity t) (h, key)) ! i))"
  | (absent) i where "ieut_scan fl key h (hc_entries (ht_chains t ! ht_bucket (ht_capacity t) (h, key))) = Some (False, i)"
      "(h, key) \<notin> he_id ` set (hc_entries (ht_chains t ! ht_bucket (ht_capacity t) (h, key)))"
      "\<forall>e \<in> set (take i (hc_entries (ht_chains t ! ht_bucket (ht_capacity t) (h, key)))). he_keyHash e \<le> h"
      "\<forall>e \<in> set (drop i (hc_entries (ht_chains t ! ht_bucket (ht_capacity t) (h, key)))). h \<le> he_keyHash e"
      "ht_abs t (h, key) = None"
proof -
  define es where "es = hc_entries (ht_chains t ! ht_bucket (ht_capacity t) (h, key))"
  have c: "chain_ok kind (ht_chains t ! ht_bucket (ht_capacity t) (h, key))" by (rule ht_index(3) [OF assms(1)])
  then obtain b i where scan: "ieut_scan fl key h es = Some (b, i)" "i \<le> length es"
      "if b then i < length es \<and> he_id (es ! i) = (h, key)
       else (h, key) \<notin> he_id ` set es \<and> (\<forall>e \<in> set (take i es). he_keyHash e \<le> h) \<and>
          (\<forall>e \<in> set (drop i es). h \<le> he_keyHash e)"
    using ieut_scan_spec [of es kind key fl h] assms(2,3)
    by (fastforce simp: es_def chain_ok_def entry_ok_def list_all_iff)
  have abs: "ht_abs t (h, key) = bt_chain he_id he_value es (h, key)"
    using ht_abs_bucket [OF assms(1)] by (simp add: es_def)
  show thesis
  proof (cases b)
    case True
    have "distinct (map fst (map (\<lambda>e. (he_id e, he_value e)) es))"
      using ht_bucket_entries(1) [OF assms(1), of "(h, key)"] by (simp add: es_def comp_def)
    then have "ht_abs t (h, key) = Some (he_value (es ! i))"
      using True scan(3) unfolding abs bt_chain_def by (auto simp: map_of_eq_Some_iff intro!: image_eqI [of _ _ "es ! i"])
    then show thesis using True scan unfolding es_def by (intro found) auto
  next
    case False
    then have "ht_abs t (h, key) = None" using scan(3) by (simp add: abs bt_chain_None)
    then show thesis using False scan unfolding es_def by (intro absent) auto
  qed
qed

lemma getHashEntry_abs:
  assumes "ht_inv kind t" and "key_fits kind key"
  shows "ieut_getHashEntry t key h = Some (case ht_abs t (h, key) of None \<Rightarrow> (ISMRC_NotFound, None) | Some v \<Rightarrow> (OK, v))"
proof -
  let ?c = "ht_chains t ! ht_bucket (ht_capacity t) (h, key)"
  have c: "chain_ok kind ?c" by (rule ht_index(3) [OF assms(1)])
  then have fl: "\<forall>e \<in> set (hc_entries ?c). he_flags e AND ieutFLAG_NUMERIC_KEY = kind AND ieutFLAG_NUMERIC_KEY"
    by (auto simp: chain_ok_def list_all_iff entry_ok_def dest: kind_numeric)
  have i: "ht_bucket (ht_capacity t) (h, key) = unat (h mod ht_capacity t)" by (simp add: ht_bucket_def)
  show ?thesis
    using assms c ht_index(1) [OF assms(1), of "(h, key)"] ht_invD(1) [OF assms(1)]
    by (cases rule: ht_scan [OF assms fl]) (auto simp: ieut_getHashEntry_def Let_def chain_ok_def simp flip: i)
qed

lemma removeHashEntry_abs:
  assumes "ht_inv kind t" and "key_fits kind key"
  shows "\<exists>t'. ieut_removeHashEntry t key h = Some t' \<and> ht_inv kind t' \<and> ht_capacity t' = ht_capacity t \<and>
    ht_abs t' = (ht_abs t)((h, key) := None)"
proof -
  let ?i = "ht_bucket (ht_capacity t) (h, key)"
  let ?c = "ht_chains t ! ?i"
  have c: "chain_ok kind ?c" by (rule ht_index(3) [OF assms(1)])
  then have fl: "\<forall>e \<in> set (hc_entries ?c). he_flags e AND ieutFLAG_NUMERIC_KEY = kind AND ieutFLAG_NUMERIC_KEY"
    by (auto simp: chain_ok_def list_all_iff entry_ok_def dest: kind_numeric)
  have i: "?i = unat (h mod ht_capacity t)" by (simp add: ht_bucket_def)
  note idx = ht_index(1) [OF assms(1), of "(h, key)"] and cap = ht_invD(1) [OF assms(1)]
  show ?thesis
    using assms fl
  proof (cases rule: ht_scan)
    case (found j)
    let ?es = "hc_entries ?c"
    let ?c' = "?c\<lparr>hc_entries := take j ?es @ drop (Suc j) ?es\<rparr>"
    let ?n = "ht_totalCount t - 1"
    have ids: "map he_id (take j ?es @ drop (Suc j) ?es) = take j (map he_id ?es) @ drop (Suc j) (map he_id ?es)"
      by (simp add: take_map drop_map)
    have chain: "chain_ok kind ?c'"
      using c sorted_remove_at [of "map he_keyHash ?es" j] set_remove_at [of _ j ?es]
      by (auto simp: chain_ok_def list_all_iff take_map drop_map)
    have bucket: "\<forall>e \<in> set (hc_entries ?c'). ht_bucket (ht_capacity t) (he_id e) = ?i"
      using ht_bucket_entries(2) [OF assms(1), of "(h, key)"] set_remove_at [of _ j ?es] by auto
    have dist: "distinct (map he_id (hc_entries ?c'))"
      using distinct_remove_at [OF ht_bucket_entries(1) [OF assms(1), of "(h, key)"], of j] ids by simp
    have n: "?n + of_nat (length (hc_entries ?c)) = ht_totalCount t + of_nat (length (hc_entries ?c'))"
    proof -
      have "length ?es = Suc (length (hc_entries ?c'))" using found(2) by simp
      then show ?thesis by (simp only: of_nat_Suc) simp
    qed
    note upd = ht_update [OF assms(1) idx chain dist bucket n]
    have "bt_chain he_id he_value (hc_entries ?c') = (bt_chain he_id he_value ?es)((h, key) := None)"
      using map_of_remove_at [of j "map (\<lambda>e. (he_id e, he_value e)) ?es" "(h, key)"] found(2,3)
        ht_bucket_entries(1) [OF assms(1), of "(h, key)"]
      by (simp add: bt_chain_def take_map drop_map comp_def)
    then have "ht_abs (t\<lparr>ht_chains := (ht_chains t)[?i := ?c'], ht_totalCount := ?n\<rparr>) = (ht_abs t)((h, key) := None)"
      using upd ht_abs_bucket [OF assms(1)] by (auto simp: fun_eq_iff)
    moreover have "ieut_removeHashEntry t key h = Some (t\<lparr>ht_chains := (ht_chains t)[?i := ?c'], ht_totalCount := ?n\<rparr>)"
      using found(1) c idx cap by (simp add: ieut_removeHashEntry_def chain_ok_def Let_def flip: i)
    ultimately show ?thesis using upd by auto
  next
    case (absent j)
    then have "(ht_abs t)((h, key) := None) = ht_abs t" by auto
    moreover have "ieut_removeHashEntry t key h = Some t"
      using absent(1) c idx cap by (simp add: ieut_removeHashEntry_def chain_ok_def Let_def flip: i)
    ultimately show ?thesis using assms(1) by auto
  qed
qed

text \<open>The chain with its array enlarged when it is full: the next entry fits.\<close>

lemma grow_chain_simps [simp]: "hc_entries (ieut_grow_chain c) = hc_entries c" "hc_dangling (ieut_grow_chain c) = hc_dangling c"
  by (simp_all add: ieut_grow_chain_def)

lemma grow_chain_size:
  assumes "length (hc_entries c) \<le> unat (hc_size c)" and "length (hc_entries c) < 2 ^ 31"
  shows "length (hc_entries c) < unat (hc_size (ieut_grow_chain c))"
proof (cases "of_nat (length (hc_entries c)) = hc_size c")
  case True
  moreover have "unat (of_nat (length (hc_entries c)) :: u32) = length (hc_entries c)"
    using assms(2) by (simp add: unat_of_nat)
  ultimately have "unat (hc_size c) = length (hc_entries c)" by simp
  then show ?thesis using True assms(2) by (auto simp: ieut_grow_chain_def unat_word_ariths unat_eq_0)
next
  case False
  then have "length (hc_entries c) \<noteq> unat (hc_size c)" by auto
  then show ?thesis using False assms(1) by (simp add: ieut_grow_chain_def)
qed

lemma ht_insert:
  assumes inv: "ht_inv kind t" and e: "entry_ok kind e" and room: "ht_room t"
    and c: "c = ht_chains t ! i" and i: "i = ht_bucket (ht_capacity t) (he_id e)"
    and new: "he_id e \<notin> he_id ` set (hc_entries c)"
    and le: "\<forall>x \<in> set (take j (hc_entries c)). he_keyHash x \<le> he_keyHash e"
    and ge: "\<forall>x \<in> set (drop j (hc_entries c)). he_keyHash e \<le> he_keyHash x"
  defines "t' \<equiv> t\<lparr>ht_chains := (ht_chains t)[i := (ieut_grow_chain c)\<lparr>hc_entries :=
      take j (hc_entries c) @ e # drop j (hc_entries c)\<rparr>], ht_totalCount := ht_totalCount t + 1\<rparr>"
  shows "ht_inv kind t'" and "ht_abs t' = (ht_abs t)(he_id e \<mapsto> he_value e)"
proof -
  let ?es = "take j (hc_entries c) @ e # drop j (hc_entries c)"
  let ?c = "(ieut_grow_chain c)\<lparr>hc_entries := ?es\<rparr>"
  have ok: "chain_ok kind c" and idx: "i < length (ht_chains t)"
    using ht_index(1,3) [OF inv, of "he_id e"] by (simp_all add: c i)
  have "length (hc_entries c) \<le> length (concat (ht_lists t))"
    using nth_length_le_concat [of i "ht_lists t"] idx by (simp add: ht_lists_def c)
  then have "length (hc_entries c) < unat (hc_size (ieut_grow_chain c))"
    using room ok by (intro grow_chain_size) (auto simp: ht_room_def chain_ok_def)
  then have chain: "chain_ok kind ?c"
    using ok e le ge sorted_insert_at [of "map he_keyHash (hc_entries c)" j "he_keyHash e"]
    by (auto simp: chain_ok_def list_all_iff take_map drop_map dest: in_set_takeD in_set_dropD)
  have dist: "distinct (map he_id (hc_entries ?c))"
    using distinct_insert_at [of "he_id e" "map he_id (hc_entries c)" j] new ht_bucket_entries(1) [OF inv, of "he_id e"]
    by (simp add: take_map drop_map c i)
  have bucket: "\<forall>x \<in> set (hc_entries ?c). ht_bucket (ht_capacity t) (he_id x) = i"
    using ht_bucket_entries(2) [OF inv, of "he_id e"] by (auto simp: c i dest: in_set_takeD in_set_dropD)
  have "length (hc_entries ?c) = Suc (length (hc_entries c))" by simp
  then have n: "ht_totalCount t + 1 + of_nat (length (hc_entries (ht_chains t ! i))) = ht_totalCount t + of_nat (length (hc_entries ?c))"
    by (simp only: of_nat_Suc c) simp
  note upd = ht_update [OF inv idx chain dist bucket n]
  show "ht_inv kind t'" using upd by (simp add: t'_def)
  have "bt_chain he_id he_value ?es = (bt_chain he_id he_value (hc_entries c))(he_id e \<mapsto> he_value e)"
    using map_of_insert_at [of "he_id e" "map (\<lambda>x. (he_id x, he_value x)) (hc_entries c)" j "he_value e"] new
    by (simp add: bt_chain_def take_map drop_map image_image)
  then have "ht_abs t' k = ((ht_abs t)(he_id e \<mapsto> he_value e)) k" for k
    using upd [of k] ht_abs_bucket [OF inv, of k] i by (cases "ht_bucket (ht_capacity t) k = i") (auto simp: t'_def c)
  then show "ht_abs t' = (ht_abs t)(he_id e \<mapsto> he_value e)" by (rule ext)
qed

lemma ht_replace:
  assumes inv: "ht_inv kind t" and e: "entry_ok kind e"
    and c: "c = ht_chains t ! i" and i: "i = ht_bucket (ht_capacity t) (he_id e)"
    and j: "j < length (hc_entries c)" "he_id (hc_entries c ! j) = he_id e"
    and sz: "length (hc_entries c) \<le> unat sz"
  defines "t' \<equiv> t\<lparr>ht_chains := (ht_chains t)[i := c\<lparr>hc_size := sz, hc_entries := (hc_entries c)[j := e]\<rparr>]\<rparr>"
  shows "ht_inv kind t'" and "ht_abs t' = (ht_abs t)(he_id e \<mapsto> he_value e)"
proof -
  let ?es = "(hc_entries c)[j := e]"
  let ?c = "c\<lparr>hc_size := sz, hc_entries := ?es\<rparr>"
  have ok: "chain_ok kind c" and idx: "i < length (ht_chains t)"
    using ht_index(1,3) [OF inv, of "he_id e"] by (simp_all add: c i)
  have ids: "map he_id ?es = map he_id (hc_entries c)" and hashes: "map he_keyHash ?es = map he_keyHash (hc_entries c)"
    using j by (auto simp: map_update he_id_def list_update_same_conv)
  have chain: "chain_ok kind ?c"
    using ok e sz hashes by (auto simp: chain_ok_def list_all_iff dest: set_update_subset_insert [THEN subsetD])
  have dist: "distinct (map he_id (hc_entries ?c))"
    using ht_bucket_entries(1) [OF inv, of "he_id e"] ids by (simp add: c i)
  have bucket: "\<forall>x \<in> set (hc_entries ?c). ht_bucket (ht_capacity t) (he_id x) = i"
    using ht_bucket_entries(2) [OF inv, of "he_id e"] by (auto simp: c i dest: set_update_subset_insert [THEN subsetD])
  have n: "ht_totalCount t + of_nat (length (hc_entries (ht_chains t ! i))) = ht_totalCount t + of_nat (length (hc_entries ?c))"
    by (simp add: c)
  note upd = ht_update [OF inv idx chain dist bucket n]
  show "ht_inv kind t'" using upd by (simp add: t'_def)
  have "bt_chain he_id he_value ?es = (bt_chain he_id he_value (hc_entries c))(he_id e \<mapsto> he_value e)"
    using map_of_update_at [of j "map (\<lambda>x. (he_id x, he_value x)) (hc_entries c)" "he_id e" "he_value e"] j
      ht_bucket_entries(1) [OF inv, of "he_id e"]
    by (simp add: bt_chain_def map_update comp_def c i)
  then have "ht_abs t' k = ((ht_abs t)(he_id e \<mapsto> he_value e)) k" for k
    using upd [of k] ht_abs_bucket [OF inv, of k] i by (cases "ht_bucket (ht_capacity t) k = i") (auto simp: t'_def c)
  then show "ht_abs t' = (ht_abs t)(he_id e \<mapsto> he_value e)" by (rule ext)
qed


text \<open>
  Insertion: on success the key has the value, otherwise nothing changes; it fails only for a key
  that is there and may not be replaced, or when an allocation fails.
\<close>

lemma flags_resize:
  "(fl OR ieutFLAG_DUPLICATE_RESIZE) AND NOT ieutFLAG_DUPLICATE_RESIZE = fl AND NOT ieutFLAG_DUPLICATE_RESIZE"
  "(fl AND NOT ieutFLAG_DUPLICATE_RESIZE) AND kind_mask = fl AND kind_mask"
  "(fl OR ieutFLAG_DUPLICATE_RESIZE) AND kind_mask = fl AND kind_mask"
  "(fl AND NOT ieutFLAG_DUPLICATE_RESIZE) AND ieutFLAG_DUPLICATE_RESIZE = 0"
  by (simp_all add: ieutFLAG_defs and.assoc bit.conj_disj_distrib2)

lemma dup_flag: "fl AND (ieutFLAG_DUPLICATE_RESIZE OR ieutFLAG_DUPLICATE_KEY_STRING) = ieutFLAG_DUPLICATE_KEY_STRING \<Longrightarrow>
    fl AND ieutFLAG_DUPLICATE_KEY_STRING \<noteq> 0"
proof
  assume "fl AND (ieutFLAG_DUPLICATE_RESIZE OR ieutFLAG_DUPLICATE_KEY_STRING) = ieutFLAG_DUPLICATE_KEY_STRING"
  then have "(fl AND (ieutFLAG_DUPLICATE_RESIZE OR ieutFLAG_DUPLICATE_KEY_STRING)) AND ieutFLAG_DUPLICATE_KEY_STRING = ieutFLAG_DUPLICATE_KEY_STRING" by simp
  then have "fl AND ieutFLAG_DUPLICATE_KEY_STRING = ieutFLAG_DUPLICATE_KEY_STRING" by (simp add: and.assoc ieutFLAG_defs)
  moreover assume "fl AND ieutFLAG_DUPLICATE_KEY_STRING = 0"
  ultimately show False by (simp add: ieutFLAG_defs)
qed

lemma ht_grow:
  assumes inv: "ht_inv kind t" and room: "ht_room t" and i: "i < length (ht_chains t)"
  shows "ht_inv kind (t\<lparr>ht_chains := (ht_chains t)[i := ieut_grow_chain (ht_chains t ! i)]\<rparr>)"
    and "ht_abs (t\<lparr>ht_chains := (ht_chains t)[i := ieut_grow_chain (ht_chains t ! i)]\<rparr>) = ht_abs t"
    and "length (hc_entries (ht_chains t ! i)) < unat (hc_size (ieut_grow_chain (ht_chains t ! i)))"
proof -
  let ?c = "ht_chains t ! i"
  have ok: "chain_ok kind ?c" using ht_invD(3) [OF inv] i by (simp add: list_all_length)
  have "length (hc_entries ?c) \<le> length (concat (ht_lists t))"
    using nth_length_le_concat [of i "ht_lists t"] i by (simp add: ht_lists_def)
  then show fits: "length (hc_entries ?c) < unat (hc_size (ieut_grow_chain ?c))"
    using room ok by (intro grow_chain_size) (auto simp: ht_room_def chain_ok_def)
  have lists: "ht_lists (t\<lparr>ht_chains := (ht_chains t)[i := ieut_grow_chain ?c]\<rparr>) = ht_lists t"
    using i by (auto simp: ht_lists_def map_update list_update_same_conv)
  have "list_all (chain_ok kind) ((ht_chains t)[i := ieut_grow_chain ?c])"
    using ht_invD(3) [OF inv] ok fits
    by (auto simp: list_all_iff chain_ok_def dest!: set_update_subset_insert [THEN subsetD])
  then show "ht_inv kind (t\<lparr>ht_chains := (ht_chains t)[i := ieut_grow_chain ?c]\<rparr>)"
    using ht_invD [OF inv] by (simp add: ht_inv_def lists)
  show "ht_abs (t\<lparr>ht_chains := (ht_chains t)[i := ieut_grow_chain ?c]\<rparr>) = ht_abs t"
    by (simp add: ht_abs_def lists)
qed

lemma put_in_chain_abs:
  assumes inv: "ht_inv kind t" and fits: "key_fits kind key" and kind: "flags AND kind_mask = kind" and room: "ht_room t"
    and rs: "flags AND ieutFLAG_DUPLICATE_RESIZE = 0 \<or> ht_abs t (h, key) = None"
    and i: "i = ht_bucket (ht_capacity t) (h, key)"
  shows "\<exists>rc t'. ieut_put_in_chain ko t i (ieut_grow_chain (ht_chains t ! i)) flags key h v = Some (rc, t') \<and>
    ht_inv kind t' \<and> ht_capacity t' = ht_capacity t \<and>
    (if rc = OK then ht_abs t' = (ht_abs t)((h, key) \<mapsto> v) \<and> (ht_abs t (h, key) = None \<or> flags AND ieutFLAG_REPLACE_EXISTING \<noteq> 0)
     else ht_abs t' = ht_abs t \<and>
       (rc = ISMRC_ExistingKey \<and> ht_abs t (h, key) \<noteq> None \<and> flags AND ieutFLAG_REPLACE_EXISTING = 0 \<or>
        rc = ISMRC_AllocateError \<and> \<not> ko))"
proof -
  let ?c = "ht_chains t ! i"
  let ?e = "\<lparr>he_key = key, he_value = v, he_keyHash = h, he_flags = flags AND NOT ieutFLAG_DUPLICATE_RESIZE\<rparr>"
  have e: "entry_ok kind ?e" "he_id ?e = (h, key)" using fits kind by (simp_all add: entry_ok_def flags_resize he_id_def)
  have idx: "i < length (ht_chains t)" using ht_index(1) [OF inv] i by simp
  note grow = ht_grow [OF inv room idx]
  have fl: "\<forall>e \<in> set (hc_entries (ht_chains t ! ht_bucket (ht_capacity t) (h, key))).
      flags AND ieutFLAG_NUMERIC_KEY = kind AND ieutFLAG_NUMERIC_KEY" using kind_numeric [OF kind] by simp
  show ?thesis
    using inv fits fl
  proof (cases rule: ht_scan)
    case (found j)
    have "he_flags (hc_entries ?c ! j) AND kind_mask = kind"
      using ht_index(3) [OF inv, of "(h, key)"] found(2) i by (simp add: chain_ok_def list_all_length entry_ok_def)
    then have dup: "flags AND ieutFLAG_DUPLICATE_KEY_STRING = he_flags (hc_entries ?c ! j) AND ieutFLAG_DUPLICATE_KEY_STRING"
      using kind kind_dup by metis
    have upd: "(hc_entries ?c ! j)\<lparr>he_key := key, he_value := v, he_flags := fl\<rparr>
        = \<lparr>he_key = key, he_value = v, he_keyHash = h, he_flags = fl\<rparr>" for fl
      using found(3) i by (cases "hc_entries ?c ! j") (simp add: he_id_def)
    have key: "he_key (hc_entries ?c ! j) = key" using found(3) i by (simp add: he_id_def)
    have c': "(ieut_grow_chain ?c)\<lparr>hc_entries := es\<rparr> = ?c\<lparr>hc_size := hc_size (ieut_grow_chain ?c), hc_entries := es\<rparr>" for es
      by (simp add: ieut_grow_chain_def)
    note rep = ht_replace [OF inv e(1) refl, of i j "hc_size (ieut_grow_chain ?c)"]
    show ?thesis
    proof (cases "flags AND ieutFLAG_REPLACE_EXISTING = 0")
      case True
      then show ?thesis using grow found i by (simp add: ieut_put_in_chain_def Let_def rc_defs)
    next
      case False
      then have "ieut_put_in_chain ko t i (ieut_grow_chain ?c) flags key h v = Some (OK, t\<lparr>ht_chains := (ht_chains t)[i :=
          ?c\<lparr>hc_size := hc_size (ieut_grow_chain ?c), hc_entries := (hc_entries ?c)[j := ?e]\<rparr>]\<rparr>)"
        using found(1,4) [folded i] rs found(4) dup
        by (simp add: ieut_put_in_chain_def Let_def c' key upd del: ieutHashEntry_t.update_convs)
      moreover have "length (hc_entries ?c) \<le> unat (hc_size (ieut_grow_chain ?c))" using grow(3) by simp
      ultimately show ?thesis using rep found(2,3) [folded i] i e(2) False by (simp add: rc_defs)
    qed
  next
    case (absent j)
    have "\<not> (flags AND (ieutFLAG_DUPLICATE_RESIZE OR ieutFLAG_DUPLICATE_KEY_STRING) = ieutFLAG_DUPLICATE_KEY_STRING \<and>
        (case key of NumericKey _ \<Rightarrow> True | StringKey _ \<Rightarrow> False))"
      using fits kind_dup [OF kind] dup_flag [of flags] by (auto simp: key_fits_def split: ieutKey.splits)
    then show ?thesis using absent grow i e ht_insert [OF inv e(1) room refl, of i j]
      by (simp add: ieut_put_in_chain_def Let_def rc_defs)
  qed
qed

lemma putHashEntry_abs:
  assumes inv: "ht_inv kind t" and fits: "key_fits kind key" and kind: "flags AND kind_mask = kind" and room: "ht_room t"
    and rs: "flags AND ieutFLAG_DUPLICATE_RESIZE = 0 \<or> ht_abs t (h, key) = None"
  shows "\<exists>rc t'. ieut_putHashEntry vo ro ko t flags key h v = Some (rc, t') \<and>
    ht_inv kind t' \<and> ht_capacity t' = ht_capacity t \<and>
    (if rc = OK then ht_abs t' = (ht_abs t)((h, key) \<mapsto> v) \<and> (ht_abs t (h, key) = None \<or> flags AND ieutFLAG_REPLACE_EXISTING \<noteq> 0)
     else ht_abs t' = ht_abs t \<and>
       (rc = ISMRC_ExistingKey \<and> ht_abs t (h, key) \<noteq> None \<and> flags AND ieutFLAG_REPLACE_EXISTING = 0 \<or>
        rc = ISMRC_AllocateError \<and> \<not> (vo \<and> ro \<and> ko)))"
proof -
  let ?i = "ht_bucket (ht_capacity t) (h, key)"
  have i: "?i = unat (h mod ht_capacity t)" by (simp add: ht_bucket_def)
  have "\<not> hc_dangling (ht_chains t ! ?i)" using ht_index(3) [OF inv, of "(h, key)"] by (simp add: chain_ok_def)
  then have put: "ieut_putHashEntry vo ro ko t flags key h v =
      (if v \<noteq> None \<and> flags AND (ieutFLAG_DUPLICATE_RESIZE OR ieutFLAG_DUPLICATE_VALUE) = ieutFLAG_DUPLICATE_VALUE \<and> \<not> vo \<or>
          of_nat (length (hc_entries (ht_chains t ! ?i))) = hc_size (ht_chains t ! ?i) \<and> \<not> ro
       then Some (ISMRC_AllocateError, t)
       else ieut_put_in_chain ko t ?i (ieut_grow_chain (ht_chains t ! ?i)) flags key h v)"
    using ht_index(1) [OF inv, of "(h, key)"] ht_invD(1) [OF inv]
    by (auto simp: ieut_putHashEntry_def Let_def simp flip: i)
  show ?thesis
  proof (cases "v \<noteq> None \<and> flags AND (ieutFLAG_DUPLICATE_RESIZE OR ieutFLAG_DUPLICATE_VALUE) = ieutFLAG_DUPLICATE_VALUE \<and> \<not> vo \<or>
          of_nat (length (hc_entries (ht_chains t ! ?i))) = hc_size (ht_chains t ! ?i) \<and> \<not> ro")
    case True
    then show ?thesis using inv unfolding put by (auto simp: rc_defs)
  next
    case False
    then have "ieut_putHashEntry vo ro ko t flags key h v
        = ieut_put_in_chain ko t ?i (ieut_grow_chain (ht_chains t ! ?i)) flags key h v" unfolding put by (rule if_not_P)
    then show ?thesis using put_in_chain_abs [OF assms refl, of ko v] by (auto split: if_splits)
  qed
qed

lemma ht_count: "ht_inv kind t \<Longrightarrow> length (concat (ht_lists t)) = card (dom (ht_abs t))"
  unfolding ht_abs_def by (metis bt_count ht_invD(4))

lemma ht_finite: "finite (dom (ht_abs t))"
  by (simp add: ht_abs_def bt_abs_def bt_chain_def finite_dom_map_of)

section \<open>Creating, clearing and purging\<close>

lemma create_inv:
  assumes "capacity \<noteq> 0"
  shows "ht_inv kind \<lparr>ht_totalCount = 0, ht_chains = replicate (unat capacity) empty_chain, ht_capacity = capacity\<rparr>"
    and "ht_abs \<lparr>ht_totalCount = 0, ht_chains = replicate (unat capacity) empty_chain, ht_capacity = c\<rparr> = Map.empty"
  using assms by (simp_all add: ht_lists_def ht_inv_def ht_abs_def bt_abs_def bt_chain_def bt_ok_def list_all_iff
      chain_ok_def empty_chain_def concat_replicate_trivial)

lemma clear_abs:
  assumes "ht_inv kind t"
  shows "\<exists>t'. ieut_clearHashTable t = Some t' \<and> ht_inv kind t' \<and> ht_abs t' = Map.empty \<and> ht_capacity t' = ht_capacity t"
proof -
  let ?t = "t\<lparr>ht_chains := map (\<lambda>chain. chain\<lparr>hc_entries := [], hc_size := 0\<rparr>) (ht_chains t), ht_totalCount := 0\<rparr>"
  have "ieut_clearHashTable t = Some ?t"
    using ht_invD(3) [OF assms] by (auto simp: ieut_clearHashTable_def list_ex_iff list_all_iff chain_ok_def)
  moreover have lists: "ht_lists ?t = replicate (length (ht_chains t)) []"
    by (simp add: ht_lists_def map_replicate_const comp_def)
  moreover have "ht_inv kind ?t"
    using ht_invD [OF assms] lists by (simp add: ht_inv_def list_all_iff chain_ok_def bt_ok_def concat_replicate_trivial)
  ultimately show ?thesis by (simp add: ht_abs_def bt_abs_def bt_chain_def concat_replicate_trivial)
qed

text \<open>Entries whose value is NULL are dropped, all others keep their places.\<close>

lemma drop_empty_filter:
  "ieut_drop_empty es n = (filter (\<lambda>e. he_value e \<noteq> None) es, n - of_nat (length (filter (\<lambda>e. he_value e = None) es)))"
  by (induction es arbitrary: n) (auto simp: algebra_simps)

lemma removeEmpty_chains_filter:
  assumes "list_all (\<lambda>c. \<not> hc_dangling c) cs"
  shows "\<exists>cs'. ieut_removeEmpty_chains cs n = Some (cs', n - of_nat (length (filter (\<lambda>e. he_value e = None) (concat (map hc_entries cs))))) \<and>
    map hc_entries cs' = map (filter (\<lambda>e. he_value e \<noteq> None) \<circ> hc_entries) cs \<and>
    (\<forall>kind. list_all (chain_ok kind) cs \<longrightarrow> list_all (chain_ok kind) cs')"
  using assms
proof (induction cs arbitrary: n)
  case (Cons c cs)
  let ?es = "filter (\<lambda>e. he_value e \<noteq> None) (hc_entries c)"
  let ?c = "if hc_entries c = [] then c else if ?es = [] then c\<lparr>hc_entries := [], hc_size := 0\<rparr> else c\<lparr>hc_entries := ?es\<rparr>"
  have c: "chain_ok kind ?c" if "chain_ok kind c" for kind
    using that by (auto simp: chain_ok_def list_all_iff sorted_filter intro: order_trans [OF length_filter_le])
  let ?n = "n - of_nat (length (filter (\<lambda>e. he_value e = None) (hc_entries c)))"
  obtain cs' where cs': "ieut_removeEmpty_chains cs ?n = Some (cs', ?n -
        of_nat (length (filter (\<lambda>e. he_value e = None) (concat (map hc_entries cs)))))"
      "map hc_entries cs' = map (filter (\<lambda>e. he_value e \<noteq> None) \<circ> hc_entries) cs"
      "\<forall>kind. list_all (chain_ok kind) cs \<longrightarrow> list_all (chain_ok kind) cs'"
    using Cons.IH [of ?n] Cons.prems by auto
  have "ieut_removeEmpty_chains (c # cs) n = Some (?c # cs', n -
      of_nat (length (filter (\<lambda>e. he_value e = None) (concat (map hc_entries (c # cs))))))"
    using Cons.prems cs'(1) by (cases "hc_entries c = []") (simp_all add: drop_empty_filter algebra_simps)
  moreover have "hc_entries ?c = ?es" by simp
  ultimately show ?case using cs'(2,3) c by (intro exI [of _ "?c # cs'"]) simp
qed simp

lemma length_filter_compl: "length (filter P xs) + length (filter (\<lambda>x. \<not> P x) xs) = length xs"
  by (induction xs) auto

lemma removeEmpty_abs:
  assumes "ht_inv kind t"
  shows "\<exists>t'. ieut_removeEmptyHashEntries t = Some t' \<and> ht_inv kind t' \<and> ht_capacity t' = ht_capacity t \<and>
    ht_abs t' = (\<lambda>k. case ht_abs t k of Some (Some v) \<Rightarrow> Some (Some v) | _ \<Rightarrow> None)"
proof -
  let ?P = "\<lambda>e. he_value e \<noteq> None"
  note inv = ht_invD [OF assms]
  have "list_all (\<lambda>c. \<not> hc_dangling c) (ht_chains t)" using inv(3) by (auto simp: list_all_iff chain_ok_def)
  from removeEmpty_chains_filter [OF this, of "ht_totalCount t"] obtain cs where
    cs: "ieut_removeEmpty_chains (ht_chains t) (ht_totalCount t)
        = Some (cs, ht_totalCount t - of_nat (length (filter (\<lambda>e. he_value e = None) (concat (ht_lists t)))))"
      "map hc_entries cs = map (filter ?P) (ht_lists t)" "list_all (chain_ok kind) cs"
    using inv(3) by (auto simp: ht_lists_def)
  define t' where "t' = t\<lparr>ht_chains := cs, ht_totalCount := ht_totalCount t - of_nat (length (filter (\<lambda>e. he_value e = None) (concat (ht_lists t))))\<rparr>"
  have lists: "ht_lists t' = map (filter ?P) (ht_lists t)" using cs(2) by (simp add: ht_lists_def t'_def)
  have "length cs = length (ht_chains t)" using arg_cong [OF cs(2), of length] by (simp add: ht_lists_def)
  moreover have ok: "bt_ok he_id (ht_bucket (ht_capacity t)) (ht_lists t')"
    using inv(4) by (auto simp: lists bt_ok_def distinct_map_filter)
  moreover have "ht_totalCount t' = of_nat (length (concat (ht_lists t')))"
  proof -
    have "of_nat (length (concat (ht_lists t))) = (of_nat (length (filter ?P (concat (ht_lists t)))) +
        of_nat (length (filter (\<lambda>e. he_value e = None) (concat (ht_lists t)))) :: u64)"
      using length_filter_compl [of ?P "concat (ht_lists t)"] by (metis of_nat_add)
    then have "ht_totalCount t' = of_nat (length (filter ?P (concat (ht_lists t))))"
      using inv(5) by (simp add: t'_def)
    then show ?thesis by (simp only: lists filter_concat)
  qed
  ultimately have "ht_inv kind t'" using inv cs(3) by (simp add: ht_inv_def t'_def)
  moreover have "ht_abs t' k = (case ht_abs t k of Some (Some v) \<Rightarrow> Some (Some v) | _ \<Rightarrow> None)" for k
  proof -
    have new: "ht_abs t' k = Some v \<longleftrightarrow> (\<exists>e \<in> set (concat (ht_lists t')). he_id e = k \<and> he_value e = v)" for v
      unfolding ht_abs_def by (rule bt_Some_iff [OF ok])
    have old: "ht_abs t k = Some v \<longleftrightarrow> (\<exists>e \<in> set (concat (ht_lists t)). he_id e = k \<and> he_value e = v)" for v
      unfolding ht_abs_def by (rule bt_Some_iff [OF inv(4)])
    have "ht_abs t' k = Some v \<longleftrightarrow> ht_abs t k = Some v \<and> v \<noteq> None" for v
      unfolding new old lists by auto
    then show ?thesis by (cases "ht_abs t k"; cases "ht_abs t' k") (auto split: option.splits)
  qed
  ultimately show ?thesis using cs(1) by (auto simp: ieut_removeEmptyHashEntries_def t'_def)
qed

section \<open>Resizing\<close>

text \<open>One of the allocations from the \<open>n\<close>-th on, for \<open>k\<close> entries, fails.\<close>

definition fails_in :: "(nat \<Rightarrow> bool) \<Rightarrow> nat \<Rightarrow> nat \<Rightarrow> bool" where
  "fails_in ro n k \<longleftrightarrow> (\<exists>m. n \<le> m \<and> m < n + k \<and> \<not> ro m)"

lemma fails_in_intros: "\<not> ro n \<Longrightarrow> fails_in ro n (Suc k)" "fails_in ro (Suc n) k \<Longrightarrow> fails_in ro n (Suc k)"
proof -
  show "fails_in ro n (Suc k)" if "\<not> ro n" using that by (auto simp: fails_in_def)
  show "fails_in ro n (Suc k)" if "fails_in ro (Suc n) k" using that unfolding fails_in_def by (metis Suc_leD add_Suc_shift)
qed

lemma resize_entries_abs:
  assumes "ht_inv kind t" and "list_all (entry_ok kind) es" and "distinct (map he_id es)"
    and "he_id ` set es \<inter> dom (ht_abs t) = {}" and "card (dom (ht_abs t)) + length es < 2 ^ 31"
  shows "\<exists>rc t'. ieut_resize_entries ro n es t = Some (rc, t') \<and> ht_inv kind t' \<and> ht_capacity t' = ht_capacity t \<and>
    (if rc = OK then ht_abs t' = ht_abs t ++ bt_chain he_id he_value es
     else rc = ISMRC_AllocateError \<and> fails_in ro n (length es))"
  using assms
proof (induction es arbitrary: t n)
  case (Cons e es)
  let ?fl = "he_flags e OR ieutFLAG_DUPLICATE_RESIZE"
  have e: "key_fits kind (he_key e)" "?fl AND kind_mask = kind" using Cons.prems(2) by (simp_all add: entry_ok_def flags_resize)
  have none: "ht_abs t (he_id e) = None" using Cons.prems(4) by auto
  have "ht_room t" using Cons.prems(1,5) by (simp add: ht_room_def ht_count)
  from putHashEntry_abs [OF Cons.prems(1) e this, of "he_keyHash e" True "ro n" True "he_value e"] none
  obtain rc t' where put: "ieut_putHashEntry True (ro n) True t ?fl (he_key e) (he_keyHash e) (he_value e) = Some (rc, t')"
      "ht_inv kind t'" "ht_capacity t' = ht_capacity t"
      "if rc = OK then ht_abs t' = (ht_abs t)(he_id e \<mapsto> he_value e) else rc = ISMRC_AllocateError \<and> \<not> ro n"
    by (auto simp: he_id_def split: if_splits)
  show ?case
  proof (cases "rc = OK")
    case True
    then have abs: "ht_abs t' = (ht_abs t)(he_id e \<mapsto> he_value e)" using put(4) by simp
    have "card (dom (ht_abs t')) + length es < 2 ^ 31"
      using Cons.prems(5) none ht_finite [of t] by (simp add: abs card_insert_if domIff)
    moreover have "he_id ` set es \<inter> dom (ht_abs t') = {}" using Cons.prems(3,4) by (auto simp: abs)
    moreover have "ht_abs t' ++ bt_chain he_id he_value es = ht_abs t ++ bt_chain he_id he_value (e # es)"
    proof -
      have "he_id e \<notin> dom (bt_chain he_id he_value es)" using Cons.prems(3) by (simp add: domIff bt_chain_None)
      then show ?thesis by (simp add: abs map_add_upd_left) (simp add: bt_chain_def)
    qed
    ultimately obtain rc' t'' where IH: "ieut_resize_entries ro (Suc n) es t' = Some (rc', t'')" "ht_inv kind t''"
        "ht_capacity t'' = ht_capacity t'"
        "if rc' = OK then ht_abs t'' = ht_abs t ++ bt_chain he_id he_value (e # es)
         else rc' = ISMRC_AllocateError \<and> fails_in ro (Suc n) (length es)"
      using Cons.IH [OF put(2), of "Suc n"] Cons.prems(2,3) by auto
    have "ieut_resize_entries ro n (e # es) t = Some (rc', t'')" using put(1) True IH(1) by simp
    then show ?thesis using IH put(3) by (intro exI [of _ rc'] exI [of _ t'']) (simp add: fails_in_intros)
  next
    case False
    then show ?thesis using put by (auto simp: rc_defs fails_in_intros split: if_splits)
  qed
qed (simp add: rc_defs bt_chain_def)

text \<open>
  A resize that stops in chain \<open>i\<close>: the allocation for one of its entries failed, and the arrays of the chains before it are freed.
\<close>

definition stops_at :: "(nat \<Rightarrow> bool) \<Rightarrow> nat \<Rightarrow> 'v ieutHashChain_t list \<Rightarrow> nat \<Rightarrow> bool" where
  "stops_at ro n cs i \<longleftrightarrow> i < length cs \<and> fails_in ro (n + length (concat (map hc_entries (take i cs)))) (length (hc_entries (cs ! i)))"

definition freed_before :: "nat \<Rightarrow> 'v ieutHashChain_t list \<Rightarrow> 'v ieutHashChain_t list" where
  "freed_before i cs = map (\<lambda>c. c\<lparr>hc_dangling := hc_size c \<noteq> 0\<rparr>) (take i cs) @ drop i cs"

lemma stops_at_Suc: "stops_at ro (n + length (hc_entries c)) cs i \<Longrightarrow> stops_at ro n (c # cs) (Suc i)"
  by (simp add: stops_at_def add.assoc)

lemma resize_chains_abs:
  assumes "ht_inv kind t" and "list_all (chain_ok kind) cs" and "distinct (map he_id (concat (map hc_entries cs)))"
    and "he_id ` set (concat (map hc_entries cs)) \<inter> dom (ht_abs t) = {}"
    and "card (dom (ht_abs t)) + length (concat (map hc_entries cs)) < 2 ^ 31"
  shows "\<exists>rc cs' t'. ieut_resize_chains ro n cs t = Some (rc, cs', t') \<and> ht_inv kind t' \<and> ht_capacity t' = ht_capacity t \<and>
    (if rc = OK then ht_abs t' = ht_abs t ++ bt_chain he_id he_value (concat (map hc_entries cs))
     else rc = ISMRC_AllocateError \<and> (\<exists>i. stops_at ro n cs i \<and> cs' = freed_before i cs))"
  using assms
proof (induction cs arbitrary: t n)
  case (Cons c cs)
  let ?es = "hc_entries c" and ?rest = "concat (map hc_entries cs)"
  have c: "\<not> hc_dangling c" "list_all (entry_ok kind) ?es" using Cons.prems(2) by (simp_all add: chain_ok_def)
  have "distinct (map he_id ?es)" "he_id ` set ?es \<inter> dom (ht_abs t) = {}" "card (dom (ht_abs t)) + length ?es < 2 ^ 31"
    using Cons.prems(3-5) by auto
  from resize_entries_abs [OF Cons.prems(1) c(2) this, of ro n] obtain rc t' where
    t': "ieut_resize_entries ro n ?es t = Some (rc, t')" "ht_inv kind t'" "ht_capacity t' = ht_capacity t"
      "if rc = OK then ht_abs t' = ht_abs t ++ bt_chain he_id he_value ?es
       else rc = ISMRC_AllocateError \<and> fails_in ro n (length ?es)"
    by auto
  show ?case
  proof (cases "rc = OK")
    case True
    then have abs: "ht_abs t' = ht_abs t ++ bt_chain he_id he_value ?es" using t'(4) by simp
    have dom: "dom (ht_abs t') = dom (ht_abs t) \<union> he_id ` set ?es"
      unfolding abs dom_map_add dom_bt_chain by (rule Un_commute)
    have "card (dom (ht_abs t')) \<le> card (dom (ht_abs t)) + length ?es"
      unfolding dom using card_Un_le [of "dom (ht_abs t)" "he_id ` set ?es"] card_image_le [OF finite_set, of he_id ?es]
        card_length [of ?es] by linarith
    then have "card (dom (ht_abs t')) + length ?rest < 2 ^ 31" using Cons.prems(5) by simp
    moreover have "he_id ` set ?rest \<inter> dom (ht_abs t') = {}" 
    proof -
      have "he_id ` set ?es \<inter> he_id ` set ?rest = {}" using Cons.prems(3) by simp
      moreover have "he_id ` set ?rest \<inter> dom (ht_abs t) = {}" using Cons.prems(4) by (simp add: image_Un Int_Un_distrib2)
      ultimately show ?thesis unfolding dom by blast
    qed
    moreover have "ht_abs t' ++ bt_chain he_id he_value ?rest = ht_abs t ++ bt_chain he_id he_value (?es @ ?rest)"
    proof -
      have "dom (bt_chain he_id he_value ?es) \<inter> dom (bt_chain he_id he_value ?rest) = {}"
        using Cons.prems(3) by (simp add: dom_bt_chain)
      then have "bt_chain he_id he_value ?es ++ bt_chain he_id he_value ?rest
          = bt_chain he_id he_value ?rest ++ bt_chain he_id he_value ?es" by (rule map_add_comm)
      then show ?thesis by (metis abs bt_chain_append map_add_assoc)
    qed
    ultimately obtain rc' cs' t'' where IH: "ieut_resize_chains ro (n + length ?es) cs t' = Some (rc', cs', t'')" "ht_inv kind t''"
        "ht_capacity t'' = ht_capacity t'"
        "if rc' = OK then ht_abs t'' = ht_abs t ++ bt_chain he_id he_value (?es @ ?rest)
         else rc' = ISMRC_AllocateError \<and> (\<exists>i. stops_at ro (n + length ?es) cs i \<and> cs' = freed_before i cs)"
      using Cons.IH [OF t'(2), of "n + length ?es"] Cons.prems(2,3) by auto
    moreover have "\<exists>i. stops_at ro n (c # cs) i \<and> c\<lparr>hc_dangling := hc_size c \<noteq> 0\<rparr> # cs' = freed_before i (c # cs)" if fail: "rc' \<noteq> OK"
    proof -
      obtain i where "stops_at ro (n + length ?es) cs i" "cs' = freed_before i cs" using IH(4) fail by (auto split: if_splits)
      then show ?thesis by (intro exI [of _ "Suc i"]) (simp add: stops_at_Suc freed_before_def)
    qed
    ultimately show ?thesis using c t' True by (simp split: if_splits)
  next
    case False
    then have "stops_at ro n (c # cs) 0 \<and> c # cs = freed_before 0 (c # cs)" using t'(4) by (simp add: stops_at_def freed_before_def)
    then show ?thesis using c t' False by auto
  qed
qed (simp add: rc_defs bt_chain_def)

lemma resize_abs:
  assumes "ht_inv kind t" and "ht_room t" and "0 < newCapacity" and "newCapacity < 2 ^ 31"
  shows "\<exists>rc t'. ieut_resizeHashTable co ro t newCapacity = Some (rc, t') \<and>
    (if rc = OK then ht_inv kind t' \<and> ht_abs t' = ht_abs t \<and> ht_capacity t' = of_int newCapacity
     else rc = ISMRC_AllocateError \<and> \<not> (co \<and> (\<forall>n. ro n)) \<and>
       (if co then \<exists>i. stops_at ro 0 (ht_chains t) i \<and> t' = t\<lparr>ht_chains := freed_before i (ht_chains t)\<rparr> else t' = t))"
proof (cases co)
  case True
  let ?cap = "of_int newCapacity :: u32"
  let ?new = "\<lparr>ht_totalCount = 0, ht_chains = replicate (unat ?cap) empty_chain, ht_capacity = ?cap\<rparr>"
  have "?cap = of_nat (nat newCapacity)" using assms(3) by simp
  then have "unat ?cap = nat newCapacity" using assms(4) by (simp add: unat_of_nat nat_less_iff)
  then have cap: "?cap \<noteq> 0" using assms(3) by auto
  note new = create_inv [OF cap]
  note inv = ht_invD [OF assms(1)]
  have cs: "distinct (map he_id (concat (map hc_entries (ht_chains t))))" "length (concat (map hc_entries (ht_chains t))) < 2 ^ 31"
    using bt_distinct [OF inv(4)] assms(2) by (simp_all add: ht_lists_def ht_room_def)
  then obtain rc cs' t' where rs: "ieut_resize_chains ro 0 (ht_chains t) ?new = Some (rc, cs', t')"
      "ht_inv kind t'" "ht_capacity t' = ?cap"
      "if rc = OK then ht_abs t' = ht_abs t
       else rc = ISMRC_AllocateError \<and> (\<exists>i. stops_at ro 0 (ht_chains t) i \<and> cs' = freed_before i (ht_chains t))"
    using resize_chains_abs [OF new(1) inv(3) cs(1), of ro 0] by (auto simp: new(2) ht_abs_def [of t] bt_abs_def ht_lists_def)
  show ?thesis
  proof (cases "ht_totalCount t = 0")
    case zero: True
    have "length (concat (ht_lists t)) < 2 ^ 64" using assms(2) by (simp add: ht_room_def)
    moreover have "unat (of_nat (length (concat (ht_lists t))) :: u64) = 0" using zero inv(5) by simp
    ultimately have "concat (ht_lists t) = []" by (simp add: unat_of_nat)
    then have "ht_abs t = Map.empty" by (simp add: ht_abs_def bt_abs_def bt_chain_def)
    then show ?thesis using True zero by (simp add: ieut_resizeHashTable_def Let_def rc_defs new)
  next
    case False
    have "\<not> (\<forall>n. ro n)" if "rc \<noteq> OK" using rs(4) that by (auto simp: stops_at_def fails_in_def split: if_splits)
    then show ?thesis using True False rs by (auto simp: ieut_resizeHashTable_def Let_def split: if_splits)
  qed
qed (simp add: ieut_resizeHashTable_def rc_defs)

text \<open>A lookup in a table in which the arrays of the first chains are freed.\<close>

lemma freed_before_get:
  assumes inv: "ht_inv kind t" and b: "b = unat (h mod ht_capacity t)"
  shows "ieut_getHashEntry (t\<lparr>ht_chains := freed_before i (ht_chains t)\<rparr>) key h =
    (if b < i \<and> hc_entries (ht_chains t ! b) \<noteq> [] then None else ieut_getHashEntry t key h)"
proof -
  let ?cs = "freed_before i (ht_chains t)" and ?c = "ht_chains t ! b"
  have len: "length ?cs = length (ht_chains t)" by (simp add: freed_before_def)
  have lt: "b < length (ht_chains t)" "chain_ok kind ?c" using ht_index(1,3) [OF inv, of "(h, key)"] by (simp_all add: ht_bucket_def b)
  have nth: "?cs ! b = (if b < i then ?c\<lparr>hc_dangling := hc_size ?c \<noteq> 0\<rparr> else ?c)"
    using lt(1) by (auto simp: freed_before_def nth_append)
  have "hc_entries ?c = [] \<or> hc_size ?c \<noteq> 0" using lt(2) by (auto simp: chain_ok_def)
  then show ?thesis using lt
    by (cases "ieut_scan he_flags key h (hc_entries ?c)") (auto simp: ieut_getHashEntry_def b [symmetric] Let_def nth len chain_ok_def)
qed

section \<open>Traversal\<close>

lemma traverse_chains_entries:
  "list_all (\<lambda>c. \<not> hc_dangling c) cs \<Longrightarrow>
    ieut_traverse_chains cb cs x = Some (ieut_traverse_entries cb (concat (map hc_entries cs)) x)"
proof (induction cs arbitrary: x)
  case (Cons c cs)
  have "ieut_traverse_entries cb (es @ es') x = (let (rc, x') = ieut_traverse_entries cb es x
      in if rc \<noteq> OK then (rc, x') else ieut_traverse_entries cb es' x')" for es es' x
    by (induction es arbitrary: x) (auto simp: Let_def split: prod.splits)
  then show ?case using Cons by (auto simp: Let_def split: prod.splits)
qed simp

section \<open>The contract\<close>

text \<open>
  The operations as a client calls them on a table with string keys it does not duplicate, the
  values being pointers that are not NULL; existing keys are replaced.
\<close>

definition ht_get :: "'v ieutHashTable_t \<Rightarrow> u32 \<times> ieutKey \<Rightarrow> 'v option" where
  "ht_get t k = (case ieut_getHashEntry t (snd k) (fst k) of Some (_, v) \<Rightarrow> v | None \<Rightarrow> None)"

definition ht_put :: "u32 \<times> ieutKey \<Rightarrow> 'v \<Rightarrow> 'v ieutHashTable_t \<Rightarrow> 'v ieutHashTable_t" where
  "ht_put k v t = (case ieut_putHashEntry True True True t ieutFLAG_REPLACE_EXISTING (snd k) (fst k) (Some v) of
     Some (_, t') \<Rightarrow> t' | None \<Rightarrow> t)"

definition ht_del :: "u32 \<times> ieutKey \<Rightarrow> 'v ieutHashTable_t \<Rightarrow> 'v ieutHashTable_t" where
  "ht_del k t = (case ieut_removeHashEntry t (snd k) (fst k) of Some t' \<Rightarrow> t' | None \<Rightarrow> t)"

lemma ht_get_abs: "ht_inv 0 t \<Longrightarrow> key_fits 0 (snd k) \<Longrightarrow> ht_get t k = Option.bind (ht_abs t k) (\<lambda>v. v)"
  using getHashEntry_abs [of 0 t "snd k" "fst k"] by (cases k) (auto simp: ht_get_def split: option.splits)

lemma ht_put_abs:
  assumes "ht_inv 0 t" and "ht_room t" and "key_fits 0 (snd k)"
  shows "ht_inv 0 (ht_put k v t) \<and> ht_abs (ht_put k v t) = (ht_abs t)(k \<mapsto> Some v)"
proof -
  have fl: "ieutFLAG_REPLACE_EXISTING AND kind_mask = 0" "ieutFLAG_REPLACE_EXISTING AND ieutFLAG_DUPLICATE_RESIZE = 0"
    "ieutFLAG_REPLACE_EXISTING AND ieutFLAG_REPLACE_EXISTING \<noteq> 0" by (simp_all add: ieutFLAG_defs)
  show ?thesis
    using putHashEntry_abs [OF assms(1,3) fl(1) assms(2), of "fst k" True True True "Some v"] fl(2,3)
    by (auto simp: ht_put_def split: if_splits)
qed

lemma ht_del_abs:
  "ht_inv 0 t \<Longrightarrow> key_fits 0 (snd k) \<Longrightarrow> ht_inv 0 (ht_del k t) \<and> ht_abs (ht_del k t) = (ht_abs t)(k := None)"
  using removeHashEntry_abs [of 0 t "snd k" "fst k"] by (auto simp: ht_del_def)

interpretation ht: kv_map "ht_inv 0" ht_room "\<lambda>k. key_fits 0 (snd k)" ht_get ht_put ht_del
  by unfold_locales (simp_all add: ht_get_abs ht_put_abs ht_del_abs)

section \<open>Properties\<close>

text \<open>
  C4: Whatever allocations fail, putting an entry into a sound table leaves it sound (each chain sorted,
  free of duplicate keys, in the right bucket and within its allocated array, the total right).
  The call returns OK exactly when the key is absent or may be replaced and no needed allocation failed,
  and then a lookup of the key gives the value and every other lookup is as before; otherwise it
  returns the reason and all lookups are as before.
\<close>

theorem put_then_get:
  assumes "ht_inv kind t" and "key_fits kind key" and "flags AND kind_mask = kind" and "ht_room t"
    and "flags AND ieutFLAG_DUPLICATE_RESIZE = 0"
  shows "\<exists>rc t'. ieut_putHashEntry vo ro ko t flags key h v = Some (rc, t') \<and> ht_inv kind t' \<and>
    (rc = OK \<or> rc = ISMRC_ExistingKey \<or> rc = ISMRC_AllocateError) \<and>
    (vo \<and> ro \<and> ko \<longrightarrow> (rc = OK) = (ieut_getHashEntry t key h = Some (ISMRC_NotFound, None) \<or>
       flags AND ieutFLAG_REPLACE_EXISTING \<noteq> 0)) \<and>
    (\<forall>key' h'. key_fits kind key' \<longrightarrow> ieut_getHashEntry t' key' h' =
       (if rc = OK \<and> key' = key \<and> h' = h then Some (OK, v) else ieut_getHashEntry t key' h'))"
proof -
  obtain rc t' where put: "ieut_putHashEntry vo ro ko t flags key h v = Some (rc, t')" "ht_inv kind t'"
    "if rc = OK then ht_abs t' = (ht_abs t)((h, key) \<mapsto> v) \<and> (ht_abs t (h, key) = None \<or> flags AND ieutFLAG_REPLACE_EXISTING \<noteq> 0)
     else ht_abs t' = ht_abs t \<and>
       (rc = ISMRC_ExistingKey \<and> ht_abs t (h, key) \<noteq> None \<and> flags AND ieutFLAG_REPLACE_EXISTING = 0 \<or>
        rc = ISMRC_AllocateError \<and> \<not> (vo \<and> ro \<and> ko))"
    using putHashEntry_abs [OF assms(1-4), of h vo ro ko v] assms(5) by blast
  have "ieut_getHashEntry t key h = Some (ISMRC_NotFound, None) \<longleftrightarrow> ht_abs t (h, key) = None"
    using getHashEntry_abs [OF assms(1,2)] by (auto simp: rc_defs split: option.splits)
  moreover have "ieut_getHashEntry t' key' h' = (if rc = OK \<and> key' = key \<and> h' = h then Some (OK, v) else ieut_getHashEntry t key' h')"
    if "key_fits kind key'" for key' h'
    using put(3) getHashEntry_abs [OF assms(1) that] getHashEntry_abs [OF put(2) that] by (auto split: if_splits)
  ultimately show ?thesis using put by (intro exI [of _ rc] exI [of _ t']) (auto split: if_splits)
qed

text \<open>
  C5: Resizing a sound table to a positive capacity succeeds when its allocations do, and then the table
  has the new capacity, is sound and every lookup gives what it gave before.
\<close>

theorem resize_keeps_entries:
  assumes "ht_inv kind t" and "ht_room t" and "0 < newCapacity" and "newCapacity < 2 ^ 31"
  shows "\<exists>t'. ieut_resizeHashTable True (\<lambda>_. True) t newCapacity = Some (OK, t') \<and> ht_inv kind t' \<and>
    ht_capacity t' = of_int newCapacity \<and> ht_totalCount t' = ht_totalCount t \<and>
    (\<forall>key h. key_fits kind key \<longrightarrow> ieut_getHashEntry t' key h = ieut_getHashEntry t key h)"
proof -
  obtain t' where t': "ieut_resizeHashTable True (\<lambda>_. True) t newCapacity = Some (OK, t')" "ht_inv kind t'"
      "ht_abs t' = ht_abs t" "ht_capacity t' = of_int newCapacity"
    using resize_abs [OF assms, of True "\<lambda>_. True"] by (auto split: if_splits)
  then have "ht_totalCount t' = ht_totalCount t"
    using ht_count [OF t'(2)] ht_count [OF assms(1)] ht_invD(5) [OF t'(2)] ht_invD(5) [OF assms(1)] by simp
  then show ?thesis using t' assms(1) by (auto simp: getHashEntry_abs)
qed

text \<open>
  C27: Removing a key, purging the entries without a value, and clearing: each keeps the table sound and
  takes out exactly the key, exactly the entries whose value is NULL, and everything. Removing the keys of a list from a table
  with string keys, one after the other, takes out exactly these.
\<close>

theorem removal_correct:
  assumes "ht_inv kind t" and "key_fits kind key"
  shows "\<exists>t1 t2 t3. ieut_removeHashEntry t key h = Some t1 \<and> ieut_removeEmptyHashEntries t = Some t2 \<and>
    ieut_clearHashTable t = Some t3 \<and> ht_inv kind t1 \<and> ht_inv kind t2 \<and> ht_inv kind t3 \<and>
    (\<forall>key' h'. key_fits kind key' \<longrightarrow>
       ieut_getHashEntry t1 key' h' = (if key' = key \<and> h' = h then Some (ISMRC_NotFound, None) else ieut_getHashEntry t key' h') \<and>
       ieut_getHashEntry t2 key' h' = (case ieut_getHashEntry t key' h' of
          Some (rc, None) \<Rightarrow> Some (ISMRC_NotFound, None) | r \<Rightarrow> r) \<and>
       ieut_getHashEntry t3 key' h' = Some (ISMRC_NotFound, None)) \<and>
    (kind = 0 \<and> (\<forall>k \<in> set ks. key_fits 0 (snd k)) \<longrightarrow> ht_inv 0 (fold ht_del ks t) \<and>
       (\<forall>k'. key_fits 0 (snd k') \<longrightarrow> ht_get (fold ht_del ks t) k' = (if k' \<in> set ks then None else ht_get t k')))"
proof -
  obtain t1 where t1: "ieut_removeHashEntry t key h = Some t1" "ht_inv kind t1" "ht_abs t1 = (ht_abs t)((h, key) := None)"
    using removeHashEntry_abs [OF assms] by blast
  obtain t2 where t2: "ieut_removeEmptyHashEntries t = Some t2" "ht_inv kind t2"
      "ht_abs t2 = (\<lambda>k. case ht_abs t k of Some (Some v) \<Rightarrow> Some (Some v) | _ \<Rightarrow> None)"
    using removeEmpty_abs [OF assms(1)] by blast
  obtain t3 where t3: "ieut_clearHashTable t = Some t3" "ht_inv kind t3" "ht_abs t3 = Map.empty"
    using clear_abs [OF assms(1)] by blast
  have "ht_inv 0 (fold ht_del ks t)" "\<forall>k'. key_fits 0 (snd k') \<longrightarrow> ht_get (fold ht_del ks t) k' = (if k' \<in> set ks then None else ht_get t k')"
    if "kind = 0" "\<forall>k \<in> set ks. key_fits 0 (snd k)" using that assms(1) ht.inv_dels [of t ks] ht.get_dels [of t ks] by blast+
  then show ?thesis using t1 t2 t3 assms(1)
    by (intro exI [of _ t1] exI [of _ t2] exI [of _ t3]) (auto simp: getHashEntry_abs split: option.splits)
qed

lemma fold_log: "fold (\<lambda>e seen. seen @ [f e]) es seen = seen @ map f es"
  by (induction es arbitrary: seen) simp_all

lemma traverse_entries_log:
  "ieut_traverse_entries (\<lambda>k h v seen. (f ((h, k), v), seen @ [((h, k), v)])) es seen =
    (let xs = map (\<lambda>e. (he_id e, he_value e)) es
     in case dropWhile (\<lambda>x. f x = OK) xs of [] \<Rightarrow> (OK, seen @ xs) | x # _ \<Rightarrow> (f x, seen @ takeWhile (\<lambda>x. f x = OK) xs @ [x]))"
  by (induction es arbitrary: seen) (simp_all add: he_id_def Let_def split: list.split del: dropWhile_eq_Nil_conv)

text \<open>
  C28: A traversal of a sound table calls the callback once for each entry, with its key, hash and value;
  the traversal with return codes goes through the same entries and stops after the first one
  for which the callback does not return OK, with that code.
\<close>

theorem traverse_visits_all:
  assumes "ht_inv kind t" and "ht_room t"
  shows "\<exists>es. ieut_traverseHashTable t (\<lambda>k h v seen. seen @ [((h, k), v)]) [] = Some es \<and> distinct (map fst es) \<and>
    (\<forall>k v. (k, v) \<in> set es \<longleftrightarrow> ht_abs t k = Some v) \<and>
    ieut_traverseHashTableWithRC t (\<lambda>k h v seen. (f ((h, k), v), seen @ [((h, k), v)])) [] =
      Some (case dropWhile (\<lambda>x. f x = OK) es of
              [] \<Rightarrow> (OK, es) | x # _ \<Rightarrow> (f x, takeWhile (\<lambda>x. f x = OK) es @ [x]))"
proof -
  let ?es = "concat (ht_lists t)" and ?f = "\<lambda>e. (he_id e, he_value e)"
  note inv = ht_invD [OF assms(1)]
  have nd: "list_all (\<lambda>c. \<not> hc_dangling c) (ht_chains t)" using inv(3) by (auto simp: list_all_iff chain_ok_def)
  have "unat (of_nat (length ?es) :: u64) = length ?es" using assms(2) by (simp add: ht_room_def unat_of_nat)
  then have "(of_nat (length ?es) :: u64) = 0 \<longleftrightarrow> length ?es = 0" by (simp only: unat_eq_0 [symmetric])
  then have zero: "ht_totalCount t = 0 \<longleftrightarrow> ?es = []" by (simp only: inv(5) length_0_conv)
  have "\<not> list_ex (\<lambda>c. hc_entries c \<noteq> [] \<and> hc_dangling c) (ht_chains t)" using nd by (auto simp: list_ex_iff list_all_iff)
  then have tr: "ieut_traverseHashTable t (\<lambda>k h v seen. seen @ [((h, k), v)]) [] = Some (map ?f ?es)"
    using zero fold_log [of ?f ?es "[]"] by (simp add: ieut_traverseHashTable_def he_id_def flip: ht_lists_def)
  have "ieut_traverseHashTableWithRC t (\<lambda>k h v seen. (f ((h, k), v), seen @ [((h, k), v)])) [] =
      Some (ieut_traverse_entries (\<lambda>k h v seen. (f ((h, k), v), seen @ [((h, k), v)])) ?es [])"
    using zero by (cases "?es = []")
      (simp_all add: ieut_traverseHashTableWithRC_def traverse_chains_entries [OF nd] del: concat_eq_Nil_conv flip: ht_lists_def)
  moreover have "(k, v) \<in> set (map ?f ?es) \<longleftrightarrow> ht_abs t k = Some v" for k v
    unfolding ht_abs_def bt_Some_iff [OF inv(4)] by auto
  moreover have "distinct (map fst (map ?f ?es))"
  proof -
    have "map fst (map ?f ?es) = map he_id ?es" by simp
    then show ?thesis using bt_distinct [OF inv(4)] by (simp only:)
  qed
  ultimately show ?thesis using tr by (intro exI [of _ "map ?f ?es"]) (simp add: traverse_entries_log Let_def cong: list.case_cong)
qed

definition demo_table :: "nat ieutHashTable_t" where
  "demo_table = \<lparr>ht_totalCount = 2,
     ht_chains = [\<lparr>hc_size = 2, hc_entries = [\<lparr>he_key = StringKey ''a'', he_value = Some 1, he_keyHash = 4, he_flags = 8\<rparr>], hc_dangling = False\<rparr>,
                  \<lparr>hc_size = 2, hc_entries = [\<lparr>he_key = StringKey ''b'', he_value = None, he_keyHash = 3, he_flags = 8\<rparr>], hc_dangling = False\<rparr>],
     ht_capacity = 2\<rparr>"

lemma demo_table_inv: "ht_inv 0 demo_table" "ht_room demo_table"
  by (simp_all add: ht_inv_def demo_table_def ht_lists_def chain_ok_def entry_ok_def key_fits_def ieutFLAG_defs bt_ok_def
      less_Suc_eq ht_bucket_def he_id_def ht_room_def)

lemma key_fits_string: "key_fits 0 (StringKey s)"
  by (simp add: key_fits_def)

lemma suggest_from_filter:
  "suggest_from e l u ps = (case filter (\<lambda>p. p \<le> l \<and> p \<le> e) ps of p # _ \<Rightarrow> p | [] \<Rightarrow> if ps = [] then u else last ps)"
  by (induction ps arbitrary: u) (auto split: list.split)

lemma filter_max:
  "sorted_wrt (\<ge>) ps \<Longrightarrow> filter P ps = p # qs \<Longrightarrow> p \<in> set ps \<and> P p \<and> (\<forall>q \<in> set ps. P q \<longrightarrow> q \<le> p)"
  for ps :: "'a::linorder list"
  by (induction ps) (auto split: if_splits)

definition primes64 :: "u64 list" where
  "primes64 = rev (map ucast CAPACITY_PRIMES)"

lemma primes64_eq: "primes64 = [3145739, 1572869, 786433, 393241, 196613, 98317, 49157, 24593, 12289, 6151, 3079, 1543,
    769, 389, 193, 97, 53]"
  by (simp add: primes64_def CAPACITY_PRIMES_def)

lemma primes64_facts: "sorted_wrt (\<ge>) primes64" "last primes64 = 53" "primes64 \<noteq> []"
  "unat ` set CAPACITY_PRIMES = unat ` set primes64" "\<forall>p \<in> set primes64. unat (ucast p :: u32) = unat p \<and> unat p \<le> 3145739"
  by (simp_all add: primes64_eq CAPACITY_PRIMES_def insert_commute)

lemma last_primes: "ucast (last CAPACITY_PRIMES) = (3145739 :: u64)"
  by (simp add: CAPACITY_PRIMES_def)

definition capacity_fits :: "u64 \<Rightarrow> u64 \<Rightarrow> nat \<Rightarrow> bool" where
  "capacity_fits expected limit p \<longleftrightarrow> p \<le> unat expected \<and> (limit = 0 \<or> p \<le> unat limit)"

text \<open>
  C34: When an allocation fails while a sound table is being resized, the call reports it, but the table is not as it was. The allocation that failed was one for an
  entry of some chain; the arrays of the chains before that one have been freed and are still in the table. A lookup of any key that belongs to a chain before
  it that was not empty reads freed memory; every other lookup is as before. If the array of new chains cannot be allocated, the table is unchanged.
\<close>

theorem resize_failure_dangles:
  assumes "ht_inv kind t" and "ht_room t" and "0 < newCapacity" and "newCapacity < 2 ^ 31"
    and "ieut_resizeHashTable calloc_ok realloc_ok t newCapacity = Some (rc, t')" and "rc \<noteq> OK"
  shows "rc = ISMRC_AllocateError \<and>
    (if calloc_ok then \<exists>i < length (ht_chains t).
       (let moved = length (concat (map hc_entries (take i (ht_chains t)))) in \<exists>n. moved \<le> n \<and> n < moved + length (hc_entries (ht_chains t ! i)) \<and> \<not> realloc_ok n) \<and>
       (\<forall>key h. let b = unat (h mod ht_capacity t)
          in ieut_getHashEntry t' key h = (if b < i \<and> hc_entries (ht_chains t ! b) \<noteq> [] then None else ieut_getHashEntry t key h))
     else t' = t)"
proof -
  have res: "rc = ISMRC_AllocateError" "if calloc_ok
      then \<exists>i. stops_at realloc_ok 0 (ht_chains t) i \<and> t' = t\<lparr>ht_chains := freed_before i (ht_chains t)\<rparr> else t' = t"
    using resize_abs [OF assms(1-4), of calloc_ok realloc_ok] assms(5,6) by auto
  show ?thesis
  proof (cases calloc_ok)
    case True
    then obtain i where "stops_at realloc_ok 0 (ht_chains t) i" and t': "t' = t\<lparr>ht_chains := freed_before i (ht_chains t)\<rparr>" using res(2) by auto
    then have "i < length (ht_chains t)" "let moved = length (concat (map hc_entries (take i (ht_chains t))))
        in \<exists>n. moved \<le> n \<and> n < moved + length (hc_entries (ht_chains t ! i)) \<and> \<not> realloc_ok n"
      by (simp_all add: stops_at_def fails_in_def Let_def)
    then show ?thesis using True res(1) freed_before_get [OF assms(1) refl, where i = i] unfolding t' Let_def by auto
  qed (use res in simp)
qed

theorem resize_failure_dangles_witness:
  "\<exists>t'. ieut_resizeHashTable True (\<lambda>n. n = 0) demo_table 3 = Some (ISMRC_AllocateError, t') \<and>
     ieut_getHashEntry demo_table (StringKey ''a'') 4 = Some (OK, Some 1) \<and> ieut_getHashEntry t' (StringKey ''a'') 4 = None"
proof -
  have get: "ieut_getHashEntry demo_table (StringKey ''a'') 4 = Some (OK, Some 1)" by code_simp
  have "map_option fst (ieut_resizeHashTable True (\<lambda>n. n = 0) demo_table 3) = Some ISMRC_AllocateError" by code_simp
  then obtain t' where t': "ieut_resizeHashTable True (\<lambda>n. n = 0) demo_table 3 = Some (ISMRC_AllocateError, t')" by auto
  have ne: "(0 :: int) < 3" "(3 :: int) < 2 ^ 31" "ISMRC_AllocateError \<noteq> OK" by (simp_all add: rc_defs)
  from resize_failure_dangles [OF demo_table_inv ne(1,2) t' ne(3)] obtain i n where i:
      "n < length (concat (map hc_entries (take i (ht_chains demo_table)))) + length (hc_entries (ht_chains demo_table ! i))" "n \<noteq> 0"
      "\<forall>key h. ieut_getHashEntry t' key h =
         (if unat (h mod ht_capacity demo_table) < i \<and> hc_entries (ht_chains demo_table ! unat (h mod ht_capacity demo_table)) \<noteq> []
          then None else ieut_getHashEntry demo_table key h)"
    unfolding Let_def by auto
  have "i \<noteq> 0" using i(1,2) by (cases i) (simp_all add: demo_table_def)
  then have "ieut_getHashEntry t' (StringKey ''a'') 4 = None" using i(3) by (simp add: demo_table_def)
  then show ?thesis using t' get by blast
qed

text \<open>
  The suggested capacity is one of the primes: the greatest that is at most the expected number of
  entries and the limit (no limit if it is 0), or the smallest if there is none.
\<close>

lemma suggestCapacity_correct:
  "unat (ieut_suggestCapacity expected limit) \<in> unat ` set CAPACITY_PRIMES \<and>
   (if \<exists>p \<in> unat ` set CAPACITY_PRIMES. capacity_fits expected limit p
    then unat (ieut_suggestCapacity expected limit) =
      Max {p \<in> unat ` set CAPACITY_PRIMES. capacity_fits expected limit p}
    else unat (ieut_suggestCapacity expected limit) = 53)"
proof -
  let ?l = "if limit = 0 then 3145739 else limit"
  let ?P = "\<lambda>p. p \<le> ?l \<and> p \<le> expected" and ?n = "ieut_suggestCapacity expected limit"
  have fits: "capacity_fits expected limit (unat p) \<longleftrightarrow> ?P p" if "p \<in> set primes64" for p
    using primes64_facts(5) that by (auto simp: word_le_nat_alt capacity_fits_def)
  have n: "?n = ucast (suggest_from expected ?l 0 primes64)"
    by (simp only: ieut_suggestCapacity_def Let_def last_primes primes64_def)
  show ?thesis
    unfolding primes64_facts(4)
  proof (cases "filter ?P primes64")
    case Nil
    then have "?n = 53" using primes64_facts(2,3) by (simp add: n suggest_from_filter)
    moreover have "\<not> (\<exists>p \<in> unat ` set primes64. capacity_fits expected limit p)"
      using Nil fits by (auto simp: filter_empty_conv)
    moreover have "53 \<in> unat ` set primes64" by (simp add: primes64_eq)
    ultimately show "unat ?n \<in> unat ` set primes64 \<and> (if \<exists>p \<in> unat ` set primes64. capacity_fits expected limit p
        then unat ?n = Max {p \<in> unat ` set primes64. capacity_fits expected limit p} else unat ?n = 53)" by simp
  next
    case (Cons p qs)
    then have p: "p \<in> set primes64" "?P p" "\<forall>q \<in> set primes64. ?P q \<longrightarrow> q \<le> p"
      using filter_max [OF primes64_facts(1) Cons] by auto
    have eq: "unat ?n = unat p" using Cons p(1) primes64_facts(5) by (simp add: n suggest_from_filter)
    have "Max {p \<in> unat ` set primes64. capacity_fits expected limit p} = unat p"
      using p fits by (intro Max_eqI) (auto simp: word_le_nat_alt)
    then show "unat ?n \<in> unat ` set primes64 \<and> (if \<exists>p \<in> unat ` set primes64. capacity_fits expected limit p
        then unat ?n = Max {p \<in> unat ` set primes64. capacity_fits expected limit p} else unat ?n = 53)"
      using p(1,2) fits [OF p(1)] eq by auto
  qed
qed

theorem put_then_get_witness:
  "\<exists>rc t'. ieut_putHashEntry True True True demo_table 8 (StringKey ''c'') 4 (Some 9) = Some (rc, t') \<and> rc = OK \<and>
    ieut_getHashEntry t' (StringKey ''c'') 4 = Some (OK, Some 9) \<and> ieut_getHashEntry t' (StringKey ''a'') 4 = Some (OK, Some 1)"
proof -
  have "ieut_getHashEntry demo_table (StringKey ''c'') 4 = Some (ISMRC_NotFound, None)"
    "ieut_getHashEntry demo_table (StringKey ''a'') 4 = Some (OK, Some 1)"
    by (simp_all add: ieut_getHashEntry_def demo_table_def ieut_key_eq_def ieutFLAG_defs)
  then show ?thesis
    using put_then_get [OF demo_table_inv(1) key_fits_string _ demo_table_inv(2), of 8 True True True "''c''" 4 "Some 9"]
    by (auto simp: ieutFLAG_defs key_fits_string)
qed

theorem resize_keeps_entries_witness:
  "\<exists>t'. ieut_resizeHashTable True (\<lambda>_. True) demo_table 5 = Some (OK, t') \<and>
    ieut_getHashEntry t' (StringKey ''a'') 4 = ieut_getHashEntry demo_table (StringKey ''a'') 4"
  using resize_keeps_entries [OF demo_table_inv, of 5] key_fits_string by auto

theorem removal_witness:
  "\<exists>t1 t2. ieut_removeHashEntry demo_table (StringKey ''a'') 4 = Some t1 \<and> ieut_removeEmptyHashEntries demo_table = Some t2 \<and>
    ieut_getHashEntry t1 (StringKey ''a'') 4 = Some (ISMRC_NotFound, None) \<and>
    ieut_getHashEntry t2 (StringKey ''b'') 3 = Some (ISMRC_NotFound, None)"
proof -
  have "ieut_getHashEntry demo_table (StringKey ''b'') 3 = Some (OK, None)"
    by (simp add: ieut_getHashEntry_def demo_table_def ieut_key_eq_def ieutFLAG_defs)
  then show ?thesis
    using removal_correct [OF demo_table_inv(1) key_fits_string, of "''a''" 4 "[]"] key_fits_string by fastforce
qed

theorem traverse_witness:
  "\<exists>es. ieut_traverseHashTable demo_table (\<lambda>k h v seen. seen @ [((h, k), v)]) [] = Some es \<and>
    ((4, StringKey ''a''), Some 1) \<in> set es"
proof -
  have "ht_abs demo_table (4, StringKey ''a'') = Some (Some 1)"
    by (simp add: ht_abs_def bt_abs_def bt_chain_def ht_lists_def demo_table_def he_id_def)
  then show ?thesis using traverse_visits_all [OF demo_table_inv, of "\<lambda>_. OK"] by auto
qed

end
