(* ===== verification/TopicString.thy ===== *)
theory TopicString
  imports Prelude
begin

text \<open>
  Topic strings, \<^verbatim>\<open>src/server_engine/src/topicTreeUtils.c\<close>: splitting into levels with their hashes
  and wildcard positions, and the validation for publish, subscribe and topic monitors.

  A C string is the list of its characters up to the NUL; the scan of the end of the list is the scan
  of the NUL. A pointer into the copy of the topic string is its offset. Each of the four arrays
  the analysis fills (substrings, their hashes, wildcards, multicards) has an explicit capacity,
  and a store at or past it has no result. \<open>alloc n\<close> is the outcome of the \<open>n\<close>-th
  allocation of an array. The first allocation, of the copy, is the parameter \<open>copy_ok\<close>.

  The lemmas relate both loops to the list \<open>levels\<close> of the levels of a topic.
\<close>

section \<open>Hashes\<close>

text \<open>\<^verbatim>\<open>char\<close> is signed: a byte is extended with its sign before it enters a hash.\<close>

definition char_u32 :: "char \<Rightarrow> u32" where
  "char_u32 c = scast (of_char c :: u8)"

definition iettINCREMENT_SUBSTRING_HASH :: "u32 \<Rightarrow> char \<Rightarrow> u32" where
  "iettINCREMENT_SUBSTRING_HASH hash c = char_u32 c + push_bit 6 hash + push_bit 16 hash - hash"

fun substring_hash_loop :: "u32 \<Rightarrow> string \<Rightarrow> u32" where
  "substring_hash_loop substringHash [] = substringHash"
| "substring_hash_loop substringHash (curChar # key) =
     (if curChar = CHR ''/'' then substringHash
      else substring_hash_loop (iettINCREMENT_SUBSTRING_HASH substringHash curChar) key)"

definition iett_generateSubstringHash :: "string \<Rightarrow> u32" where
  "iett_generateSubstringHash key = substring_hash_loop 0 key"

definition iett_generateTopicStringHash :: "string \<Rightarrow> u32" where
  "iett_generateTopicStringHash key = foldl (\<lambda>keyHash curChar. (keyHash * 33) XOR char_u32 curChar) 5381 key"

definition iett_generateSubNameHash :: "string \<Rightarrow> u32" where
  "iett_generateSubNameHash subName = iett_generateTopicStringHash subName"

definition iett_generateClientIdHash :: "string \<Rightarrow> u32" where
  "iett_generateClientIdHash clientId = iett_generateTopicStringHash clientId"

definition iett_generateOriginServerHash :: "string \<Rightarrow> u32" where
  "iett_generateOriginServerHash serverUID = iett_generateTopicStringHash serverUID"

section \<open>Analysis\<close>

definition iettMAX_TOPIC_DEPTH :: nat where "iettMAX_TOPIC_DEPTH = 32"

definition ISMRC_DestNotValid :: int where "ISMRC_DestNotValid = 124"

text \<open>
  The fields of \<^verbatim>\<open>iettTopic_t\<close> that the analysis fills, with the capacities of the arrays. The arrays
  \<open>wildcards\<close> and \<open>multicards\<close> are \<open>None\<close> for NULL, when only the counts are wanted.
\<close>

record iettTopic_t =
  tp_initialArraySize :: nat
  tp_substrings :: "(nat \<times> string) list"
  tp_substrings_cap :: nat
  tp_substringHashes :: "u32 list"
  tp_substringHashes_cap :: nat
  tp_wildcards :: "(nat list \<times> nat) option"
  tp_multicards :: "(nat list \<times> nat) option"
  tp_wildcardCount :: nat
  tp_multicardCount :: nat
  tp_sysTopicEndIndex :: nat
  tp_allocs :: nat

text \<open>
  \<^verbatim>\<open>iett_resizeStringArray\<close> and \<^verbatim>\<open>iett_resizeUint32Array\<close>: the return code and the new capacity. The
  elements are copied.
\<close>

definition iett_resizeArray :: "bool \<Rightarrow> nat \<Rightarrow> nat \<Rightarrow> nat \<Rightarrow> int \<times> nat" where
  "iett_resizeArray malloc_ok cap elementCount initialElementCount =
     (if \<not> malloc_ok then (ISMRC_AllocateError, cap) else (OK, elementCount + initialElementCount))"

text \<open>
  Noting the position of a wildcard in its array, if there is one: the array, its count and the
  number of allocations made. A store out of bounds has no result.
\<close>

definition note_card ::
    "(nat \<Rightarrow> bool) \<Rightarrow> nat \<Rightarrow> nat \<Rightarrow> (nat list \<times> nat) option \<Rightarrow> nat \<Rightarrow> nat
       \<Rightarrow> (int \<times> (nat list \<times> nat) option \<times> nat \<times> nat) option" where
  "note_card alloc n prevPos arr count initialArraySize =
     (case arr of
        None \<Rightarrow> Some (OK, None, count + 1, n)
      | Some (ps, cap) \<Rightarrow>
          if cap \<le> count then None
          else if (count + 1) mod initialArraySize = 0 then
            let (rc, cap') = iett_resizeArray (alloc n) cap (count + 1) initialArraySize
            in Some (rc, Some (ps @ [prevPos], cap'), count + 1, n + 1)
          else Some (OK, Some (ps @ [prevPos], cap), count + 1, n))"

text \<open>
  The end of a substring: the wildcard arrays, then the two substring arrays; a return code that is
  not OK leaves the loop.
\<close>

definition end_cards :: "(nat \<Rightarrow> bool) \<Rightarrow> nat \<Rightarrow> string \<Rightarrow> iettTopic_t \<Rightarrow> (int \<times> iettTopic_t) option" where
  "end_cards alloc prevPos sub topic =
     (if sub = ''+'' then
        map_option (\<lambda>(rc, arr, count, n).
            (rc, topic\<lparr>tp_wildcards := arr, tp_wildcardCount := count, tp_allocs := n\<rparr>))
          (note_card alloc (tp_allocs topic) prevPos (tp_wildcards topic) (tp_wildcardCount topic)
             (tp_initialArraySize topic))
      else if sub = ''#'' then
        map_option (\<lambda>(rc, arr, count, n).
            (rc, topic\<lparr>tp_multicards := arr, tp_multicardCount := count, tp_allocs := n\<rparr>))
          (note_card alloc (tp_allocs topic) prevPos (tp_multicards topic) (tp_multicardCount topic)
             (tp_initialArraySize topic))
      else Some (OK, topic))"

definition end_arrays :: "(nat \<Rightarrow> bool) \<Rightarrow> nat \<Rightarrow> string \<Rightarrow> u32 \<Rightarrow> iettTopic_t \<Rightarrow> (int \<times> iettTopic_t) option" where
  "end_arrays alloc prevPos sub hash topic =
     (let count = length (tp_substrings topic); init = tp_initialArraySize topic; n = tp_allocs topic
      in if tp_substrings_cap topic \<le> count \<or> tp_substringHashes_cap topic \<le> count then None
         else
           let topic = topic\<lparr>tp_substrings := tp_substrings topic @ [(prevPos, sub)],
                             tp_substringHashes := tp_substringHashes topic @ [hash]\<rparr>
           in if (count + 1) mod init \<noteq> 0 then Some (OK, topic)
              else
                let (rc, cap) = iett_resizeArray (alloc n) (tp_substrings_cap topic) (count + 1) init
                in if rc \<noteq> OK then Some (rc, topic\<lparr>tp_allocs := n + 1\<rparr>)
                   else
                     let (rc, cap') = iett_resizeArray (alloc (n + 1)) (tp_substringHashes_cap topic) (count + 1) init
                     in Some (rc, topic\<lparr>tp_substrings_cap := cap, tp_substringHashes_cap := cap', tp_allocs := n + 2\<rparr>))"

definition iettTOPIC_IS_SYSTOPIC :: "string \<Rightarrow> bool" where
  "iettTOPIC_IS_SYSTOPIC topic \<longleftrightarrow> (case topic of c # _ \<Rightarrow> c = CHR ''$'' | [] \<Rightarrow> False)"

definition end_substring :: "(nat \<Rightarrow> bool) \<Rightarrow> nat \<Rightarrow> string \<Rightarrow> u32 \<Rightarrow> iettTopic_t \<Rightarrow> (int \<times> iettTopic_t) option" where
  "end_substring alloc prevPos sub hash topic =
     Option.bind (end_cards alloc prevPos sub topic) (\<lambda>(rc, topic).
       if rc \<noteq> OK then Some (rc, topic)
       else Option.bind (end_arrays alloc prevPos sub hash topic) (\<lambda>(rc, topic).
         if rc \<noteq> OK then Some (rc, topic)
         else Some (OK, if length (tp_substrings topic) = 1
                        then topic\<lparr>tp_sysTopicEndIndex := (if iettTOPIC_IS_SYSTOPIC sub then 1 else 0)\<rparr>
                        else topic)))"

text \<open>At the end of the string the sentinels are stored after the last element of each array.\<close>

definition end_string :: "iettTopic_t \<Rightarrow> (int \<times> iettTopic_t) option" where
  "end_string topic =
     (if tp_substrings_cap topic \<le> length (tp_substrings topic) \<or>
         (case tp_wildcards topic of None \<Rightarrow> False | Some (_, cap) \<Rightarrow> cap \<le> tp_wildcardCount topic) \<or>
         (case tp_multicards topic of None \<Rightarrow> False | Some (_, cap) \<Rightarrow> cap \<le> tp_multicardCount topic) then None
      else Some (if iettMAX_TOPIC_DEPTH < length (tp_substrings topic) then ISMRC_DestNotValid else OK, topic))"

text \<open>
  The loop, over the rest of the string: \<open>prevPos\<close> is the start of the current substring, \<open>sub\<close> the
  part of it already scanned.
\<close>

fun analyse_loop ::
    "(nat \<Rightarrow> bool) \<Rightarrow> nat \<Rightarrow> string \<Rightarrow> u32 \<Rightarrow> string \<Rightarrow> iettTopic_t \<Rightarrow> (int \<times> iettTopic_t) option" where
  "analyse_loop alloc prevPos sub hash [] topic =
     Option.bind (end_substring alloc prevPos sub hash topic) (\<lambda>(rc, topic).
       if rc \<noteq> OK then Some (rc, topic) else end_string topic)"
| "analyse_loop alloc prevPos sub hash (curChar # rest) topic =
     (if curChar = CHR ''/'' then
        Option.bind (end_substring alloc prevPos sub hash topic) (\<lambda>(rc, topic).
          if rc \<noteq> OK then Some (rc, topic)
          else analyse_loop alloc (prevPos + length sub + 1) [] 0 rest topic)
      else analyse_loop alloc prevPos (sub @ [curChar]) (iettINCREMENT_SUBSTRING_HASH hash curChar) rest topic)"

text \<open>A topic before its analysis, with the arrays of the initial size; those of the cards if \<open>cards\<close>.\<close>

definition new_topic :: "nat \<Rightarrow> bool \<Rightarrow> iettTopic_t" where
  "new_topic init cards = \<lparr>tp_initialArraySize = init, tp_substrings = [], tp_substrings_cap = init,
     tp_substringHashes = [], tp_substringHashes_cap = init,
     tp_wildcards = (if cards then Some ([], init) else None), tp_multicards = (if cards then Some ([], init) else None),
     tp_wildcardCount = 0, tp_multicardCount = 0, tp_sysTopicEndIndex = 0, tp_allocs = 0\<rparr>"

text \<open>
  \<open>analysed\<close>: the topic already has its copy. \<open>regex\<close> is given for a regular expression and says
  whether \<^verbatim>\<open>ism_regex_compile\<close> accepts it.
\<close>

definition iett_analyseTopicString ::
    "bool \<Rightarrow> (string \<Rightarrow> bool) option \<Rightarrow> bool \<Rightarrow> (nat \<Rightarrow> bool) \<Rightarrow> string \<Rightarrow> iettTopic_t \<Rightarrow> (int \<times> iettTopic_t) option" where
  "iett_analyseTopicString analysed regex copy_ok alloc topicString topic =
     (if analysed then Some (OK, topic)
      else if \<not> copy_ok then Some (ISMRC_AllocateError, topic)
      else case regex of
          Some compiles \<Rightarrow> Some (if compiles topicString then OK else ISMRC_InvalidParameter, topic)
        | None \<Rightarrow> analyse_loop alloc 0 [] 0 topicString topic)"

section \<open>Validation\<close>

datatype iettValidationType_t = iettVALIDATE_FOR_PUBLISH | iettVALIDATE_FOR_SUBSCRIBE | iettVALIDATE_FOR_TOPICMONITOR

text \<open>Whether the substring that has just ended is acceptable; \<open>isLast\<close> says that it is the last one.\<close>

definition validate_substring :: "iettValidationType_t \<Rightarrow> string \<Rightarrow> bool \<Rightarrow> bool" where
  "validate_substring validationType sub isLast =
     (if length sub = 1 \<and> validationType \<noteq> iettVALIDATE_FOR_SUBSCRIBE then
        if sub = ''+'' then False
        else if sub = ''#'' then \<not> (validationType = iettVALIDATE_FOR_PUBLISH \<or> \<not> isLast)
        else True
      else True)"

fun validate_loop :: "iettValidationType_t \<Rightarrow> nat \<Rightarrow> string \<Rightarrow> string \<Rightarrow> bool" where
  "validate_loop validationType curSubstringCount sub [] =
     (if \<not> validate_substring validationType sub True then False
      else if iettMAX_TOPIC_DEPTH < curSubstringCount + 1 then False
      else if validationType = iettVALIDATE_FOR_TOPICMONITOR then length sub = 1 \<and> sub = ''#''
      else True)"
| "validate_loop validationType curSubstringCount sub (curChar # rest) =
     (if curChar = CHR ''/'' then
        if \<not> validate_substring validationType sub False then False
        else validate_loop validationType (curSubstringCount + 1) [] rest
      else validate_loop validationType curSubstringCount (sub @ [curChar]) rest)"

definition iett_validateTopicString :: "string \<Rightarrow> iettValidationType_t \<Rightarrow> bool" where
  "iett_validateTopicString topicString validationType = validate_loop validationType 0 [] topicString"

section \<open>Levels\<close>

text \<open>The levels of a topic and, with each, the offset where it starts.\<close>

fun levels :: "string \<Rightarrow> string list" where
  "levels [] = [[]]"
| "levels (c # s) = (if c = CHR ''/'' then [] # levels s else (c # hd (levels s)) # tl (levels s))"

fun offsets :: "nat \<Rightarrow> string list \<Rightarrow> (nat \<times> string) list" where
  "offsets p [] = []"
| "offsets p (l # ls) = (p, l) # offsets (p + length l + 1) ls"

lemma levels_not_Nil [simp]: "levels s \<noteq> []"
  by (cases s) auto

lemma levels_append: "CHR ''/'' \<notin> set sub \<Longrightarrow> levels (sub @ s) = (sub @ hd (levels s)) # tl (levels s)"
  by (induction sub) auto

lemma levels_no_slash: "l \<in> set (levels s) \<Longrightarrow> CHR ''/'' \<notin> set l"
proof (induction s arbitrary: l)
  case (Cons c s)
  then show ?case by (cases "levels s") (auto split: if_splits)
qed simp

text \<open>Joining the levels gives the string back.\<close>

fun join :: "string list \<Rightarrow> string" where
  "join [] = []"
| "join [l] = l"
| "join (l # ls) = l @ CHR ''/'' # join ls"

lemma join_Cons: "ls \<noteq> [] \<Longrightarrow> join (l # ls) = l @ CHR ''/'' # join ls"
  by (cases ls) auto

lemma join_levels: "join (levels s) = s"
proof (induction s)
  case (Cons c s)
  obtain l ls where "levels s = l # ls" by (cases "levels s") auto
  then show ?case using Cons by (cases ls) (auto simp: join_Cons)
qed simp

lemma levels_join: "ls \<noteq> [] \<Longrightarrow> \<forall>l \<in> set ls. CHR ''/'' \<notin> set l \<Longrightarrow> levels (join ls) = ls"
proof (induction ls rule: join.induct)
  case (2 l)
  then show ?case using levels_append [of l "[]"] by simp
next
  case (3 l v vs)
  then show ?case using levels_append [of l "CHR ''/'' # join (v # vs)"] by simp
qed simp

lemma offsets_at: "(p, l) \<in> set (offsets q ls) \<Longrightarrow> take (length l) (drop (p - q) (join ls)) = l \<and> q \<le> p"
proof (induction q ls rule: offsets.induct)
  case (2 q l' ls)
  show ?case
  proof (cases "(p, l) = (q, l')")
    case True
    then show ?thesis by (cases ls) auto
  next
    case False
    then have "(p, l) \<in> set (offsets (q + length l' + 1) ls)" "ls \<noteq> []" using 2(2) by auto
    with 2(1) have IH: "take (length l) (drop (p - (q + length l' + 1)) (join ls)) = l" "q + length l' + 1 \<le> p" by auto
    obtain d where "p = q + length l' + 1 + d" using IH(2) by (auto simp: le_iff_add)
    then show ?thesis using IH \<open>ls \<noteq> []\<close> by (simp add: join_Cons)
  qed
qed simp

section \<open>The analysis, level by level\<close>

fun run_levels :: "(nat \<Rightarrow> bool) \<Rightarrow> nat \<Rightarrow> string list \<Rightarrow> iettTopic_t \<Rightarrow> (int \<times> iettTopic_t) option" where
  "run_levels alloc p [] topic = end_string topic"
| "run_levels alloc p (l # ls) topic =
     Option.bind (end_substring alloc p l (iett_generateSubstringHash l) topic) (\<lambda>(rc, topic).
       if rc \<noteq> OK then Some (rc, topic) else run_levels alloc (p + length l + 1) ls topic)"

lemma substring_hash_append:
  "CHR ''/'' \<notin> set sub \<Longrightarrow> substring_hash_loop h (sub @ s) = substring_hash_loop (substring_hash_loop h sub) s"
  by (induction sub arbitrary: h) auto

lemma analyse_loop_levels:
  "CHR ''/'' \<notin> set sub \<Longrightarrow>
    analyse_loop alloc p sub (iett_generateSubstringHash sub) s t = run_levels alloc p (levels (sub @ s)) t"
proof (induction s arbitrary: p sub t)
  case Nil
  then show ?case using levels_append [of sub "[]"] by (simp cong: if_cong)
next
  case (Cons c s)
  show ?case
  proof (cases "c = CHR ''/''")
    case True
    have lv: "levels (sub @ CHR ''/'' # s) = sub # levels s"
      using levels_append [OF Cons.prems, of "CHR ''/'' # s"] by simp
    have "analyse_loop alloc q [] 0 s t' = run_levels alloc q (levels s) t'" for q t'
      using Cons.IH [of "[]" q t'] by (simp add: iett_generateSubstringHash_def)
    then show ?thesis using True by (simp add: lv cong: if_cong)
  next
    case False
    then have "iettINCREMENT_SUBSTRING_HASH (iett_generateSubstringHash sub) c = iett_generateSubstringHash (sub @ [c])"
      using Cons.prems by (simp add: iett_generateSubstringHash_def substring_hash_append)
    then show ?thesis using Cons.IH [of "sub @ [c]" p t] Cons.prems False by simp
  qed
qed

text \<open>
  The capacities: each array has room for one more element than it holds, since it is enlarged as
  soon as it is full.
\<close>

definition cap_ok :: "nat \<Rightarrow> nat \<Rightarrow> nat \<Rightarrow> bool" where
  "cap_ok init count cap \<longleftrightarrow> cap = (count div init + 1) * init"

lemma cap_ok_less: "cap_ok init count cap \<Longrightarrow> 0 < init \<Longrightarrow> count < cap"
  unfolding cap_ok_def by (metis add.commute dividend_less_div_times plus_1_eq_Suc mult.commute mult_Suc)

lemma cap_ok_Suc:
  assumes "cap_ok init count cap" and "0 < init"
  shows "Suc count mod init \<noteq> 0 \<Longrightarrow> cap_ok init (Suc count) cap"
    and "Suc count mod init = 0 \<Longrightarrow> cap_ok init (Suc count) (Suc count + init)"
proof -
  show "cap_ok init (Suc count) cap" if "Suc count mod init \<noteq> 0"
    using assms that by (simp add: cap_ok_def div_Suc)
  show "cap_ok init (Suc count) (Suc count + init)" if "Suc count mod init = 0"
    using that by (auto simp: cap_ok_def dest: mod_0_imp_dvd)
qed

definition cards_ok :: "nat \<Rightarrow> (nat list \<times> nat) option \<Rightarrow> nat \<Rightarrow> bool" where
  "cards_ok init arr count \<longleftrightarrow> (case arr of None \<Rightarrow> True | Some (ps, cap) \<Rightarrow> length ps = count \<and> cap_ok init count cap)"

definition topic_ok :: "iettTopic_t \<Rightarrow> bool" where
  "topic_ok t \<longleftrightarrow> 0 < tp_initialArraySize t \<and>
     cap_ok (tp_initialArraySize t) (length (tp_substrings t)) (tp_substrings_cap t) \<and>
     cap_ok (tp_initialArraySize t) (length (tp_substrings t)) (tp_substringHashes_cap t) \<and>
     cards_ok (tp_initialArraySize t) (tp_wildcards t) (tp_wildcardCount t) \<and>
     cards_ok (tp_initialArraySize t) (tp_multicards t) (tp_multicardCount t)"

lemma topic_ok_sys [simp]: "topic_ok (t\<lparr>tp_sysTopicEndIndex := i\<rparr>) \<longleftrightarrow> topic_ok t"
  by (simp add: topic_ok_def)

lemma note_card_spec:
  assumes "cards_ok init arr count" and "0 < init"
  shows "\<exists>rc arr' n'. note_card alloc n p arr count init = Some (rc, arr', count + 1, n') \<and>
    map_option fst arr' = map_option (\<lambda>(ps, _). ps @ [p]) arr \<and>
    (if rc = OK then cards_ok init arr' (count + 1) else rc = ISMRC_AllocateError \<and> \<not> (\<forall>n. alloc n))"
proof (cases arr)
  case (Some a)
  obtain ps cap where a: "a = (ps, cap)" by (cases a)
  then have c: "length ps = count" "cap_ok init count cap" using assms(1) Some by (simp_all add: cards_ok_def)
  then show ?thesis using cap_ok_less [OF c(2) assms(2)] cap_ok_Suc [OF c(2) assms(2)] Some a
    by (auto simp: note_card_def iett_resizeArray_def cards_ok_def rc_defs)
qed (simp add: note_card_def cards_ok_def rc_defs)

text \<open>What the end of a level does to the topic, when it succeeds.\<close>

definition card_list :: "(nat list \<times> nat) option \<Rightarrow> nat list option" where
  "card_list arr = map_option fst arr"

definition level_added :: "nat \<Rightarrow> string \<Rightarrow> iettTopic_t \<Rightarrow> iettTopic_t \<Rightarrow> bool" where
  "level_added p l t t' \<longleftrightarrow> tp_initialArraySize t' = tp_initialArraySize t \<and>
     tp_substrings t' = tp_substrings t @ [(p, l)] \<and>
     tp_substringHashes t' = tp_substringHashes t @ [iett_generateSubstringHash l] \<and>
     card_list (tp_wildcards t') = map_option (\<lambda>ps. ps @ (if l = ''+'' then [p] else [])) (card_list (tp_wildcards t)) \<and>
     card_list (tp_multicards t') = map_option (\<lambda>ps. ps @ (if l = ''#'' then [p] else [])) (card_list (tp_multicards t)) \<and>
     tp_wildcardCount t' = tp_wildcardCount t + (if l = ''+'' then 1 else 0) \<and>
     tp_multicardCount t' = tp_multicardCount t + (if l = ''#'' then 1 else 0) \<and>
     tp_sysTopicEndIndex t' = (if tp_substrings t = [] then if iettTOPIC_IS_SYSTOPIC l then 1 else 0 else tp_sysTopicEndIndex t)"

lemma end_cards_spec:
  assumes "topic_ok t"
  obtains rc t' where "end_cards alloc p l t = Some (rc, t')"
    and "tp_substrings t' = tp_substrings t" and "tp_substringHashes t' = tp_substringHashes t"
    and "tp_initialArraySize t' = tp_initialArraySize t" and "tp_sysTopicEndIndex t' = tp_sysTopicEndIndex t"
    and "if rc = OK then topic_ok t' \<and>
      card_list (tp_wildcards t') = map_option (\<lambda>ps. ps @ (if l = ''+'' then [p] else [])) (card_list (tp_wildcards t)) \<and>
      card_list (tp_multicards t') = map_option (\<lambda>ps. ps @ (if l = ''#'' then [p] else [])) (card_list (tp_multicards t)) \<and>
      tp_wildcardCount t' = tp_wildcardCount t + (if l = ''+'' then 1 else 0) \<and>
      tp_multicardCount t' = tp_multicardCount t + (if l = ''#'' then 1 else 0)
     else rc = ISMRC_AllocateError \<and> \<not> (\<forall>n. alloc n)"
proof -
  note ok = assms [unfolded topic_ok_def]
  consider "l = ''+''" | "l = ''#''" | "l \<noteq> ''+''" "l \<noteq> ''#''" by blast
  then show thesis
  proof cases
    case 1
    obtain rc arr n where "note_card alloc (tp_allocs t) p (tp_wildcards t) (tp_wildcardCount t) (tp_initialArraySize t)
          = Some (rc, arr, tp_wildcardCount t + 1, n)" "map_option fst arr = map_option (\<lambda>(ps, _). ps @ [p]) (tp_wildcards t)"
        "if rc = OK then cards_ok (tp_initialArraySize t) arr (tp_wildcardCount t + 1) else rc = ISMRC_AllocateError \<and> \<not> (\<forall>n. alloc n)"
      using note_card_spec [of _ "tp_wildcards t" "tp_wildcardCount t" alloc "tp_allocs t" p] ok by blast
    then show thesis using 1 ok
      by (intro that [of rc "t\<lparr>tp_wildcards := arr, tp_wildcardCount := tp_wildcardCount t + 1, tp_allocs := n\<rparr>"])
        (auto simp: end_cards_def topic_ok_def card_list_def option.map_comp comp_def split_beta intro: option.map_cong)
  next
    case 2
    obtain rc arr n where "note_card alloc (tp_allocs t) p (tp_multicards t) (tp_multicardCount t) (tp_initialArraySize t)
          = Some (rc, arr, tp_multicardCount t + 1, n)" "map_option fst arr = map_option (\<lambda>(ps, _). ps @ [p]) (tp_multicards t)"
        "if rc = OK then cards_ok (tp_initialArraySize t) arr (tp_multicardCount t + 1) else rc = ISMRC_AllocateError \<and> \<not> (\<forall>n. alloc n)"
      using note_card_spec [of _ "tp_multicards t" "tp_multicardCount t" alloc "tp_allocs t" p] ok by blast
    then show thesis using 2 ok
      by (intro that [of rc "t\<lparr>tp_multicards := arr, tp_multicardCount := tp_multicardCount t + 1, tp_allocs := n\<rparr>"])
        (auto simp: end_cards_def topic_ok_def card_list_def option.map_comp comp_def split_beta intro: option.map_cong)
  next
    case 3
    then show thesis using assms
      by (intro that [of OK t]) (auto simp: end_cards_def card_list_def option.map_comp comp_def intro: option.map_id)
  qed
qed

lemma end_arrays_spec:
  assumes "topic_ok t"
  shows "\<exists>rc t'. end_arrays alloc p l h t = Some (rc, t') \<and>
    (if rc = OK then topic_ok t' \<and> tp_initialArraySize t' = tp_initialArraySize t \<and>
       tp_substrings t' = tp_substrings t @ [(p, l)] \<and> tp_substringHashes t' = tp_substringHashes t @ [h] \<and>
       tp_wildcards t' = tp_wildcards t \<and> tp_multicards t' = tp_multicards t \<and>
       tp_wildcardCount t' = tp_wildcardCount t \<and> tp_multicardCount t' = tp_multicardCount t \<and>
       tp_sysTopicEndIndex t' = tp_sysTopicEndIndex t
     else rc = ISMRC_AllocateError \<and> \<not> (\<forall>n. alloc n))"
proof -
  note ok = assms [unfolded topic_ok_def]
  let ?c = "length (tp_substrings t)" and ?i = "tp_initialArraySize t"
  have s: "cap_ok ?i ?c (tp_substrings_cap t)" and h: "cap_ok ?i ?c (tp_substringHashes_cap t)" and i: "0 < ?i"
    using ok by auto
  show ?thesis
    using cap_ok_less [OF s i] cap_ok_less [OF h i] cap_ok_Suc [OF s i] cap_ok_Suc [OF h i] ok
    by (auto simp: end_arrays_def Let_def iett_resizeArray_def topic_ok_def rc_defs)
qed

lemma end_substring_spec:
  assumes "topic_ok t"
  obtains rc t' where "end_substring alloc p l (iett_generateSubstringHash l) t = Some (rc, t')"
    and "if rc = OK then topic_ok t' \<and> level_added p l t t' else rc = ISMRC_AllocateError \<and> \<not> (\<forall>n. alloc n)"
proof -
  obtain rc1 t1 where c: "end_cards alloc p l t = Some (rc1, t1)"
    and same: "tp_substrings t1 = tp_substrings t" "tp_substringHashes t1 = tp_substringHashes t"
      "tp_initialArraySize t1 = tp_initialArraySize t" "tp_sysTopicEndIndex t1 = tp_sysTopicEndIndex t"
    and c1: "if rc1 = OK then topic_ok t1 \<and>
      card_list (tp_wildcards t1) = map_option (\<lambda>ps. ps @ (if l = ''+'' then [p] else [])) (card_list (tp_wildcards t)) \<and>
      card_list (tp_multicards t1) = map_option (\<lambda>ps. ps @ (if l = ''#'' then [p] else [])) (card_list (tp_multicards t)) \<and>
      tp_wildcardCount t1 = tp_wildcardCount t + (if l = ''+'' then 1 else 0) \<and>
      tp_multicardCount t1 = tp_multicardCount t + (if l = ''#'' then 1 else 0)
     else rc1 = ISMRC_AllocateError \<and> \<not> (\<forall>n. alloc n)"
    using end_cards_spec [OF assms, of alloc p l] .
  show thesis
  proof (cases "rc1 = OK")
    case True
    then have ok1: "topic_ok t1" using c1 by simp
    obtain rc2 t2 where a: "end_arrays alloc p l (iett_generateSubstringHash l) t1 = Some (rc2, t2)"
        "if rc2 = OK then topic_ok t2 \<and> tp_initialArraySize t2 = tp_initialArraySize t1 \<and>
           tp_substrings t2 = tp_substrings t1 @ [(p, l)] \<and>
           tp_substringHashes t2 = tp_substringHashes t1 @ [iett_generateSubstringHash l] \<and>
           tp_wildcards t2 = tp_wildcards t1 \<and> tp_multicards t2 = tp_multicards t1 \<and>
           tp_wildcardCount t2 = tp_wildcardCount t1 \<and> tp_multicardCount t2 = tp_multicardCount t1 \<and>
           tp_sysTopicEndIndex t2 = tp_sysTopicEndIndex t1
         else rc2 = ISMRC_AllocateError \<and> \<not> (\<forall>n. alloc n)"
      using end_arrays_spec [OF ok1, of alloc p l "iett_generateSubstringHash l"] by blast
    let ?t = "if length (tp_substrings t2) = 1
      then t2\<lparr>tp_sysTopicEndIndex := (if iettTOPIC_IS_SYSTOPIC l then 1 else 0)\<rparr> else t2"
    show thesis
    proof (cases "rc2 = OK")
      case ok2: True
      have "topic_ok ?t" using a(2) ok2 by simp
      moreover have "level_added p l t ?t" using a(2) ok2 c1 True same by (simp add: level_added_def)
      ultimately show thesis using c a ok2 True by (intro that [of OK ?t]) (auto simp: end_substring_def)
    next
      case False
      then show thesis using c a True by (intro that [of rc2 t2]) (auto simp: end_substring_def)
    qed
  next
    case False
    then show thesis using c c1 by (intro that [of rc1 t1]) (auto simp: end_substring_def)
  qed
qed

lemma end_string_spec:
  assumes "topic_ok t"
  shows "end_string t = Some (if iettMAX_TOPIC_DEPTH < length (tp_substrings t) then ISMRC_DestNotValid else OK, t)"
proof -
  note ok = assms [unfolded topic_ok_def cards_ok_def]
  have "tp_wildcardCount t < cap" if "tp_wildcards t = Some (ps, cap)" for ps cap
    using ok that by (auto intro: cap_ok_less)
  moreover have "tp_multicardCount t < cap" if "tp_multicards t = Some (ps, cap)" for ps cap
    using ok that by (auto intro: cap_ok_less)
  moreover have "length (tp_substrings t) < tp_substrings_cap t" using ok by (auto intro: cap_ok_less)
  ultimately show ?thesis by (force simp: end_string_def split: option.splits)
qed

text \<open>The analysis of all levels.\<close>

definition positions :: "string \<Rightarrow> (nat \<times> string) list \<Rightarrow> nat list" where
  "positions lvl os = map fst (filter (\<lambda>(_, l). l = lvl) os)"

lemma run_levels_spec:
  assumes "topic_ok t"
  shows "\<exists>rc t'. run_levels alloc p ls t = Some (rc, t') \<and>
    (if rc = OK \<or> rc = ISMRC_DestNotValid then
       (rc = OK) = (length (tp_substrings t) + length ls \<le> iettMAX_TOPIC_DEPTH) \<and>
       tp_substrings t' = tp_substrings t @ offsets p ls \<and>
       tp_substringHashes t' = tp_substringHashes t @ map iett_generateSubstringHash ls \<and>
       card_list (tp_wildcards t') = map_option (\<lambda>ps. ps @ positions ''+'' (offsets p ls)) (card_list (tp_wildcards t)) \<and>
       card_list (tp_multicards t') = map_option (\<lambda>ps. ps @ positions ''#'' (offsets p ls)) (card_list (tp_multicards t)) \<and>
       tp_wildcardCount t' = tp_wildcardCount t + length (filter ((=) ''+'') ls) \<and>
       tp_multicardCount t' = tp_multicardCount t + length (filter ((=) ''#'') ls) \<and>
       tp_sysTopicEndIndex t' = (if tp_substrings t = [] \<and> ls \<noteq> [] then if iettTOPIC_IS_SYSTOPIC (hd ls) then 1 else 0
         else tp_sysTopicEndIndex t)
     else rc = ISMRC_AllocateError \<and> \<not> (\<forall>n. alloc n))"
  using assms
proof (induction ls arbitrary: p t)
  case Nil
  then show ?case by (auto simp: end_string_spec positions_def rc_defs ISMRC_DestNotValid_def option.map_comp comp_def option.map_ident)
next
  case (Cons l ls)
  obtain rc t1 where e: "end_substring alloc p l (iett_generateSubstringHash l) t = Some (rc, t1)"
      "if rc = OK then topic_ok t1 \<and> level_added p l t t1 else rc = ISMRC_AllocateError \<and> \<not> (\<forall>n. alloc n)"
    using end_substring_spec [OF Cons.prems, of alloc p l] .
  show ?case
  proof (cases "rc = OK")
    case True
    then have "topic_ok t1" and la: "level_added p l t t1" using e(2) by auto
    from Cons.IH [OF this(1), of "p + length l + 1"] obtain rc' t' where
      "run_levels alloc (p + length l + 1) ls t1 = Some (rc', t')" by blast
    with Cons.IH [OF \<open>topic_ok t1\<close>, of "p + length l + 1"] la e(1) True show ?thesis
      by (intro exI [of _ rc'] exI [of _ t'])
        (auto simp: level_added_def positions_def option.map_comp comp_def split: if_splits)
  next
    case False
    then show ?thesis using e by (auto simp: rc_defs ISMRC_DestNotValid_def)
  qed
qed

section \<open>Validation, level by level\<close>

fun validate_levels :: "iettValidationType_t \<Rightarrow> nat \<Rightarrow> string list \<Rightarrow> bool" where
  "validate_levels ty n [] = True"
| "validate_levels ty n [l] = (validate_substring ty l True \<and> n + 1 \<le> iettMAX_TOPIC_DEPTH \<and>
     (ty = iettVALIDATE_FOR_TOPICMONITOR \<longrightarrow> l = ''#''))"
| "validate_levels ty n (l # ls) = (validate_substring ty l False \<and> validate_levels ty (n + 1) ls)"

lemma validate_loop_levels:
  "CHR ''/'' \<notin> set sub \<Longrightarrow> validate_loop ty n sub s = validate_levels ty n (levels (sub @ s))"
proof (induction s arbitrary: n sub)
  case Nil
  then show ?case using levels_append [of sub "[]"] by auto
next
  case (Cons c s)
  show ?case
  proof (cases "c = CHR ''/''")
    case True
    have "levels (sub @ CHR ''/'' # s) = sub # levels s" using levels_append [OF Cons.prems, of "CHR ''/'' # s"] by simp
    moreover have "validate_levels ty n (sub # levels s) = (validate_substring ty sub False \<and> validate_levels ty (n + 1) (levels s))"
      by (cases "levels s") auto
    ultimately show ?thesis using True Cons.IH [of "[]" "n + 1"] by simp
  next
    case False
    then show ?thesis using Cons.IH [of "sub @ [c]" n] Cons.prems by simp
  qed
qed

lemma validate_levels_iff:
  "ls \<noteq> [] \<Longrightarrow> validate_levels ty n ls \<longleftrightarrow> n + length ls \<le> iettMAX_TOPIC_DEPTH \<and>
    (case ty of iettVALIDATE_FOR_SUBSCRIBE \<Rightarrow> True
     | iettVALIDATE_FOR_PUBLISH \<Rightarrow> ''+'' \<notin> set ls \<and> ''#'' \<notin> set ls
     | iettVALIDATE_FOR_TOPICMONITOR \<Rightarrow> last ls = ''#'' \<and> ''#'' \<notin> set (butlast ls) \<and> ''+'' \<notin> set ls)"
proof (induction ty n ls rule: validate_levels.induct)
  case (2 ty n l)
  then show ?case by (cases ty) (auto simp: validate_substring_def)
next
  case (3 ty n l v vs)
  then show ?case by (cases ty) (auto simp: validate_substring_def)
qed simp

section \<open>Properties\<close>

text \<open>
  C9: For any outcomes of its allocations and any initial size of its arrays, the analysis of a topic
  string stores nothing past the end of an array and returns. When it does not run out of memory, it
  returns OK for at most 32 levels and \<^verbatim>\<open>ISMRC_DestNotValid\<close> for more, with the levels of the topic as
  substrings, their hashes, and exactly the positions and numbers of the single-level and multi-level
  wildcards; the system topic index is 1 if the topic starts with \<open>$\<close> and else 0.
\<close>

theorem analyse_correct:
  assumes "0 < init"
  shows "\<exists>rc t. iett_analyseTopicString False None copy_ok alloc s (new_topic init cards) = Some (rc, t) \<and>
    (if rc = ISMRC_AllocateError then \<not> (copy_ok \<and> (\<forall>n. alloc n))
     else rc = (if length (levels s) \<le> iettMAX_TOPIC_DEPTH then OK else ISMRC_DestNotValid) \<and>
       map snd (tp_substrings t) = levels s \<and>
       (\<forall>(p, l) \<in> set (tp_substrings t). take (length l) (drop p s) = l) \<and>
       tp_substringHashes t = map iett_generateSubstringHash (levels s) \<and>
       (cards \<longrightarrow> map_option fst (tp_wildcards t) = Some (positions ''+'' (tp_substrings t)) \<and>
                  map_option fst (tp_multicards t) = Some (positions ''#'' (tp_substrings t))) \<and>
       tp_wildcardCount t = length (filter ((=) ''+'') (levels s)) \<and>
       tp_multicardCount t = length (filter ((=) ''#'') (levels s)) \<and>
       tp_sysTopicEndIndex t = (if iettTOPIC_IS_SYSTOPIC (hd (levels s)) then 1 else 0))"
proof (cases copy_ok)
  case True
  have "topic_ok (new_topic init cards)" using assms by (simp add: topic_ok_def new_topic_def cap_ok_def cards_ok_def)
  note run = run_levels_spec [OF this, of alloc 0 "levels s"]
  have eq: "iett_analyseTopicString False None copy_ok alloc s (new_topic init cards) = run_levels alloc 0 (levels s) (new_topic init cards)"
    using analyse_loop_levels [of "[]" alloc 0 s "new_topic init cards"] True
    by (simp add: iett_analyseTopicString_def iett_generateSubstringHash_def)
  have snd: "map snd (offsets p ls) = ls" for p ls by (induction p ls rule: offsets.induct) auto
  have at: "\<forall>(p, l) \<in> set (offsets 0 (levels s)). take (length l) (drop p s) = l"
    using offsets_at [of _ _ 0 "levels s"] by (auto simp: join_levels)
  obtain rc t where rt: "run_levels alloc 0 (levels s) (new_topic init cards) = Some (rc, t)" using run by blast
  show ?thesis
  proof (cases "rc = OK \<or> rc = ISMRC_DestNotValid")
    case True
    then show ?thesis using run [unfolded rt] at unfolding eq rt
      by (intro exI [of _ rc] exI [of _ t])
        (auto simp: new_topic_def rc_defs ISMRC_DestNotValid_def snd card_list_def)
  next
    case False
    then show ?thesis using run [unfolded rt] unfolding eq rt by auto
  qed
qed (simp add: iett_analyseTopicString_def)

theorem analyse_witness:
  "\<exists>rc t. iett_analyseTopicString False None True (\<lambda>_. True) ''$S/+/#'' (new_topic 2 True) = Some (rc, t) \<and> rc = OK \<and>
    map snd (tp_substrings t) = [''$S'', ''+'', ''#''] \<and> tp_sysTopicEndIndex t = 1 \<and> tp_wildcardCount t = 1"
  using analyse_correct [of 2 True "\<lambda>_. True" "''$S/+/#''" True]
  by (auto simp: iettMAX_TOPIC_DEPTH_def rc_defs iettTOPIC_IS_SYSTOPIC_def split: if_splits)

text \<open>
  C26: A topic string is valid for subscribing if it has at most 32 levels; for publishing if moreover no
  level is a wildcard; for a topic monitor if moreover its last level is the multi-level wildcard,
  no other level is one and none is a single-level wildcard.
\<close>

theorem validate_correct:
  "iett_validateTopicString s ty \<longleftrightarrow> length (levels s) \<le> iettMAX_TOPIC_DEPTH \<and>
    (case ty of iettVALIDATE_FOR_SUBSCRIBE \<Rightarrow> True
     | iettVALIDATE_FOR_PUBLISH \<Rightarrow> ''+'' \<notin> set (levels s) \<and> ''#'' \<notin> set (levels s)
     | iettVALIDATE_FOR_TOPICMONITOR \<Rightarrow>
         last (levels s) = ''#'' \<and> ''#'' \<notin> set (butlast (levels s)) \<and> ''+'' \<notin> set (levels s))"
  using validate_loop_levels [of "[]" ty 0 s] validate_levels_iff [of "levels s" ty 0]
  by (simp add: iett_validateTopicString_def)

end
