(* ===== verification/SubsTree.thy ===== *)
theory SubsTree
  imports EngineHashTable TopicString "HOL-Library.Monad_Syntax"
begin

text \<open>
  The tree of subscriptions of the engine, \<^verbatim>\<open>src/server_engine/src/topicTree.c\<close>: finding and inserting the node of a topic filter,
  the list of subscriptions at a node, and the search for the nodes that match the topic of a message.

  A pointer to a node is its index in the list of all nodes, so that a new node is appended; the root has index 0. A node has a hash table
  of children for literal levels and a pointer for each of the two wildcards. \<open>None\<close> as a result is undefined behaviour, a failed
  assertion or too little fuel for a recursion over the tree. Outcomes of allocations are arguments.
\<close>

section \<open>Data\<close>

definition iettNODE_FLAG_NORMAL :: u32 where "iettNODE_FLAG_NORMAL = 0"
definition iettNODE_FLAG_WILDCARD :: u32 where "iettNODE_FLAG_WILDCARD = 0x1"
definition iettNODE_FLAG_MULTICARD :: u32 where "iettNODE_FLAG_MULTICARD = 0x2"
definition iettNODE_FLAG_TREE_ROOT :: u32 where "iettNODE_FLAG_TREE_ROOT = 0x4"
definition iettNODE_FLAG_TYPE_MASK :: u32 where "iettNODE_FLAG_TYPE_MASK = 0x17"
definition iettNODE_FLAG_BRANCH_WILD_OR_MULTI :: u32 where "iettNODE_FLAG_BRANCH_WILD_OR_MULTI = 0x10000000"
definition iettNODE_FLAG_BRANCH_MULTIMULTI :: u32 where "iettNODE_FLAG_BRANCH_MULTIMULTI = 0x20000000"
definition iettNODE_FLAG_BRANCH_SYSTOPIC :: u32 where "iettNODE_FLAG_BRANCH_SYSTOPIC = 0x40000000"

lemmas iettNODE_FLAG_defs = iettNODE_FLAG_NORMAL_def iettNODE_FLAG_WILDCARD_def iettNODE_FLAG_MULTICARD_def iettNODE_FLAG_TREE_ROOT_def
  iettNODE_FLAG_TYPE_MASK_def iettNODE_FLAG_BRANCH_WILD_OR_MULTI_def iettNODE_FLAG_BRANCH_MULTIMULTI_def iettNODE_FLAG_BRANCH_SYSTOPIC_def

definition iettINITIAL_SUBSCRIBER_ARRAY_CAPACITY :: u32 where "iettINITIAL_SUBSCRIBER_ARRAY_CAPACITY = 10"
definition iettINITIAL_SUBSCRIBER_NODE_CAPACITY :: u32 where "iettINITIAL_SUBSCRIBER_NODE_CAPACITY = 2"
definition iettNODE_LOADINGFACTOR_HIGH_WATER :: u32 where "iettNODE_LOADINGFACTOR_HIGH_WATER = 5"
definition iettNODE_CAPACITY_INCREMENT_FACTOR :: u32 where "iettNODE_CAPACITY_INCREMENT_FACTOR = 10"
definition iettFIND_SUBSCRIBER_RESULTS_INCREMENT :: nat where "iettFIND_SUBSCRIBER_RESULTS_INCREMENT = 20"
definition iettDEFAULT_SUBSTRING_ARRAY_SIZE :: nat where "iettDEFAULT_SUBSTRING_ARRAY_SIZE = iettMAX_TOPIC_DEPTH + 2"
definition ieutFLAG_DUPLICATE_NONE :: u32 where "ieutFLAG_DUPLICATE_NONE = 0"

datatype iettOP = iettOP_ADD | iettOP_FIND

text \<open>The subscriptions in a list, without the NULL behind the last one, and the capacity; a subscription is a number.\<close>

record iettSubscriptionList_t =
  sl_list :: "nat list"
  sl_max :: u32

text \<open>The fields of a node that the operations use; \<open>sn_stats\<close> says that statistics are collected at the node.\<close>

record iettSubsNode_t =
  sn_nodeFlags :: u32
  sn_topicString :: "string option"
  sn_children :: "nat ieutHashTable_t option"
  sn_wildcardChild :: "nat option"
  sn_multicardChild :: "nat option"
  sn_parent :: "nat option"
  sn_stats :: bool
  sn_activeSubs :: iettSubscriptionList_t
  sn_totalSubsCount :: u32
  sn_activeSelection :: u32
  sn_activeCluster :: u32

type_synonym subs_nodes = "iettSubsNode_t list"

text \<open>The tree and what the engine keeps for each subscription: its index in the list of its node, and the node.\<close>

record iettTopicTree_t =
  tt_nodes :: subs_nodes
  tt_multiMultiSubs :: u64
  tt_subsUpdates :: u64
  tt_subscriptions :: "nat list"
  tt_nodeListIndex :: "nat \<Rightarrow> u32"
  tt_node :: "nat \<Rightarrow> nat option"

definition empty_node :: iettSubsNode_t where
  "empty_node = \<lparr>sn_nodeFlags = 0, sn_topicString = None, sn_children = None, sn_wildcardChild = None, sn_multicardChild = None, sn_parent = None,
     sn_stats = False, sn_activeSubs = \<lparr>sl_list = [], sl_max = 0\<rparr>, sn_totalSubsCount = 0, sn_activeSelection = 0, sn_activeCluster = 0\<rparr>"

definition iett_createTopicTree :: iettTopicTree_t where
  "iett_createTopicTree = \<lparr>tt_nodes = [empty_node\<lparr>sn_nodeFlags := iettNODE_FLAG_TREE_ROOT\<rparr>], tt_multiMultiSubs = 0, tt_subsUpdates = 1,
     tt_subscriptions = [], tt_nodeListIndex = (\<lambda>_. 0xFFFFFFFF), tt_node = (\<lambda>_. None)\<rparr>"

section \<open>Inserting and finding a node\<close>

text \<open>
  \<^verbatim>\<open>iett_insertOrFindSubsNode\<close>. The child of \<open>parent\<close> for a level, by the type of the level: NULL for no child.
\<close>

definition find_child :: "u32 \<Rightarrow> string \<Rightarrow> u32 \<Rightarrow> iettSubsNode_t \<Rightarrow> nat option option" where
  "find_child nodeFlags substring substringHash parent =
     (if nodeFlags = iettNODE_FLAG_WILDCARD then Some (sn_wildcardChild parent)
      else if nodeFlags = iettNODE_FLAG_MULTICARD then Some (sn_multicardChild parent)
      else case sn_children parent of
          None \<Rightarrow> Some None
        | Some children \<Rightarrow>
            do { (rc, localNode) \<leftarrow> ieut_getHashEntry children (StringKey substring) substringHash;
                 Some (if rc = ISMRC_NotFound then None else localNode) })"

text \<open>
  The table for the children of a node, created or enlarged if needed: the return code and the table, which is in use whatever the code is.
  The outcomes of the allocations are \<open>alloc 1\<close>, \<open>alloc 2\<close> for a new table and \<open>alloc 3\<close>, \<open>alloc (5 + n)\<close> for the resized one.
\<close>

definition children_table :: "(nat \<Rightarrow> bool) \<Rightarrow> nat ieutHashTable_t option \<Rightarrow> (int \<times> nat ieutHashTable_t option) option" where
  "children_table alloc children = (case children of
       None \<Rightarrow> Some (ieut_createHashTable (alloc 1) (alloc 2) iettINITIAL_SUBSCRIBER_NODE_CAPACITY)
     | Some table \<Rightarrow>
         if ucast (ht_capacity table * (iettNODE_LOADINGFACTOR_HIGH_WATER - 1)) < ht_totalCount table then
           do { (rc, table) \<leftarrow> ieut_resizeHashTable (alloc 3) (\<lambda>n. alloc (5 + n)) table (sint (ht_capacity table * iettNODE_CAPACITY_INCREMENT_FACTOR));
                Some (rc, Some table) }
         else Some (OK, Some table))"

text \<open>The flags of a new node: its type and what is on its branch.\<close>

definition new_flags :: "u32 \<Rightarrow> nat \<Rightarrow> nat \<Rightarrow> nat \<Rightarrow> u32" where
  "new_flags nodeFlags wildcardsSeen multicardsSeen sysTopicEndIndex =
     nodeFlags OR (if 1 < multicardsSeen then iettNODE_FLAG_BRANCH_MULTIMULTI else 0)
       OR (if wildcardsSeen \<noteq> 0 \<or> multicardsSeen \<noteq> 0 then iettNODE_FLAG_BRANCH_WILD_OR_MULTI else 0)
       OR (if sysTopicEndIndex \<noteq> 0 then iettNODE_FLAG_BRANCH_SYSTOPIC else 0)"

text \<open>
  A new node below \<open>parent\<close>, index \<open>p\<close>: the return code and the nodes. A node that cannot be linked is freed; \<open>alloc 0\<close> is the outcome of the
  allocation of the node, \<open>alloc 4\<close> that in the chain of the table.
\<close>

definition add_child :: "(nat \<Rightarrow> bool) \<Rightarrow> u32 \<Rightarrow> u32 \<Rightarrow> string \<Rightarrow> u32 \<Rightarrow> nat \<Rightarrow> subs_nodes \<Rightarrow> (int \<times> subs_nodes) option" where
  "add_child alloc nodeType nodeFlags substring substringHash p nodes =
     (let parent = nodes ! p;
          localNode = empty_node\<lparr>sn_nodeFlags := nodeFlags, sn_parent := Some p,
            sn_topicString := Some (case sn_topicString parent of None \<Rightarrow> substring | Some s \<Rightarrow> s @ ''/'' @ substring)\<rparr>;
          n = length nodes
      in if \<not> alloc 0 then Some (ISMRC_AllocateError, nodes)
         else if nodeType = iettNODE_FLAG_WILDCARD then Some (OK, nodes[p := parent\<lparr>sn_wildcardChild := Some n\<rparr>] @ [localNode])
         else if nodeType = iettNODE_FLAG_MULTICARD then Some (OK, nodes[p := parent\<lparr>sn_multicardChild := Some n\<rparr>] @ [localNode])
         else
           do { (rc, children) \<leftarrow> children_table alloc (sn_children parent);
                case children of
                  None \<Rightarrow> Some (rc, nodes)
                | Some table \<Rightarrow>
                    if rc \<noteq> OK then Some (rc, nodes[p := parent\<lparr>sn_children := Some table\<rparr>])
                    else do { (rc, table) \<leftarrow> ieut_putHashEntry True (alloc 4) True table ieutFLAG_DUPLICATE_NONE (StringKey substring) substringHash (Some n);
                              let nodes = nodes[p := parent\<lparr>sn_children := Some table\<rparr>];
                              Some (rc, if rc \<noteq> OK then nodes else nodes @ [localNode]) } })"

text \<open>
  The loop over the levels. \<open>wildcards\<close> and \<open>multicards\<close> are the rest of the positions in the topic string, compared with the position of the level;
  \<open>alloc i\<close> are the outcomes in the turn \<open>i\<close>. A failed insertion keeps the nodes inserted so far.
\<close>

fun insert_loop :: "(nat \<Rightarrow> nat \<Rightarrow> bool) \<Rightarrow> iettOP \<Rightarrow> nat \<Rightarrow> nat \<Rightarrow> ((nat \<times> string) \<times> u32) list \<Rightarrow> nat list \<Rightarrow> nat list \<Rightarrow> nat \<Rightarrow> nat \<Rightarrow> nat \<Rightarrow> subs_nodes
    \<Rightarrow> (int \<times> nat option \<times> subs_nodes) option" where
  "insert_loop alloc operation sysTopicEndIndex i [] wildcards multicards wildcardsSeen multicardsSeen p nodes = Some (OK, Some p, nodes)"
| "insert_loop alloc operation sysTopicEndIndex i (((pos, substring), substringHash) # rest) wildcards multicards wildcardsSeen multicardsSeen p nodes =
     (let isWild = (wildcards \<noteq> [] \<and> hd wildcards = pos);
          isMulti = (\<not> isWild \<and> multicards \<noteq> [] \<and> hd multicards = pos);
          wildcards = (if isWild then tl wildcards else wildcards);
          multicards = (if isMulti then tl multicards else multicards);
          wildcardsSeen = (if isWild then wildcardsSeen + 1 else wildcardsSeen);
          multicardsSeen = (if isMulti then multicardsSeen + 1 else multicardsSeen);
          nodeType = (if isWild then iettNODE_FLAG_WILDCARD else if isMulti then iettNODE_FLAG_MULTICARD else iettNODE_FLAG_NORMAL)
      in if length nodes \<le> p then None
         else do { localNode \<leftarrow> find_child nodeType substring substringHash (nodes ! p);
              case localNode of
                Some a \<Rightarrow> insert_loop alloc operation sysTopicEndIndex (i + 1) rest wildcards multicards wildcardsSeen multicardsSeen a nodes
              | None \<Rightarrow>
                  if operation = iettOP_FIND then Some (ISMRC_NotFound, None, nodes)
                  else do { (rc, nodes') \<leftarrow> add_child (alloc i) nodeType (new_flags nodeType wildcardsSeen multicardsSeen sysTopicEndIndex) substring substringHash p nodes;
                            if rc \<noteq> OK then Some (rc, None, nodes')
                            else insert_loop alloc operation sysTopicEndIndex (i + 1) rest wildcards multicards wildcardsSeen multicardsSeen (length nodes) nodes' } })"

definition iett_insertOrFindSubsNode :: "(nat \<Rightarrow> nat \<Rightarrow> bool) \<Rightarrow> iettTopic_t \<Rightarrow> iettOP \<Rightarrow> nat \<Rightarrow> subs_nodes \<Rightarrow> (int \<times> nat option \<times> subs_nodes) option" where
  "iett_insertOrFindSubsNode alloc topic operation parent nodes = (case (tp_wildcards topic, tp_multicards topic) of
       (Some (wildcards, _), Some (multicards, _)) \<Rightarrow>
         if tp_substrings topic = [] then None
         else insert_loop alloc operation (tp_sysTopicEndIndex topic) 0 (zip (tp_substrings topic) (tp_substringHashes topic)) wildcards multicards 0 0 parent nodes
     | _ \<Rightarrow> None)"

section \<open>The subscriptions at a node\<close>

text \<open>
  A list of capacity \<open>sl_max\<close> has one place more for the NULL behind the last entry. A subscription knows its index in the list;
  0xFFFFFFFF says that it is in none.
\<close>

definition iett_addSubscriptionToSubsNode :: "bool \<Rightarrow> nat \<Rightarrow> (nat \<Rightarrow> u32) \<Rightarrow> iettSubscriptionList_t \<Rightarrow> (int \<times> (nat \<Rightarrow> u32) \<times> iettSubscriptionList_t) option" where
  "iett_addSubscriptionToSubsNode alloc_ok subscription nodeListIndex subList =
     (let count = length (sl_list subList); full = (of_nat count = sl_max subList);
          newMax = (if \<not> full then sl_max subList else if sl_max subList = 0 then iettINITIAL_SUBSCRIBER_ARRAY_CAPACITY else sl_max subList * 2)
      in if full \<and> \<not> alloc_ok then Some (ISMRC_AllocateError, nodeListIndex, subList)
         else if nodeListIndex subscription \<noteq> 0xFFFFFFFF \<or> unat newMax \<le> count then None
         else Some (OK, nodeListIndex(subscription := of_nat count), \<lparr>sl_list = sl_list subList @ [subscription], sl_max = newMax\<rparr>))"

fun linear_search :: "nat \<Rightarrow> nat list \<Rightarrow> nat option" where
  "linear_search subscription [] = None"
| "linear_search subscription (x # xs) = (if x = subscription then Some 0 else map_option Suc (linear_search subscription xs))"

definition iett_removeSubscriptionFromSubsNode :: "nat \<Rightarrow> (nat \<Rightarrow> u32) \<Rightarrow> iettSubscriptionList_t \<Rightarrow> int \<times> (nat \<Rightarrow> u32) \<times> iettSubscriptionList_t" where
  "iett_removeSubscriptionFromSubsNode subscription nodeListIndex subList =
     (let xs = sl_list subList; end = length xs; middle = unat (nodeListIndex subscription)
      in case (if middle < end \<and> xs ! middle = subscription then Some middle else linear_search subscription xs) of
           None \<Rightarrow> (ISMRC_NotFound, nodeListIndex, subList)
         | Some middle \<Rightarrow>
             let moved = xs ! (end - 1);
                 (xs, nodeListIndex) = (if 1 < end then (xs[middle := moved], nodeListIndex(moved := of_nat middle)) else (xs, nodeListIndex))
             in (OK, nodeListIndex(subscription := 0xFFFFFFFF),
                 \<lparr>sl_list = take (end - 1) xs, sl_max = (if end - 1 = 0 then 0 else sl_max subList)\<rparr>))"

text \<open>
  A new subscription in the tree: \<^verbatim>\<open>iett_addSubToEngineTopic\<close> as it runs in recovery for a subscription without a name, with
  \<^verbatim>\<open>iett_addActiveSubscriptionToSubsNode\<close>. The attributes of the subscription are arguments: \<open>cluster\<close>, whether it is shared with the
  cluster; \<open>selection\<close>, how many of the two kinds of selection apply. The statistics of the server and of resource sets are left out.
\<close>

fun count_up :: "nat \<Rightarrow> nat \<Rightarrow> subs_nodes \<Rightarrow> subs_nodes option" where
  "count_up 0 a nodes = None"
| "count_up (Suc fuel) a nodes =
     (if length nodes \<le> a then None
      else let node = nodes ! a; nodes = nodes[a := node\<lparr>sn_totalSubsCount := sn_totalSubsCount node + 1\<rparr>]
           in case sn_parent node of None \<Rightarrow> Some nodes | Some p \<Rightarrow> count_up fuel p nodes)"

definition add_to_node :: "bool \<Rightarrow> nat \<Rightarrow> bool \<Rightarrow> u32 \<Rightarrow> nat \<Rightarrow> iettTopicTree_t \<Rightarrow> (int \<times> iettTopicTree_t) option" where
  "add_to_node alloc_ok subscription cluster selection a tree =
     (let node = tt_nodes tree ! a
      in if length (tt_nodes tree) \<le> a then None
         else do { (rc, index, subList) \<leftarrow> iett_addSubscriptionToSubsNode alloc_ok subscription (tt_nodeListIndex tree) (sn_activeSubs node);
              if rc \<noteq> OK then Some (rc, tree)
              else do { nodes \<leftarrow> count_up (iettMAX_TOPIC_DEPTH + 2) a ((tt_nodes tree)[a := node\<lparr>sn_activeSubs := subList,
                          sn_activeCluster := sn_activeCluster node + (if cluster then 1 else 0), sn_activeSelection := sn_activeSelection node + selection\<rparr>]);
                   Some (OK, tree\<lparr>tt_nodes := nodes, tt_nodeListIndex := index, tt_node := (tt_node tree)(subscription := Some a),
                     tt_subscriptions := subscription # tt_subscriptions tree,
                     tt_multiMultiSubs := (if sn_nodeFlags node AND iettNODE_FLAG_BRANCH_MULTIMULTI \<noteq> 0 then tt_multiMultiSubs tree + 1 else tt_multiMultiSubs tree),
                     tt_subsUpdates := tt_subsUpdates tree + 1\<rparr>) } })"

definition iett_addSubToEngineTopic :: "(nat \<Rightarrow> bool) \<Rightarrow> (nat \<Rightarrow> nat \<Rightarrow> bool) \<Rightarrow> bool \<Rightarrow> string \<Rightarrow> nat \<Rightarrow> bool \<Rightarrow> u32 \<Rightarrow> iettTopicTree_t \<Rightarrow> (int \<times> iettTopicTree_t) option" where
  "iett_addSubToEngineTopic topic_alloc node_alloc list_ok topicString subscription cluster selection tree =
     do { (rc, topic) \<leftarrow> iett_analyseTopicString False None (topic_alloc 0) (\<lambda>n. topic_alloc (n + 1)) topicString (new_topic iettDEFAULT_SUBSTRING_ARRAY_SIZE True);
          if rc \<noteq> OK then Some (rc, tree)
          else do { (rc, node, nodes) \<leftarrow> iett_insertOrFindSubsNode node_alloc topic iettOP_ADD 0 (tt_nodes tree);
                    case node of
                      None \<Rightarrow> Some (rc, tree\<lparr>tt_nodes := nodes\<rparr>)
                    | Some a \<Rightarrow> add_to_node list_ok subscription cluster selection a (tree\<lparr>tt_nodes := nodes\<rparr>) } }"

section \<open>The nodes that match a topic\<close>

text \<open>
  The array of results: its entries, \<open>fo_max\<close> as the count of places, the places allocated, whether the pointer is NULL, and the number of allocations
  made so far.
\<close>

record found_nodes =
  fo_nodes :: "nat list"
  fo_max :: nat
  fo_cap :: nat
  fo_null :: bool
  fo_allocs :: nat

definition push_node :: "(nat \<Rightarrow> bool) \<Rightarrow> nat \<Rightarrow> found_nodes \<Rightarrow> (int \<times> found_nodes) option" where
  "push_node alloc a found =
     (let nodeCount = length (fo_nodes found)
      in if nodeCount = fo_max found then
           if \<not> alloc (fo_allocs found) then Some (ISMRC_AllocateError, found\<lparr>fo_allocs := fo_allocs found + 1\<rparr>)
           else let newMax = fo_max found + iettFIND_SUBSCRIBER_RESULTS_INCREMENT
                in Some (OK, found\<lparr>fo_nodes := fo_nodes found @ [a], fo_max := newMax, fo_cap := newMax, fo_null := False, fo_allocs := fo_allocs found + 1\<rparr>)
         else if fo_cap found \<le> nodeCount \<or> fo_null found then None
         else Some (OK, found\<lparr>fo_nodes := fo_nodes found @ [a]\<rparr>))"

text \<open>\<^verbatim>\<open>iett_addActiveSubsNodes\<close>; \<open>multi\<close> says that the first node is one for a multi-level wildcard.\<close>

fun add_active :: "(nat \<Rightarrow> bool) \<Rightarrow> subs_nodes \<Rightarrow> bool \<Rightarrow> nat \<Rightarrow> nat option \<Rightarrow> found_nodes \<Rightarrow> (int \<times> found_nodes) option" where
  "add_active alloc nodes multi fuel None found = Some (OK, found)"
| "add_active alloc nodes multi 0 (Some a) found = None"
| "add_active alloc nodes multi (Suc fuel) (Some a) found =
     (let node = nodes ! a
      in if length nodes \<le> a then None
         else do { (rc, found) \<leftarrow> (if sl_list (sn_activeSubs node) \<noteq> [] \<or> sn_stats node then push_node alloc a found else Some (OK, found));
                   if rc \<noteq> OK then Some (rc, found)
                   else if multi then Some (OK, found)
                   else add_active alloc nodes multi fuel (sn_multicardChild node) found })"

definition iett_addActiveSubsNodes :: "(nat \<Rightarrow> bool) \<Rightarrow> subs_nodes \<Rightarrow> nat \<Rightarrow> nat \<Rightarrow> found_nodes \<Rightarrow> (int \<times> found_nodes) option" where
  "iett_addActiveSubsNodes alloc nodes fuel a found =
     (if length nodes \<le> a then None
      else add_active alloc nodes (sn_nodeFlags (nodes ! a) AND iettNODE_FLAG_TYPE_MASK = iettNODE_FLAG_MULTICARD) fuel (Some a) found)"

text \<open>
  The duplicates are removed in the array: an entry is a node or the invalid address. \<open>mark_duplicates\<close> is the inner loop, from an index on.
\<close>

function mark_duplicates :: "nat \<Rightarrow> nat \<Rightarrow> nat option list \<Rightarrow> nat option list" where
  "mark_duplicates node j xs =
     (if j < length xs then mark_duplicates node (Suc j) (if xs ! j = Some node then xs[j := None] else xs) else xs)"
  by auto
termination
  by (relation "measure (\<lambda>(node, j, xs). length xs - j)") auto

declare mark_duplicates.simps [simp del]

lemma length_mark_duplicates [simp]: "length (mark_duplicates node j xs) = length xs"
  by (induction node j xs rule: mark_duplicates.induct) (subst mark_duplicates.simps, simp)

function remove_duplicates :: "nat \<Rightarrow> nat \<Rightarrow> nat option list \<Rightarrow> nat \<times> nat option list" where
  "remove_duplicates nodeIndex finalCount xs =
     (if nodeIndex < length xs then
        case xs ! nodeIndex of
          Some node \<Rightarrow> remove_duplicates (finalCount + 1) (finalCount + 1)
            (mark_duplicates node (Suc nodeIndex) (xs[nodeIndex := None, finalCount := Some node]))
        | None \<Rightarrow> remove_duplicates (Suc nodeIndex) finalCount xs
      else (finalCount, xs))"
  by auto
termination
  by (relation "measures [\<lambda>(nodeIndex, finalCount, xs). length xs - finalCount, \<lambda>(nodeIndex, finalCount, xs). length xs - nodeIndex]") auto

declare remove_duplicates.simps [simp del]

text \<open>
  The end of a search that started at level 0: on an error the results are given up; otherwise the array is terminated, which may need one more
  place, and the duplicates are removed if there are subscriptions with several multi-level wildcards.
\<close>

definition finish_search :: "(nat \<Rightarrow> bool) \<Rightarrow> bool \<Rightarrow> bool \<Rightarrow> int \<times> found_nodes \<Rightarrow> (int \<times> found_nodes) option" where
  "finish_search alloc cached multiMulti r =
     (let (rc, found) = r;
          giveUp = (\<lambda>found. (if cached then found\<lparr>fo_nodes := []\<rparr> else found\<lparr>fo_nodes := [], fo_null := True, fo_cap := 0\<rparr>));
          finalCount = length (fo_nodes found)
      in if fo_null found then Some r
         else if rc \<noteq> OK then Some (rc, giveUp found)
         else
           let full = (fo_max found = finalCount);
               found' = (if full then found\<lparr>fo_allocs := fo_allocs found + 1\<rparr> else found)
           in if full \<and> \<not> alloc (fo_allocs found) then Some (ISMRC_AllocateError, giveUp found')
              else
                let found = (if full then found'\<lparr>fo_cap := finalCount + 1\<rparr> else found')
                in if fo_cap found \<le> finalCount then None
                   else if multiMulti
                   then let (count, xs) = remove_duplicates 0 0 (map Some (fo_nodes found)) in Some (OK, found\<lparr>fo_nodes := map the (take count xs)\<rparr>)
                   else Some (OK, found))"

text \<open>
  \<^verbatim>\<open>iett_findMatchingSubsNodes\<close>. \<open>search\<close> is the recursive call, \<open>visit\<close> goes to a child that stands for the level \<open>curIndex\<close>; \<open>search_levels\<close> is the loop over
  the levels a multi-level wildcard can end before.
\<close>

definition visit :: "(nat \<Rightarrow> bool) \<Rightarrow> subs_nodes \<Rightarrow> iettTopic_t \<Rightarrow> nat \<Rightarrow> (nat \<Rightarrow> nat \<Rightarrow> found_nodes \<Rightarrow> (int \<times> found_nodes) option)
    \<Rightarrow> nat \<Rightarrow> nat \<Rightarrow> found_nodes \<Rightarrow> (int \<times> found_nodes) option" where
  "visit alloc nodes topic fuel search curIndex node found =
     (if curIndex + 1 = length (tp_substrings topic) then iett_addActiveSubsNodes alloc nodes fuel node found
      else search node (curIndex + 1) found)"

fun search_levels :: "(nat \<Rightarrow> found_nodes \<Rightarrow> (int \<times> found_nodes) option) \<Rightarrow> nat list \<Rightarrow> found_nodes \<Rightarrow> (int \<times> found_nodes) option" where
  "search_levels search [] found = Some (OK, found)"
| "search_levels search (index # rest) found =
     do { (rc, found) \<leftarrow> search index found; if rc \<noteq> OK then Some (rc, found) else search_levels search rest found }"

definition search_children :: "(nat \<Rightarrow> bool) \<Rightarrow> subs_nodes \<Rightarrow> iettTopic_t \<Rightarrow> nat \<Rightarrow> (nat \<Rightarrow> nat \<Rightarrow> found_nodes \<Rightarrow> (int \<times> found_nodes) option)
    \<Rightarrow> iettSubsNode_t \<Rightarrow> nat \<Rightarrow> found_nodes \<Rightarrow> (int \<times> found_nodes) option" where
  "search_children alloc nodes topic fuel search parent curIndex found = (case sn_children parent of
       None \<Rightarrow> Some (OK, found)
     | Some children \<Rightarrow>
         if length (tp_substrings topic) \<le> curIndex then None
         else do { (rc, node) \<leftarrow> ieut_getHashEntry children (StringKey (snd (tp_substrings topic ! curIndex))) (tp_substringHashes topic ! curIndex);
                   case node of None \<Rightarrow> Some (OK, found) | Some node \<Rightarrow> visit alloc nodes topic fuel search curIndex node found })"

definition search_wildcards :: "(nat \<Rightarrow> bool) \<Rightarrow> subs_nodes \<Rightarrow> iettTopic_t \<Rightarrow> nat \<Rightarrow> (nat \<Rightarrow> nat \<Rightarrow> found_nodes \<Rightarrow> (int \<times> found_nodes) option)
    \<Rightarrow> iettSubsNode_t \<Rightarrow> nat \<Rightarrow> found_nodes \<Rightarrow> (int \<times> found_nodes) option" where
  "search_wildcards alloc nodes topic fuel search parent curIndex found =
     do { (rc, found) \<leftarrow> (case sn_wildcardChild parent of None \<Rightarrow> Some (OK, found) | Some node \<Rightarrow> visit alloc nodes topic fuel search curIndex node found);
          if rc \<noteq> OK then Some (rc, found)
          else case sn_multicardChild parent of
              None \<Rightarrow> Some (OK, found)
            | Some node \<Rightarrow>
                do { (rc, found) \<leftarrow> iett_addActiveSubsNodes alloc nodes fuel node found;
                     if rc \<noteq> OK then Some (rc, found)
                     else search_levels (search node) (curIndex # [curIndex + 1..<length (tp_substrings topic)]) found } }"

fun iett_findMatchingSubsNodes :: "(nat \<Rightarrow> bool) \<Rightarrow> bool \<Rightarrow> bool \<Rightarrow> subs_nodes \<Rightarrow> iettTopic_t \<Rightarrow> nat \<Rightarrow> nat \<Rightarrow> nat \<Rightarrow> found_nodes
    \<Rightarrow> (int \<times> found_nodes) option" where
  "iett_findMatchingSubsNodes alloc cached multiMulti nodes topic 0 p curIndex found = None"
| "iett_findMatchingSubsNodes alloc cached multiMulti nodes topic (Suc fuel) p curIndex found =
     (let search = iett_findMatchingSubsNodes alloc cached multiMulti nodes topic fuel; parent = nodes ! p
      in if length nodes \<le> p then None
         else do { (rc, found) \<leftarrow> search_children alloc nodes topic fuel search parent curIndex found;
                   (rc, found) \<leftarrow> (if rc \<noteq> OK \<or> curIndex < tp_sysTopicEndIndex topic then Some (rc, found)
                                   else search_wildcards alloc nodes topic fuel search parent curIndex found);
                   if curIndex = 0 then finish_search alloc cached multiMulti (rc, found) else Some (rc, found) })"

text \<open>
  \<^verbatim>\<open>iett_getSubscriberList\<close> in a thread without a cache of lists, with a list that has no arrays yet: the return code and the list, which is empty
  after an error. The counts of the uses of a node, which only delay its removal, are left out. The assertions that the topic has no
  wildcard and that the count of updates is not 0 are checked; the latter when there is no subscriber.
\<close>

record iettSubscriberList_t =
  sb_subscriberNodes :: "nat list"
  sb_subscribers :: "nat list"
  sb_publishSUV :: u64
  sb_requestSelection :: bool

definition empty_list :: iettSubscriberList_t where
  "empty_list = \<lparr>sb_subscriberNodes = [], sb_subscribers = [], sb_publishSUV = 0, sb_requestSelection = False\<rparr>"

definition copy_subscribers :: "bool \<Rightarrow> iettTopicTree_t \<Rightarrow> nat list \<Rightarrow> (int \<times> iettSubscriberList_t) option" where
  "copy_subscribers list_ok tree subscriberNodes =
     (let nodes = map (\<lambda>a. tt_nodes tree ! a) subscriberNodes;
          subscribers = concat (map (\<lambda>node. sl_list (sn_activeSubs node)) nodes);
          activeSelection = sum_list (map sn_activeSelection nodes);
          subscriberList = empty_list\<lparr>sb_publishSUV := tt_subsUpdates tree\<rparr>
      in if subscriberNodes = [] then if tt_subsUpdates tree = 0 then None else Some (ISMRC_NotFound, subscriberList)
         else if subscribers = [] then Some (OK, subscriberList\<lparr>sb_subscriberNodes := subscriberNodes\<rparr>)
         else if \<not> list_ok then Some (ISMRC_AllocateError, empty_list)
         else Some (OK, subscriberList\<lparr>sb_subscriberNodes := subscriberNodes, sb_subscribers := subscribers, sb_requestSelection := (activeSelection \<noteq> 0)\<rparr>))"

definition iett_getSubscriberList :: "(nat \<Rightarrow> bool) \<Rightarrow> (nat \<Rightarrow> bool) \<Rightarrow> bool \<Rightarrow> string \<Rightarrow> iettTopicTree_t \<Rightarrow> (int \<times> iettSubscriberList_t) option" where
  "iett_getSubscriberList topic_alloc find_alloc list_ok topicString tree =
     do { (rc, topic) \<leftarrow> iett_analyseTopicString False None (topic_alloc 0) (\<lambda>n. topic_alloc (n + 1)) topicString (new_topic iettDEFAULT_SUBSTRING_ARRAY_SIZE False);
          if rc \<noteq> OK then Some (rc, empty_list)
          else if tp_wildcardCount topic \<noteq> 0 \<or> tp_multicardCount topic \<noteq> 0 then None
          else do { (rc, found) \<leftarrow> iett_findMatchingSubsNodes find_alloc False (tt_multiMultiSubs tree \<noteq> 0) (tt_nodes tree) topic (iettMAX_TOPIC_DEPTH + 1) 0 0
                      \<lparr>fo_nodes = [], fo_max = 0, fo_cap = 0, fo_null = True, fo_allocs = 0\<rparr>;
                    if rc \<noteq> OK then Some (rc, empty_list) else copy_subscribers list_ok tree (fo_nodes found) } }"

end
