(* ===== verification/TopicRouting.thy ===== *)
theory TopicRouting
  imports SubsTree "HOL-Library.Sublist"
begin

text \<open>
  A message goes to the subscriptions whose filter matches its topic. The tree of subscriptions is a map from paths, lists of levels, to nodes;
  inserting a filter adds the nodes on its path, and the search finds a node as many times as its path matches the topic in the way the search tries it,
  which is once unless the path has several multi-level wildcards.
\<close>

section \<open>Filters and topics\<close>

datatype level = Lit string | Plus | Hash

definition level_of :: "string \<Rightarrow> level" where
  "level_of s = (if s = ''+'' then Plus else if s = ''#'' then Hash else Lit s)"

text \<open>A filter matches the levels of a topic; a multi-level wildcard stands for any number of levels, also none and also inside the filter.\<close>

fun matches :: "level list \<Rightarrow> string list \<Rightarrow> bool" where
  "matches [] ts \<longleftrightarrow> ts = []"
| "matches (Lit l # fs) ts \<longleftrightarrow> (case ts of [] \<Rightarrow> False | t # ts \<Rightarrow> t = l \<and> matches fs ts)"
| "matches (Plus # fs) ts \<longleftrightarrow> (case ts of [] \<Rightarrow> False | t # ts \<Rightarrow> matches fs ts)"
| "matches (Hash # fs) ts \<longleftrightarrow> matches fs ts \<or> (case ts of [] \<Rightarrow> False | t # ts \<Rightarrow> matches (Hash # fs) ts)"

text \<open>No wildcard stands for the first level of a topic that begins with \<open>$\<close>.\<close>

definition filter_matches :: "string \<Rightarrow> string \<Rightarrow> bool" where
  "filter_matches fs t \<longleftrightarrow> matches (map level_of (levels fs)) (levels t) \<and>
     (iettTOPIC_IS_SYSTOPIC (hd (levels t)) \<longrightarrow> hd (levels fs) \<noteq> ''+'' \<and> hd (levels fs) \<noteq> ''#'')"

text \<open>How often the search finds the node with the path \<open>fs\<close>.\<close>

fun ways :: "level list \<Rightarrow> string list \<Rightarrow> nat" where
  "ways [] ts = (if ts = [] then 1 else 0)"
| "ways (Lit l # fs) ts = (case ts of [] \<Rightarrow> 0 | t # ts \<Rightarrow> if t = l then ways fs ts else 0)"
| "ways (Plus # fs) ts = (case ts of [] \<Rightarrow> 0 | t # ts \<Rightarrow> ways fs ts)"
| "ways (Hash # fs) ts = (if ts = [] then ways fs [] else (if fs = [] then 1 else 0) + (\<Sum>j<length ts. ways fs (drop j ts)))"

lemma matches_Hash: "matches (Hash # fs) ts \<longleftrightarrow> (\<exists>j \<le> length ts. matches fs (drop j ts))"
proof (induction ts)
  case (Cons t ts)
  have "(\<exists>j \<le> Suc (length ts). matches fs (drop j (t # ts))) \<longleftrightarrow> matches fs (t # ts) \<or> (\<exists>j \<le> length ts. matches fs (drop j ts))"
    by (metis Suc_le_mono drop0 drop_Suc_Cons not0_implies_Suc zero_le)
  then show ?case using Cons by simp
qed simp

lemma ways_Nil: "0 < ways fs [] \<longleftrightarrow> (\<forall>f \<in> set fs. f = Hash)"
proof (induction fs)
  case (Cons f fs)
  then show ?case by (cases f) auto
qed simp

lemma matches_Nil: "matches fs [] \<longleftrightarrow> (\<forall>f \<in> set fs. f = Hash)"
proof (induction fs)
  case (Cons f fs)
  then show ?case by (cases f) auto
qed simp

lemma matches_all_Hash: "\<forall>f \<in> set fs. f = Hash \<Longrightarrow> fs \<noteq> [] \<Longrightarrow> matches fs ts"
proof (induction fs)
  case (Cons f fs)
  show ?case
  proof (cases "fs = []")
    case True
    then show ?thesis using Cons.prems by (auto simp: matches_Hash intro!: exI [of _ "length ts"] simp del: matches.simps(4))
  next
    case False
    then show ?thesis using Cons by (auto simp: matches_Hash intro!: exI [of _ 0] simp del: matches.simps(4))
  qed
qed simp

lemma ways_pos: "0 < ways fs ts \<longleftrightarrow> matches fs ts"
proof (induction fs ts rule: ways.induct)
  case (4 fs ts)
  show ?case
  proof (cases "ts = []")
    case True
    then show ?thesis by (simp add: ways_Nil matches_Nil)
  next
    case False
    have "(\<exists>j < length ts. matches fs (drop j ts)) \<or> fs = [] \<longleftrightarrow> matches (Hash # fs) ts"
    proof
      assume "(\<exists>j < length ts. matches fs (drop j ts)) \<or> fs = []"
      then show "matches (Hash # fs) ts" unfolding matches_Hash by (metis drop_all less_imp_le_nat matches.simps(1) order_refl)
    next
      assume "matches (Hash # fs) ts"
      then obtain j where j: "j \<le> length ts" "matches fs (drop j ts)" unfolding matches_Hash by auto
      have "matches fs (drop 0 ts)" if "j = length ts" "fs \<noteq> []" using j(2) that matches_all_Hash [of fs] by (simp add: matches_Nil)
      then show "(\<exists>j < length ts. matches fs (drop j ts)) \<or> fs = []" using j False by (metis le_neq_implies_less length_greater_0_conv)
    qed
    moreover have "0 < ways (Hash # fs) ts \<longleftrightarrow> fs = [] \<or> (\<exists>j < length ts. 0 < ways fs (drop j ts))" using False by (auto simp flip: neq0_conv)
    ultimately show ?thesis using 4 False by auto
  qed
qed (simp_all split: list.split)

lemma ways_no_Hash: "Hash \<notin> set fs \<Longrightarrow> ways fs ts \<le> 1 \<and> (0 < ways fs ts \<longrightarrow> length ts = length fs)"
  by (induction fs ts rule: ways.induct) (auto split: list.split)

lemma sum_at_most_once:
  fixes f :: "nat \<Rightarrow> nat"
  assumes "\<And>j. j < n \<Longrightarrow> f j \<le> 1" and "\<And>j. j < n \<Longrightarrow> 0 < f j \<Longrightarrow> j = k"
  shows "(\<Sum>j<n. f j) \<le> 1"
proof -
  have "(\<Sum>j<n. f j) \<le> (\<Sum>j<n. if j = k then 1 else 0)" using assms by (intro sum_mono) (metis le_numeral_extra(3) lessThan_iff not_gr_zero)
  also have "\<dots> \<le> 1" by (simp add: sum.delta)
  finally show ?thesis .
qed

lemma ways_le_1: "count_list fs Hash \<le> 1 \<Longrightarrow> ways fs ts \<le> 1"
proof (induction fs ts rule: ways.induct)
  case (4 fs ts)
  then have no: "Hash \<notin> set fs" by (simp add: count_list_0_iff)
  show ?case
  proof (cases "ts = [] \<or> fs = []")
    case True
    then show ?thesis using ways_no_Hash [OF no, of "[]"] by auto
  next
    case False
    have "(\<Sum>j<length ts. ways fs (drop j ts)) \<le> 1"
    proof (rule sum_at_most_once)
      fix j assume j: "j < length ts"
      show "ways fs (drop j ts) \<le> 1" using ways_no_Hash [OF no, of "drop j ts"] by simp
      show "j = length ts - length fs" if "0 < ways fs (drop j ts)" using ways_no_Hash [OF no, of "drop j ts"] that j by auto
    qed
    then show ?thesis using False by simp
  qed
qed (auto split: list.split)

section \<open>Removing duplicates\<close>

lemma mark_duplicates_eq: "mark_duplicates node j xs = take j xs @ map (\<lambda>x. if x = Some node then None else x) (drop j xs)"
proof (induction node j xs rule: mark_duplicates.induct)
  case (1 node j xs)
  show ?case
  proof (cases "j < length xs")
    case True
    then have "drop j xs = xs ! j # drop (Suc j) xs" "take (Suc j) xs = take j xs @ [xs ! j]" by (simp_all add: Cons_nth_drop_Suc take_Suc_conv_app_nth)
    moreover have "take (Suc j) (xs[j := None]) = take j xs @ [None]" using True by (simp add: take_Suc_conv_app_nth)
    ultimately show ?thesis using 1 [OF True] True by (subst mark_duplicates.simps) simp
  next
    case False
    then show ?thesis by (subst mark_duplicates.simps) simp
  qed
qed

text \<open>
  The state of the outer loop: first the results, each once, then a gap of invalid entries, then the rest, in which no result occurs again.
\<close>

lemma remove_duplicates_spec:
  assumes "xs = map Some ds @ replicate g None @ ys" and "fc = length ds" and "ni = fc + g" and "distinct ds" and "\<forall>a \<in> set ds. Some a \<notin> set ys"
  shows "\<exists>fc' xs' es. remove_duplicates ni fc xs = (fc', xs') \<and> take fc' xs' = map Some es \<and> distinct es \<and> set es = set ds \<union> {a. Some a \<in> set ys}"
  using assms
proof (induction ni fc xs arbitrary: ds g ys rule: remove_duplicates.induct)
  case (1 ni fc xs)
  show ?case
  proof (cases ys)
    case Nil
    then show ?thesis using 1(3-6) by (subst remove_duplicates.simps) (auto simp: append_eq_append_conv2)
  next
    case (Cons y zs)
    have ni: "ni < length xs" "xs ! ni = y" using 1(3-5) Cons by (simp_all add: nth_append)
    show ?thesis
    proof (cases y)
      case None
      have "xs = map Some ds @ replicate (Suc g) None @ zs" using 1(3) Cons None by (simp add: replicate_append_same flip: replicate_Suc)
      from 1(1) [OF ni(1) _ this 1(4) _ 1(6)] show ?thesis using ni None 1(4,5,7) Cons by (subst remove_duplicates.simps) auto
    next
      case (Some a)
      let ?mark = "\<lambda>x. if x = Some a then None else x"
      have upd: "xs[ni := None, fc := Some a] = map Some (ds @ [a]) @ replicate g None @ zs"
      proof -
        have "xs[ni := None] = map Some ds @ (replicate g None @ [None]) @ zs" using 1(3-5) Cons by (simp add: list_update_append)
        then show ?thesis unfolding replicate_append_same using 1(4) by (simp add: list_update_append)
      qed
      then have "mark_duplicates a (Suc ni) (xs[ni := None, fc := Some a]) = map Some (ds @ [a]) @ replicate 0 None @ (replicate g None @ map ?mark zs)"
        using 1(4,5) unfolding upd mark_duplicates_eq by simp
      moreover have "distinct (ds @ [a])" "\<forall>b \<in> set (ds @ [a]). Some b \<notin> set (replicate g None @ map ?mark zs)" using 1(6,7) Cons Some by auto
      ultimately have "\<exists>fc' xs' es. remove_duplicates (fc + 1) (fc + 1) (mark_duplicates a (Suc ni) (xs[ni := None, fc := Some a])) = (fc', xs') \<and>
          take fc' xs' = map Some es \<and> distinct es \<and> set es = set (ds @ [a]) \<union> {b. Some b \<in> set (replicate g None @ map ?mark zs)}"
        using 1(2) [OF ni(1), of a "ds @ [a]" 0 "replicate g None @ map ?mark zs"] ni Some 1(4) by simp
      moreover have "set (ds @ [a]) \<union> {b. Some b \<in> set (replicate g None @ map ?mark zs)} = set ds \<union> {b. Some b \<in> set ys}" using Cons Some by (auto split: if_splits)
      ultimately show ?thesis using ni Some by (subst remove_duplicates.simps) simp
    qed
  qed
qed

lemma remove_duplicates_list:
  obtains fc xs where "remove_duplicates 0 0 (map Some ns) = (fc, xs)" and "distinct (map the (take fc xs))" and "set (map the (take fc xs)) = set ns"
proof -
  obtain fc xs es where r: "remove_duplicates 0 0 (map Some ns) = (fc, xs)" "take fc xs = map Some es" "distinct es" "set es = {a. Some a \<in> set (map Some ns)}"
    using remove_duplicates_spec [where xs = "map Some ns" and ds = "[]" and g = 0 and ys = "map Some ns" and fc = 0 and ni = 0] by auto
  have "map the (take fc xs) = es" using r(2) by (simp add: map_idI)
  moreover have "{a. Some a \<in> set (map Some ns)} = set ns" by auto
  ultimately show ?thesis using r by (intro that [OF r(1)]) simp_all
qed

section \<open>The tree as a map from paths to nodes\<close>

definition type_of :: "level list \<Rightarrow> u32" where
  "type_of fs = (if fs = [] then iettNODE_FLAG_TREE_ROOT else case last fs of Plus \<Rightarrow> iettNODE_FLAG_WILDCARD | Hash \<Rightarrow> iettNODE_FLAG_MULTICARD | Lit _ \<Rightarrow> iettNODE_FLAG_NORMAL)"

text \<open>The table of the children of a node with the path \<open>fs\<close>; it has fewer entries than there are nodes, and its capacity is in proportion.\<close>

definition table_ok :: "nat \<Rightarrow> (level list \<Rightarrow> nat option) \<Rightarrow> level list \<Rightarrow> nat ieutHashTable_t \<Rightarrow> bool" where
  "table_ok n P fs t \<longleftrightarrow> ht_inv 0 t \<and> (\<forall>s. ht_abs t (iett_generateSubstringHash s, StringKey s) = map_option Some (P (fs @ [Lit s]))) \<and>
     card (dom (ht_abs t)) < n \<and> unat (ht_capacity t) \<le> 2 + 3 * n"

definition node_ok :: "nat \<Rightarrow> (level list \<Rightarrow> nat option) \<Rightarrow> level list \<Rightarrow> iettSubsNode_t \<Rightarrow> bool" where
  "node_ok n P fs node \<longleftrightarrow> sn_wildcardChild node = P (fs @ [Plus]) \<and> sn_multicardChild node = P (fs @ [Hash]) \<and>
     (case sn_children node of None \<Rightarrow> \<forall>s. P (fs @ [Lit s]) = None | Some t \<Rightarrow> table_ok n P fs t) \<and>
     sn_nodeFlags node AND iettNODE_FLAG_TYPE_MASK = type_of fs \<and>
     (sn_nodeFlags node AND iettNODE_FLAG_BRANCH_MULTIMULTI \<noteq> 0 \<longleftrightarrow> 1 < count_list fs Hash) \<and>
     sn_parent node = (if fs = [] then None else P (butlast fs))"

definition tree_ok :: "subs_nodes \<Rightarrow> (level list \<Rightarrow> nat option) \<Rightarrow> bool" where
  "tree_ok nodes P \<longleftrightarrow> P [] = Some 0 \<and> (\<forall>fs x. P (fs @ [x]) \<noteq> None \<longrightarrow> P fs \<noteq> None) \<and>
     (\<forall>fs a. P fs = Some a \<longrightarrow> a < length nodes \<and> node_ok (length nodes) P fs (nodes ! a) \<and> length fs \<le> iettMAX_TOPIC_DEPTH) \<and>
     (\<forall>fs gs a. P fs = Some a \<and> P gs = Some a \<longrightarrow> fs = gs)"

lemma tree_okD:
  assumes "tree_ok nodes P" and "P fs = Some a"
  shows "a < length nodes" and "sn_wildcardChild (nodes ! a) = P (fs @ [Plus])" and "sn_multicardChild (nodes ! a) = P (fs @ [Hash])"
    and "sn_nodeFlags (nodes ! a) AND iettNODE_FLAG_TYPE_MASK = type_of fs" and "length fs \<le> iettMAX_TOPIC_DEPTH"
    and "sn_nodeFlags (nodes ! a) AND iettNODE_FLAG_BRANCH_MULTIMULTI \<noteq> 0 \<longleftrightarrow> 1 < count_list fs Hash"
    and "sn_parent (nodes ! a) = (if fs = [] then None else P (butlast fs))"
    and "case sn_children (nodes ! a) of None \<Rightarrow> \<forall>s. P (fs @ [Lit s]) = None | Some t \<Rightarrow> table_ok (length nodes) P fs t"
  using assms by (auto simp: tree_ok_def node_ok_def)

lemma tree_ok_inj: "tree_ok nodes P \<Longrightarrow> P fs = Some a \<Longrightarrow> P gs = Some a \<Longrightarrow> fs = gs"
  unfolding tree_ok_def by blast

lemma key_fits_StringKey [simp]: "key_fits 0 (StringKey s)"
  by (simp add: key_fits_def)

lemma getHashEntry_table:
  assumes "table_ok n P fs t"
  shows "ieut_getHashEntry t (StringKey s) (iett_generateSubstringHash s) = Some (case P (fs @ [Lit s]) of None \<Rightarrow> (ISMRC_NotFound, None) | Some a \<Rightarrow> (OK, Some a))"
  using assms getHashEntry_abs [of 0 t "StringKey s" "iett_generateSubstringHash s"] by (auto simp: table_ok_def split: option.splits)

section \<open>One step of the search\<close>

text \<open>
  \<open>adds multi a w\<close>: the node \<open>a\<close> is found \<open>w\<close> times more. Where duplicates are removed on the way, \<open>multi\<close>, only whether it is found counts.
  \<open>search_ok\<close>: a part of the search that ends, keeps the array sound and does so unless an allocation fails.
\<close>

definition found_ok :: "found_nodes \<Rightarrow> bool" where
  "found_ok f \<longleftrightarrow> length (fo_nodes f) \<le> fo_max f \<and> fo_max f \<le> fo_cap f \<and> (fo_null f \<longrightarrow> fo_max f = 0)"

definition adds :: "bool \<Rightarrow> nat \<Rightarrow> nat \<Rightarrow> found_nodes \<Rightarrow> found_nodes \<Rightarrow> bool" where
  "adds multi a w f f' \<longleftrightarrow> (a \<in> set (fo_nodes f') \<longleftrightarrow> a \<in> set (fo_nodes f) \<or> 0 < w) \<and>
     (\<not> multi \<longrightarrow> count_list (fo_nodes f') a = count_list (fo_nodes f) a + w)"

definition search_ok :: "(nat \<Rightarrow> bool) \<Rightarrow> bool \<Rightarrow> nat \<Rightarrow> nat \<Rightarrow> found_nodes \<Rightarrow> (int \<times> found_nodes) option \<Rightarrow> bool" where
  "search_ok alloc multi a w f r \<longleftrightarrow> (\<exists>rc f'. r = Some (rc, f') \<and>
     (rc = OK \<and> found_ok f' \<and> adds multi a w f f' \<or> rc = ISMRC_AllocateError \<and> \<not> (\<forall>n. alloc n)))"

lemma adds_refl [simp]: "adds multi a 0 f f"
  by (simp add: adds_def)

lemma adds_trans: "adds multi a v f f1 \<Longrightarrow> adds multi a w f1 f2 \<Longrightarrow> adds multi a (v + w) f f2"
  by (auto simp: adds_def)

lemma search_ok_return: "found_ok f \<Longrightarrow> search_ok alloc multi a 0 f (Some (OK, f))"
  by (simp add: search_ok_def)

lemma search_ok_bind:
  assumes "search_ok alloc multi a v f r" and "\<And>f'. found_ok f' \<Longrightarrow> search_ok alloc multi a w f' (g f')"
  shows "search_ok alloc multi a (v + w) f (Option.bind r (\<lambda>(rc, f'). if rc \<noteq> OK then Some (rc, f') else g f'))"
proof -
  obtain rc f' where r: "r = Some (rc, f')" "rc = OK \<and> found_ok f' \<and> adds multi a v f f' \<or> rc = ISMRC_AllocateError \<and> \<not> (\<forall>n. alloc n)"
    using assms(1) by (auto simp: search_ok_def)
  show ?thesis
  proof (cases "rc = OK")
    case True
    then have "found_ok f'" "adds multi a v f f'" using r(2) by (auto simp: rc_defs)
    then show ?thesis using assms(2) [of f'] True r(1) by (auto simp: search_ok_def intro: adds_trans)
  next
    case False
    then show ?thesis using r by (auto simp: search_ok_def rc_defs)
  qed
qed

lemma push_node_ok:
  assumes "found_ok f"
  shows "search_ok alloc multi a (if b = a then 1 else 0) f (push_node alloc b f)"
  using assms by (auto simp: push_node_def search_ok_def found_ok_def adds_def Let_def rc_defs iettFIND_SUBSCRIBER_RESULTS_INCREMENT_def)

section \<open>The search\<close>

definition is_active :: "subs_nodes \<Rightarrow> nat \<Rightarrow> bool" where
  "is_active nodes a \<longleftrightarrow> sl_list (sn_activeSubs (nodes ! a)) \<noteq> [] \<or> sn_stats (nodes ! a)"

text \<open>How often the node with the path \<open>p\<close>, active or not, is found below the node with the path \<open>fs\<close> for the levels \<open>ts\<close>.\<close>

definition weight :: "bool \<Rightarrow> level list \<Rightarrow> level list \<Rightarrow> string list \<Rightarrow> nat" where
  "weight act p fs ts = (if act \<and> prefix fs p then ways (drop (length fs) p) ts else 0)"

lemma ways_Nil_le: "ways fs [] = (if \<forall>f \<in> set fs. f = Hash then 1 else 0)"
proof (induction fs)
  case (Cons f fs)
  then show ?case by (cases f) auto
qed simp

lemma weight_split:
  "weight act p fs (t # ts) = weight act p (fs @ [Lit t]) ts + weight act p (fs @ [Plus]) ts +
     ((if act \<and> p = fs @ [Hash] then 1 else 0) + (\<Sum>j<Suc (length ts). weight act p (fs @ [Hash]) (drop j (t # ts))))"
proof (cases "act \<and> prefix fs p")
  case True
  then obtain gs where p: "p = fs @ gs" by (auto simp: prefix_def)
  show ?thesis
  proof (cases gs)
    case (Cons x hs)
    then show ?thesis using True p by (cases x) (simp_all add: weight_def)
  qed (use True p in \<open>simp add: weight_def\<close>)
next
  case False
  then have "weight act p (fs @ [x]) us = 0" for x us by (auto simp: weight_def prefix_def)
  then show ?thesis using False by (auto simp: weight_def)
qed

lemma prefix_closed:
  assumes "tree_ok nodes P" and "P p \<noteq> None" and "prefix fs p"
  shows "P fs \<noteq> None"
proof -
  have "P (fs @ gs) \<noteq> None \<Longrightarrow> P fs \<noteq> None" for gs
  proof (induction gs rule: rev_induct)
    case (snoc x gs)
    then show ?case using assms(1) unfolding tree_ok_def by (metis append_assoc)
  qed simp
  then show ?thesis using assms(2,3) by (auto simp: prefix_def)
qed

text \<open>The node \<open>a\<close> that the statements are about has the path \<open>p\<close>, or is not in the tree; it is found if it is in the tree and active.\<close>

definition target :: "subs_nodes \<Rightarrow> (level list \<Rightarrow> nat option) \<Rightarrow> level list \<Rightarrow> nat \<Rightarrow> bool" where
  "target nodes P p a \<longleftrightarrow> P p = Some a \<and> is_active nodes a"

lemma weight_None:
  assumes "tree_ok nodes P" and "P p = Some a \<or> a \<notin> ran P" and "P fs = None"
  shows "weight (target nodes P p a) p fs ts = 0"
  using prefix_closed [OF assms(1), of p fs] assms(3) by (auto simp: weight_def target_def)

lemma add_active_ok:
  assumes "tree_ok nodes P" and "P p = Some a \<or> a \<notin> ran P" and "P fs = Some b" and "iettMAX_TOPIC_DEPTH < fuel + length fs" and "found_ok f"
  shows "search_ok alloc m a (weight (target nodes P p a) p fs []) f (add_active alloc nodes False fuel (Some b) f)"
  using assms(3-5)
proof (induction fuel arbitrary: fs b f)
  case 0
  then show ?case using tree_okD(5) [OF assms(1) 0(1)] by simp
next
  case (Suc fuel)
  note b = tree_okD [OF assms(1) Suc.prems(1)]
  let ?v = "if target nodes P p a \<and> p = fs then 1 else 0 :: nat" and ?w = "weight (target nodes P p a) p (fs @ [Hash]) []"
  have w: "weight (target nodes P p a) p fs [] = ?v + ?w"
  proof (cases "target nodes P p a \<and> prefix fs p")
    case True
    then obtain gs where p: "p = fs @ gs" by (auto simp: prefix_def)
    show ?thesis
    proof (cases gs)
      case (Cons x hs)
      then show ?thesis using True p by (cases x) (simp_all add: weight_def)
    qed (use True p in \<open>simp add: weight_def\<close>)
  qed (auto simp: weight_def prefix_def)
  have "search_ok alloc m a ?v f (if sl_list (sn_activeSubs (nodes ! b)) \<noteq> [] \<or> sn_stats (nodes ! b) then push_node alloc b f else Some (OK, f))"
  proof (cases "b = a")
    case True
    then have "P p = Some a" "p = fs" using tree_ok_inj [OF assms(1)] assms(2) Suc.prems(1) by (auto intro: ranI)
    then show ?thesis using True push_node_ok [OF Suc.prems(3), of alloc m a b] Suc.prems(3) by (auto simp: target_def is_active_def search_ok_return)
  next
    case False
    then have "\<not> (target nodes P p a \<and> p = fs)" using Suc.prems(1) by (auto simp: target_def)
    then show ?thesis using False push_node_ok [OF Suc.prems(3), of alloc m a b] Suc.prems(3) by (auto simp: search_ok_return)
  qed
  moreover have "search_ok alloc m a ?w f' (add_active alloc nodes False fuel (sn_multicardChild (nodes ! b)) f')" if "found_ok f'" for f'
  proof (cases "P (fs @ [Hash])")
    case None
    then show ?thesis using weight_None [OF assms(1,2) None] b(3) that by (simp add: search_ok_return)
  next
    case (Some c)
    then show ?thesis using Suc.IH [OF Some _ that] Suc.prems(2) b(3) by simp
  qed
  ultimately have "search_ok alloc m a (?v + ?w) f (Option.bind (if sl_list (sn_activeSubs (nodes ! b)) \<noteq> [] \<or> sn_stats (nodes ! b) then push_node alloc b f else Some (OK, f))
      (\<lambda>(rc, f'). if rc \<noteq> OK then Some (rc, f') else add_active alloc nodes False fuel (sn_multicardChild (nodes ! b)) f'))"
    by (rule search_ok_bind)
  moreover have "add_active alloc nodes False (Suc fuel) (Some b) f =
      Option.bind (if sl_list (sn_activeSubs (nodes ! b)) \<noteq> [] \<or> sn_stats (nodes ! b) then push_node alloc b f else Some (OK, f))
      (\<lambda>(rc, f'). if rc \<noteq> OK then Some (rc, f') else add_active alloc nodes False fuel (sn_multicardChild (nodes ! b)) f')"
    using b(1) by (simp add: Let_def cong: if_cong)
  ultimately show ?case unfolding w by simp
qed

lemma add_active_multi_ok:
  assumes "tree_ok nodes P" and "P p = Some a \<or> a \<notin> ran P" and "P fs = Some b" and "0 < fuel" and "found_ok f"
  shows "search_ok alloc m a (if target nodes P p a \<and> p = fs then 1 else 0) f (add_active alloc nodes True fuel (Some b) f)"
proof -
  have "b = a \<longleftrightarrow> P p = Some a \<and> p = fs" using tree_ok_inj [OF assms(1)] assms(2,3) by (auto intro: ranI)
  moreover have "b < length nodes" by (rule tree_okD [OF assms(1,3)])
  moreover obtain k where "fuel = Suc k" using assms(4) by (cases fuel) auto
  moreover have "Option.bind r (\<lambda>(rc, f'). if rc \<noteq> OK then Some (rc, f') else Some (OK, f')) = r" for r :: "(int \<times> found_nodes) option"
    by (cases r) auto
  ultimately show ?thesis
    using push_node_ok [OF assms(5), of alloc m a b] search_ok_return [OF assms(5), of alloc m a] by (auto simp: target_def is_active_def Let_def cong: if_cong)
qed

lemma addActiveSubsNodes_ok:
  assumes "tree_ok nodes P" and "P p = Some a \<or> a \<notin> ran P" and "P fs = Some b" and "iettMAX_TOPIC_DEPTH < fuel + length fs" and "found_ok f" and "fs \<noteq> []"
  shows "search_ok alloc m a (if last fs = Hash then if target nodes P p a \<and> p = fs then 1 else 0 else weight (target nodes P p a) p fs []) f
    (iett_addActiveSubsNodes alloc nodes fuel b f)"
proof -
  have "(sn_nodeFlags (nodes ! b) AND iettNODE_FLAG_TYPE_MASK = iettNODE_FLAG_MULTICARD) = (last fs = Hash)"
    using tree_okD(4) [OF assms(1,3)] assms(6) by (simp add: type_of_def iettNODE_FLAG_defs split: level.split)
  moreover have "b < length nodes" "0 < fuel" using tree_okD(1,5) [OF assms(1,3)] assms(4) by auto
  ultimately show ?thesis
    using add_active_ok [OF assms(1-5)] add_active_multi_ok [OF assms(1-3) _ assms(5)] by (simp add: iett_addActiveSubsNodes_def)
qed

lemma finish_search_ok:
  assumes "search_ok alloc m a w f r"
  shows "search_ok alloc m a w f (Option.bind r (finish_search alloc cached m))"
proof -
  obtain rc f' where r: "r = Some (rc, f')" "rc = OK \<and> found_ok f' \<and> adds m a w f f' \<or> rc = ISMRC_AllocateError \<and> \<not> (\<forall>n. alloc n)"
    using assms by (auto simp: search_ok_def)
  show ?thesis
  proof (cases "rc = OK")
    case True
    then have f': "found_ok f'" "adds m a w f f'" using r(2) by (auto simp: rc_defs)
    show ?thesis
    proof (cases m)
      case False
      then show ?thesis using r(1) True f' by (auto simp: finish_search_def search_ok_def found_ok_def adds_def Let_def rc_defs)
    next
      case m: True
      obtain fc xs where dup: "remove_duplicates 0 0 (map Some (fo_nodes f')) = (fc, xs)" "set (map the (take fc xs)) = set (fo_nodes f')" "distinct (map the (take fc xs))"
        by (rule remove_duplicates_list)
      then have "length (map the (take fc xs)) \<le> length (fo_nodes f')" by (metis card_length distinct_card)
      then show ?thesis using r(1) True f' m dup(1,2) by (auto simp: finish_search_def search_ok_def found_ok_def adds_def Let_def rc_defs)
    qed
  next
    case False
    then show ?thesis using r by (auto simp: finish_search_def search_ok_def Let_def rc_defs)
  qed
qed

lemma finish_search_distinct:
  assumes "search_ok alloc m a w f r" and "Option.bind r (finish_search alloc cached True) = Some (OK, f')"
  shows "distinct (fo_nodes f')"
proof -
  obtain rc g where r: "r = Some (rc, g)" "rc = OK \<longrightarrow> found_ok g" using assms(1) by (auto simp: search_ok_def rc_defs)
  obtain fc xs where d: "remove_duplicates 0 0 (map Some (fo_nodes g)) = (fc, xs)" "distinct (map the (take fc xs))"
    by (rule remove_duplicates_list [of "fo_nodes g"])
  show ?thesis
  proof (cases "fo_null g")
    case True
    then show ?thesis using assms(2) r by (auto simp: finish_search_def found_ok_def)
  next
    case False
    then show ?thesis using assms(2) r d by (auto simp: finish_search_def Let_def rc_defs split: if_splits)
  qed
qed

lemma search_levels_ok:
  assumes "\<And>j f. j \<in> set js \<Longrightarrow> found_ok f \<Longrightarrow> search_ok alloc m a (w j) f (search j f)" and "found_ok f"
  shows "search_ok alloc m a (sum_list (map w js)) f (search_levels search js f)"
  using assms
proof (induction js arbitrary: f)
  case (Cons j js)
  have "search_ok alloc m a (w j + sum_list (map w js)) f (Option.bind (search j f) (\<lambda>(rc, f'). if rc \<noteq> OK then Some (rc, f') else search_levels search js f'))"
    using Cons by (intro search_ok_bind) auto
  then show ?case by simp
qed (simp add: search_ok_return)

definition topic_levels :: "iettTopic_t \<Rightarrow> string list \<Rightarrow> bool" where
  "topic_levels topic ts \<longleftrightarrow> map snd (tp_substrings topic) = ts \<and> tp_substringHashes topic = map iett_generateSubstringHash ts"

text \<open>What is shown of the recursive calls: at a level after the first of a system topic, the node \<open>a\<close> is found below \<open>fs\<close> as often as its weight says.\<close>

definition search_spec :: "(nat \<Rightarrow> bool) \<Rightarrow> bool \<Rightarrow> subs_nodes \<Rightarrow> (level list \<Rightarrow> nat option) \<Rightarrow> level list \<Rightarrow> nat \<Rightarrow> iettTopic_t \<Rightarrow> string list \<Rightarrow> nat \<Rightarrow>
    (nat \<Rightarrow> nat \<Rightarrow> found_nodes \<Rightarrow> (int \<times> found_nodes) option) \<Rightarrow> bool" where
  "search_spec alloc m nodes P p a topic ts fuel search \<longleftrightarrow> (\<forall>fs b i f. P fs = Some b \<and> iettMAX_TOPIC_DEPTH < fuel + length fs \<and> i < length ts \<and>
     tp_sysTopicEndIndex topic \<le> i \<and> found_ok f \<longrightarrow> search_ok alloc m a (weight (target nodes P p a) p fs (drop i ts)) f (search b i f))"

lemma visit_ok:
  assumes tree: "tree_ok nodes P" "P p = Some a \<or> a \<notin> ran P" and topic: "topic_levels topic ts" "tp_sysTopicEndIndex topic \<le> 1"
    and spec: "search_spec alloc m nodes P p a topic ts fuel search"
    and b: "P (fs @ [x]) = Some b" "x \<noteq> Hash" and fuel: "iettMAX_TOPIC_DEPTH < Suc fuel + length fs" and i: "i < length ts" and f: "found_ok f"
  shows "search_ok alloc m a (weight (target nodes P p a) p (fs @ [x]) (drop (Suc i) ts)) f (visit alloc nodes topic fuel search i b f)"
proof (cases "Suc i = length ts")
  case True
  then show ?thesis using addActiveSubsNodes_ok [OF tree b(1) _ f, of fuel alloc m] b(2) fuel topic(1) by (auto simp: visit_def topic_levels_def)
next
  case False
  then show ?thesis using spec b(1) fuel i f topic by (auto simp: visit_def topic_levels_def search_spec_def)
qed

lemma search_children_ok:
  assumes tree: "tree_ok nodes P" "P p = Some a \<or> a \<notin> ran P" and topic: "topic_levels topic ts" "tp_sysTopicEndIndex topic \<le> 1"
    and spec: "search_spec alloc m nodes P p a topic ts fuel search"
    and b: "P fs = Some b" and fuel: "iettMAX_TOPIC_DEPTH < Suc fuel + length fs" and i: "i < length ts" and f: "found_ok f"
  shows "search_ok alloc m a (weight (target nodes P p a) p (fs @ [Lit (ts ! i)]) (drop (Suc i) ts)) f (search_children alloc nodes topic fuel search (nodes ! b) i f)"
proof -
  have lv: "length (tp_substrings topic) = length ts" "snd (tp_substrings topic ! i) = ts ! i" "tp_substringHashes topic ! i = iett_generateSubstringHash (ts ! i)"
    using topic(1) i by (auto simp: topic_levels_def)
  show ?thesis
  proof (cases "P (fs @ [Lit (ts ! i)])")
    case None
    then show ?thesis using tree_okD(8) [OF tree(1) b] weight_None [OF tree None] search_ok_return [OF f] lv i
      by (auto simp: search_children_def getHashEntry_table split: option.splits)
  next
    case (Some c)
    then obtain t where "sn_children (nodes ! b) = Some t" "table_ok (length nodes) P fs t" using tree_okD(8) [OF tree(1) b] by (cases "sn_children (nodes ! b)") auto
    then show ?thesis using Some visit_ok [OF tree topic spec Some _ fuel i f] lv i by (simp add: search_children_def getHashEntry_table)
  qed
qed

lemma search_wildcards_ok:
  assumes tree: "tree_ok nodes P" "P p = Some a \<or> a \<notin> ran P" and topic: "topic_levels topic ts" "tp_sysTopicEndIndex topic \<le> 1" "tp_sysTopicEndIndex topic \<le> i"
    and spec: "search_spec alloc m nodes P p a topic ts fuel search"
    and b: "P fs = Some b" and fuel: "iettMAX_TOPIC_DEPTH < Suc fuel + length fs" and i: "i < length ts" and f: "found_ok f"
  shows "search_ok alloc m a (weight (target nodes P p a) p (fs @ [Plus]) (drop (Suc i) ts) + ((if target nodes P p a \<and> p = fs @ [Hash] then 1 else 0) +
      sum_list (map (\<lambda>j. weight (target nodes P p a) p (fs @ [Hash]) (drop j ts)) (i # [i + 1..<length ts])))) f
    (search_wildcards alloc nodes topic fuel search (nodes ! b) i f)"
proof -
  have n: "length (tp_substrings topic) = length ts" using topic(1) by (auto simp: topic_levels_def)
  have children: "sn_wildcardChild (nodes ! b) = P (fs @ [Plus])" "sn_multicardChild (nodes ! b) = P (fs @ [Hash])" by (rule tree_okD [OF tree(1) b])+
  show ?thesis
    unfolding search_wildcards_def n children
  proof (rule search_ok_bind)
    show "search_ok alloc m a (weight (target nodes P p a) p (fs @ [Plus]) (drop (Suc i) ts)) f
        (case P (fs @ [Plus]) of None \<Rightarrow> Some (OK, f) | Some node \<Rightarrow> visit alloc nodes topic fuel search i node f)"
      using visit_ok [OF tree topic(1,2) spec _ _ fuel i f] weight_None [OF tree] search_ok_return [OF f] by (auto split: option.split)
    fix f' assume f': "found_ok f'"
    show "search_ok alloc m a ((if target nodes P p a \<and> p = fs @ [Hash] then 1 else 0) +
        sum_list (map (\<lambda>j. weight (target nodes P p a) p (fs @ [Hash]) (drop j ts)) (i # [i + 1..<length ts]))) f'
      (case P (fs @ [Hash]) of None \<Rightarrow> Some (OK, f') | Some node \<Rightarrow> Option.bind (iett_addActiveSubsNodes alloc nodes fuel node f')
         (\<lambda>(rc, found). if rc \<noteq> OK then Some (rc, found) else search_levels (search node) (i # [i + 1..<length ts]) found))"
    proof (cases "P (fs @ [Hash])")
      case None
      then have "weight (target nodes P p a) p (fs @ [Hash]) us = 0" for us using weight_None [OF tree] by blast
      moreover have "\<not> (target nodes P p a \<and> p = fs @ [Hash])" using None by (auto simp: target_def)
      moreover have "sum_list (map (\<lambda>j. 0 :: nat) js) = 0" for js :: "nat list" by (induction js) auto
      ultimately show ?thesis using None search_ok_return [OF f'] by auto
    next
      case (Some c)
      have "search_ok alloc m a (sum_list (map (\<lambda>j. weight (target nodes P p a) p (fs @ [Hash]) (drop j ts)) (i # [i + 1..<length ts]))) f''
          (search_levels (search c) (i # [i + 1..<length ts]) f'')" if "found_ok f''" for f''
        using spec Some fuel i topic(3) that by (intro search_levels_ok) (auto simp: search_spec_def)
      then show ?thesis
        using addActiveSubsNodes_ok [OF tree Some _ f', of fuel alloc m] fuel unfolding Some option.case by (intro search_ok_bind) simp_all
    qed
  qed
qed

lemma sum_levels: "i \<le> length ts \<Longrightarrow> (\<Sum>j<length (drop i ts). g (drop j (drop i ts))) = sum_list (map (\<lambda>j. g (drop j ts)) [i..<length ts])"
proof -
  assume i: "i \<le> length ts"
  have "sum_list (map (\<lambda>j. g (drop j ts)) [i..<length ts]) = (\<Sum>j = i..<length ts. g (drop j ts))" by (simp add: sum_list_distinct_conv_sum_set)
  also have "\<dots> = (\<Sum>j = 0..<length ts - i. g (drop (j + i) ts))" using i sum.shift_bounds_nat_ivl [of "\<lambda>j. g (drop j ts)" 0 i "length ts - i"] by simp
  finally show ?thesis by (simp add: atLeast0LessThan add.commute)
qed

lemma weight_level:
  assumes "i < length ts"
  shows "weight act p fs (drop i ts) = weight act p (fs @ [Lit (ts ! i)]) (drop (Suc i) ts) + (weight act p (fs @ [Plus]) (drop (Suc i) ts) +
    ((if act \<and> p = fs @ [Hash] then 1 else 0) + sum_list (map (\<lambda>j. weight act p (fs @ [Hash]) (drop j ts)) (i # [i + 1..<length ts]))))"
proof -
  have d: "drop i ts = ts ! i # drop (Suc i) ts" using assms by (simp add: Cons_nth_drop_Suc)
  have "(\<Sum>j<Suc (length (drop (Suc i) ts)). weight act p (fs @ [Hash]) (drop j (ts ! i # drop (Suc i) ts))) =
      sum_list (map (\<lambda>j. weight act p (fs @ [Hash]) (drop j ts)) [i..<length ts])"
    using sum_levels [of i ts "weight act p (fs @ [Hash])"] assms unfolding d by simp
  then show ?thesis unfolding d weight_split using assms by (simp add: upt_conv_Cons)
qed

text \<open>The number of times a node is found from the root on; a system topic is only looked up by its first level.\<close>

declare iett_findMatchingSubsNodes.simps [simp del]

lemma findMatching_step:
  assumes tree: "tree_ok nodes P" "P p = Some a \<or> a \<notin> ran P" and topic: "topic_levels topic ts" "tp_sysTopicEndIndex topic \<le> 1"
    and spec: "search_spec alloc m nodes P p a topic ts fuel (iett_findMatchingSubsNodes alloc cached m nodes topic fuel)"
    and b: "P fs = Some b" and fuel: "iettMAX_TOPIC_DEPTH < Suc fuel + length fs" and i: "i < length ts" and f: "found_ok f"
  shows "search_ok alloc m a (if tp_sysTopicEndIndex topic \<le> i then weight (target nodes P p a) p fs (drop i ts)
      else weight (target nodes P p a) p (fs @ [Lit (ts ! i)]) (drop (Suc i) ts)) f (iett_findMatchingSubsNodes alloc cached m nodes topic (Suc fuel) b i f)"
    and "i = 0 \<Longrightarrow> m \<Longrightarrow> iett_findMatchingSubsNodes alloc cached m nodes topic (Suc fuel) b i f = Some (OK, f') \<Longrightarrow> distinct (fo_nodes f')"
proof -
  let ?search = "iett_findMatchingSubsNodes alloc cached m nodes topic fuel"
  let ?children = "search_children alloc nodes topic fuel ?search (nodes ! b) i f"
  let ?wild = "\<lambda>f. search_wildcards alloc nodes topic fuel ?search (nodes ! b) i f"
  let ?w = "if tp_sysTopicEndIndex topic \<le> i then weight (target nodes P p a) p fs (drop i ts) else weight (target nodes P p a) p (fs @ [Lit (ts ! i)]) (drop (Suc i) ts)"
  let ?both = "if tp_sysTopicEndIndex topic \<le> i then Option.bind ?children (\<lambda>(rc, f). if rc \<noteq> OK then Some (rc, f) else ?wild f) else ?children"
  have children: "search_ok alloc m a (weight (target nodes P p a) p (fs @ [Lit (ts ! i)]) (drop (Suc i) ts)) f ?children"
    by (rule search_children_ok [OF tree topic spec b fuel i f])
  have both: "search_ok alloc m a ?w f ?both"
  proof (cases "tp_sysTopicEndIndex topic \<le> i")
    case True
    then have "search_ok alloc m a ?w f (Option.bind ?children (\<lambda>(rc, f). if rc \<noteq> OK then Some (rc, f) else ?wild f))"
      unfolding weight_level [OF i] using search_wildcards_ok [OF tree topic True spec b fuel i] children by (simp only: if_True) (rule search_ok_bind)
    then show ?thesis using True by simp
  next
    case False
    then show ?thesis using children by simp
  qed
  have eq: "iett_findMatchingSubsNodes alloc cached m nodes topic (Suc fuel) b i f = Option.bind ?both (\<lambda>(rc, f). if i = 0 then finish_search alloc cached m (rc, f) else Some (rc, f))"
    using tree_okD(1) [OF tree(1) b] by (cases ?children) (auto simp: iett_findMatchingSubsNodes.simps Let_def not_le)
  then show "search_ok alloc m a ?w f (iett_findMatchingSubsNodes alloc cached m nodes topic (Suc fuel) b i f)"
    using finish_search_ok [OF both, of cached] both by (cases ?both) auto
  show "distinct (fo_nodes f')" if "i = 0" "m" "iett_findMatchingSubsNodes alloc cached m nodes topic (Suc fuel) b i f = Some (OK, f')"
  proof -
    have "Option.bind ?both (finish_search alloc cached True) = Some (OK, f')" using that(3) unfolding eq using that(1,2) by (cases ?both) auto
    then show ?thesis by (rule finish_search_distinct [OF both])
  qed
qed

lemma findMatching_ok:
  assumes tree: "tree_ok nodes P" "P p = Some a \<or> a \<notin> ran P" and topic: "topic_levels topic ts" "tp_sysTopicEndIndex topic \<le> 1"
  shows "search_spec alloc m nodes P p a topic ts fuel (iett_findMatchingSubsNodes alloc cached m nodes topic fuel)"
proof (induction fuel)
  case 0
  have "\<not> (P fs = Some b \<and> iettMAX_TOPIC_DEPTH < length fs)" for fs b using tree_okD(5) [OF tree(1), of fs b] by (auto simp: not_less)
  then show ?case by (auto simp: search_spec_def)
next
  case (Suc fuel)
  show ?case unfolding search_spec_def [of alloc m nodes P p a topic ts "Suc fuel"]
  proof (intro allI impI)
    fix fs b i f
    assume "P fs = Some b \<and> iettMAX_TOPIC_DEPTH < Suc fuel + length fs \<and> i < length ts \<and> tp_sysTopicEndIndex topic \<le> i \<and> found_ok f"
    then show "search_ok alloc m a (weight (target nodes P p a) p fs (drop i ts)) f (iett_findMatchingSubsNodes alloc cached m nodes topic (Suc fuel) b i f)"
      using findMatching_step(1) [OF tree topic Suc.IH, of fs b i f] by simp
  qed
qed

lemma distinct_count_le_1: "(\<forall>a. count_list xs a \<le> 1) \<Longrightarrow> distinct xs"
proof (induction xs)
  case (Cons x xs)
  have "count_list xs a \<le> 1" for a using Cons.prems [rule_format, of a] by (simp split: if_splits)
  moreover have "count_list xs x = 0" using Cons.prems [rule_format, of x] by simp
  ultimately show ?case using Cons.IH by (simp add: count_list_0_iff)
qed simp

text \<open>
  The nodes that a search from the root finds: the active ones whose path matches the topic, each once if the duplicates are removed or no active node
  has a path with several multi-level wildcards.
\<close>

definition path_matches :: "level list \<Rightarrow> string list \<Rightarrow> bool" where
  "path_matches p ts \<longleftrightarrow> matches p ts \<and> (iettTOPIC_IS_SYSTOPIC (hd ts) \<longrightarrow> p \<noteq> [] \<and> hd p \<noteq> Plus \<and> hd p \<noteq> Hash)"

definition empty_found :: found_nodes where
  "empty_found = \<lparr>fo_nodes = [], fo_max = 0, fo_cap = 0, fo_null = True, fo_allocs = 0\<rparr>"

definition matching_nodes :: "subs_nodes \<Rightarrow> (level list \<Rightarrow> nat option) \<Rightarrow> string list \<Rightarrow> nat set" where
  "matching_nodes nodes P ts = {a. \<exists>p. P p = Some a \<and> is_active nodes a \<and> path_matches p ts}"

lemma root_weight:
  assumes "ts \<noteq> []"
  shows "0 < (if iettTOPIC_IS_SYSTOPIC (hd ts) then weight act p [Lit (ts ! 0)] (drop 1 ts) else weight act p [] ts) \<longleftrightarrow> act \<and> path_matches p ts"
    and "count_list p Hash \<le> 1 \<Longrightarrow> (if iettTOPIC_IS_SYSTOPIC (hd ts) then weight act p [Lit (ts ! 0)] (drop 1 ts) else weight act p [] ts) \<le> 1"
proof -
  obtain t us where ts: "ts = t # us" using assms by (cases ts) auto
  show "0 < (if iettTOPIC_IS_SYSTOPIC (hd ts) then weight act p [Lit (ts ! 0)] (drop 1 ts) else weight act p [] ts) \<longleftrightarrow> act \<and> path_matches p ts"
  proof (cases p)
    case (Cons x q)
    then show ?thesis by (cases x) (auto simp: ts weight_def path_matches_def ways_pos simp del: ways.simps)
  qed (simp add: ts weight_def path_matches_def)
  show "(if iettTOPIC_IS_SYSTOPIC (hd ts) then weight act p [Lit (ts ! 0)] (drop 1 ts) else weight act p [] ts) \<le> 1" if "count_list p Hash \<le> 1"
  proof -
    have "count_list (drop n p) Hash \<le> 1" for n using that count_list_append [of "take n p" "drop n p" Hash] by simp
    from this [of 0] this [of 1] show ?thesis by (simp add: weight_def ways_le_1 [unfolded One_nat_def])
  qed
qed

lemma findMatching_root:
  assumes tree: "tree_ok nodes P" and topic: "topic_levels topic ts" "ts \<noteq> []" "tp_sysTopicEndIndex topic = (if iettTOPIC_IS_SYSTOPIC (hd ts) then 1 else 0)"
    and multi: "m \<or> (\<forall>p a. P p = Some a \<and> is_active nodes a \<longrightarrow> count_list p Hash \<le> 1)"
  shows "\<exists>rc f. iett_findMatchingSubsNodes alloc cached m nodes topic (iettMAX_TOPIC_DEPTH + 1) 0 0 empty_found = Some (rc, f) \<and>
    (rc = OK \<and> distinct (fo_nodes f) \<and> set (fo_nodes f) = matching_nodes nodes P ts \<or> rc = ISMRC_AllocateError \<and> \<not> (\<forall>n. alloc n))"
proof -
  let ?r = "iett_findMatchingSubsNodes alloc cached m nodes topic (Suc iettMAX_TOPIC_DEPTH) 0 0 empty_found"
  let ?w = "\<lambda>p a. if iettTOPIC_IS_SYSTOPIC (hd ts) then weight (target nodes P p a) p [Lit (ts ! 0)] (drop 1 ts) else weight (target nodes P p a) p [] ts"
  have root: "P [] = Some 0" "found_ok empty_found" "0 < length ts" "tp_sysTopicEndIndex topic \<le> 1" using tree topic by (auto simp: tree_ok_def found_ok_def empty_found_def)
  have step: "search_ok alloc m a (?w p a) empty_found ?r" "m \<Longrightarrow> ?r = Some (OK, f') \<Longrightarrow> distinct (fo_nodes f')"
    if "P p = Some a \<or> a \<notin> ran P" for p a f'
    using findMatching_step [OF tree that topic(1) root(4) findMatching_ok [OF tree that topic(1) root(4), of alloc m iettMAX_TOPIC_DEPTH cached] root(1) _ root(3,2)] topic(3) by (simp_all split: if_splits)
  have adds: "a \<in> set (fo_nodes f) \<longleftrightarrow> 0 < ?w p a" "\<not> m \<Longrightarrow> count_list (fo_nodes f) a = ?w p a" if "?r = Some (OK, f)" "P p = Some a \<or> a \<notin> ran P" for p a f
    using step(1) [OF that(2)] that(1) by (auto simp: search_ok_def adds_def empty_found_def rc_defs)
  have member: "a \<in> set (fo_nodes f) \<longleftrightarrow> a \<in> matching_nodes nodes P ts" if "?r = Some (OK, f)" for f a
  proof -
    obtain p where p: "P p = Some a \<or> a \<notin> ran P" by (auto simp: ran_def)
    then show ?thesis using adds(1) [OF that p] tree_ok_inj [OF tree] unfolding root_weight(1) [OF topic(2)] by (auto simp: matching_nodes_def target_def ran_def)
  qed
  moreover have "distinct (fo_nodes f)" if r: "?r = Some (OK, f)" for f
  proof (cases m)
    case False
    have "count_list (fo_nodes f) a \<le> 1" for a
    proof -
      obtain p where p: "P p = Some a \<or> a \<notin> ran P" by (auto simp: ran_def)
      show ?thesis
      proof (cases "target nodes P p a")
        case True
        then have "count_list p Hash \<le> 1" using multi False by (auto simp: target_def)
        then show ?thesis using adds(2) [OF r p False] root_weight(2) [OF topic(2)] by simp
      qed (use adds(2) [OF r p False] in \<open>simp add: weight_def\<close>)
    qed
    then show ?thesis by (simp add: distinct_count_le_1)
  qed (use step(2) [of "[]" 0 f] root(1) r in simp)
  ultimately show ?thesis using step(1) [of "[]" 0] root(1) unfolding search_ok_def by auto
qed

end
