(* ===== verification/SubsInsert.thy ===== *)
theory SubsInsert
  imports TopicRouting
begin

text \<open>
  Inserting a filter into the tree of subscriptions. A new node keeps the tree a map from paths to nodes and adds one path to it, also when the table of the
  children of its parent has to be created or enlarged first; the insertion of a filter therefore ends at the node with the path of the filter.
\<close>

section \<open>A new node\<close>

lemma type_of_snoc [simp]: "type_of (fs @ [x]) = (case x of Plus \<Rightarrow> iettNODE_FLAG_WILDCARD | Hash \<Rightarrow> iettNODE_FLAG_MULTICARD | Lit _ \<Rightarrow> iettNODE_FLAG_NORMAL)"
  by (simp add: type_of_def)

lemma new_flags_type: "new_flags (type_of (fs @ [x])) ws ms sys AND iettNODE_FLAG_TYPE_MASK = type_of (fs @ [x])"
  by (cases x) (simp_all add: new_flags_def iettNODE_FLAG_defs)

lemma new_flags_multi: "new_flags (type_of (fs @ [x])) ws ms sys AND iettNODE_FLAG_BRANCH_MULTIMULTI \<noteq> 0 \<longleftrightarrow> 1 < ms"
  by (cases x) (simp_all add: new_flags_def iettNODE_FLAG_defs)

lemma node_types [simp]: "iettNODE_FLAG_NORMAL \<noteq> iettNODE_FLAG_WILDCARD" "iettNODE_FLAG_NORMAL \<noteq> iettNODE_FLAG_MULTICARD" "iettNODE_FLAG_MULTICARD \<noteq> iettNODE_FLAG_WILDCARD"
  by (simp_all add: iettNODE_FLAG_defs)

lemma butlast_not_snoc [simp]: "butlast gs \<noteq> gs @ [x]"
  by (auto dest: arg_cong [where f = length])

lemma node_ok_other:
  assumes "node_ok n P fs node" and "fs \<noteq> gs" and "P fs \<noteq> None" and "P (gs @ [x]) = None" and "\<And>fs x. P (fs @ [x]) \<noteq> None \<Longrightarrow> P fs \<noteq> None"
  shows "node_ok (Suc n) (P(gs @ [x] \<mapsto> n)) fs node"
proof -
  have "butlast fs \<noteq> gs @ [x]" if "fs \<noteq> []" using that assms(3-5) by (metis append_butlast_last_id)
  then show ?thesis using assms(1-3) by (auto simp: node_ok_def table_ok_def split: option.splits)
qed

lemma tree_ok_add:
  assumes tree: "tree_ok nodes P" and p: "P gs = Some p" and new: "P (gs @ [x]) = None" and depth: "length gs < iettMAX_TOPIC_DEPTH"
    and parent: "node_ok (Suc (length nodes)) (P(gs @ [x] \<mapsto> length nodes)) gs parent"
    and node: "node_ok (Suc (length nodes)) (P(gs @ [x] \<mapsto> length nodes)) (gs @ [x]) node"
  shows "tree_ok (nodes[p := parent] @ [node]) (P(gs @ [x] \<mapsto> length nodes))"
proof -
  note t = tree [unfolded tree_ok_def]
  have ok: "a < length nodes" "length fs \<le> iettMAX_TOPIC_DEPTH" "node_ok (length nodes) P fs (nodes ! a)" if "P fs = Some a" for fs a using t that by auto
  have "node_ok (Suc (length nodes)) (P(gs @ [x] \<mapsto> length nodes)) fs ((nodes[p := parent] @ [node]) ! a)" if a: "P fs = Some a" for fs a
  proof (cases "fs = gs")
    case True
    then show ?thesis using p a parent ok(1) [OF a] by (simp add: nth_append)
  next
    case False
    then have "a \<noteq> p" using tree_ok_inj [OF tree] p a by auto
    then show ?thesis using node_ok_other [OF ok(3) [OF a] False _ new] t a ok(1) [OF a] by (simp add: nth_append)
  qed
  then have "a < length (nodes[p := parent] @ [node]) \<and> node_ok (length (nodes[p := parent] @ [node])) (P(gs @ [x] \<mapsto> length nodes)) fs ((nodes[p := parent] @ [node]) ! a) \<and>
      length fs \<le> iettMAX_TOPIC_DEPTH" if "(P(gs @ [x] \<mapsto> length nodes)) fs = Some a" for fs a
    using that ok(1,2) [of fs a] node depth nth_append_length [of "nodes[p := parent]" node "[]"] by (auto simp: less_Suc_eq split: if_splits)
  moreover have "(P(gs @ [x] \<mapsto> length nodes)) fs \<noteq> None" if "(P(gs @ [x] \<mapsto> length nodes)) (fs @ [y]) \<noteq> None" for fs y
    using that t p by (auto split: if_splits)
  moreover have "fs = hs" if "(P(gs @ [x] \<mapsto> length nodes)) fs = Some a" "(P(gs @ [x] \<mapsto> length nodes)) hs = Some a" for fs hs a
    using that ok(1) tree_ok_inj [OF tree] by (auto split: if_splits)
  moreover have "(P(gs @ [x] \<mapsto> length nodes)) [] = Some 0" using t by simp
  ultimately show ?thesis unfolding tree_ok_def by blast
qed

section \<open>The table of children\<close>

lemma resize_all_ok:
  assumes "ht_inv kind t" and "ht_room t" and "0 < k" and "k < 2 ^ 31" and "co" and "\<And>n. ro n"
  shows "\<exists>t'. ieut_resizeHashTable co ro t (int k) = Some (OK, t') \<and> ht_inv kind t' \<and> ht_abs t' = ht_abs t \<and> unat (ht_capacity t') = k"
proof -
  have "unat (of_int (int k) :: u32) = k" using assms(4) by (simp add: unat_of_nat)
  then show ?thesis using resize_abs [OF assms(1,2), of "int k" co ro] assms(3-) by (auto split: if_splits)
qed

lemma children_table_ok:
  assumes table: "case children of None \<Rightarrow> \<forall>s. P (fs @ [Lit s]) = None | Some t \<Rightarrow> table_ok n P fs t" and n: "0 < n" "n \<le> 2 ^ 25" and alloc: "\<And>k. alloc k"
  shows "\<exists>t. children_table alloc children = Some (OK, Some t) \<and> table_ok n P fs t"
proof (cases children)
  case None
  let ?c = iettINITIAL_SUBSCRIBER_NODE_CAPACITY
  let ?t = "\<lparr>ht_totalCount = 0, ht_chains = replicate (unat ?c) empty_chain, ht_capacity = ?c\<rparr>"
  have c: "?c \<noteq> 0" "unat ?c = 2" by (simp_all add: iettINITIAL_SUBSCRIBER_NODE_CAPACITY_def)
  have "table_ok n P fs ?t" using None table n create_inv(1) [OF c(1), of 0] unfolding table_ok_def create_inv(2) [OF c(1)] by (simp add: c(2))
  then show ?thesis using alloc None by (simp add: children_table_def ieut_createHashTable_def)
next
  case (Some t)
  then have t: "ht_inv 0 t" "card (dom (ht_abs t)) < n" "unat (ht_capacity t) \<le> 2 + 3 * n" using table by (simp_all add: table_ok_def)
  let ?full = "ucast (ht_capacity t * (iettNODE_LOADINGFACTOR_HIGH_WATER - 1)) < ht_totalCount t"
  show ?thesis
  proof (cases ?full)
    case False
    then show ?thesis using Some table by (simp add: children_table_def)
  next
    case True
    have "unat (ht_totalCount t) = card (dom (ht_abs t))" using ht_invD(5) [OF t(1)] ht_count [OF t(1)] t(2) n(2) by (simp add: unat_of_nat)
    moreover have "unat (ht_capacity t * 4) = unat (ht_capacity t) * 4" using unat_times [of "ht_capacity t" 4] t(3) n(2) by simp
    ultimately have less: "unat (ht_capacity t) * 4 < card (dom (ht_abs t))"
      using True by (simp add: iettNODE_LOADINGFACTOR_HIGH_WATER_def word_less_nat_alt unat_ucast_u64)
    define k where "k = unat (ht_capacity t) * 10"
    then have k: "0 < k" "k < 2 ^ 31" "k \<le> 3 * n" using less t(2) n(2) ht_invD(1) [OF t(1)] by (simp_all add: unat_gt_0)
    have "unat (ht_capacity t * iettNODE_CAPACITY_INCREMENT_FACTOR) = k"
      using unat_times [of "ht_capacity t" 10] k(2) by (simp add: k_def iettNODE_CAPACITY_INCREMENT_FACTOR_def)
    then have cap: "sint (ht_capacity t * iettNODE_CAPACITY_INCREMENT_FACTOR) = int k" using k(2) by (simp only: sint_small)
    have "ht_room t" using t(1,2) n(2) by (simp add: ht_room_def ht_count)
    then obtain t' where r: "ieut_resizeHashTable (alloc 3) (\<lambda>n. alloc (5 + n)) t (int k) = Some (OK, t')" "ht_inv 0 t'" "ht_abs t' = ht_abs t" "unat (ht_capacity t') = k"
      using resize_all_ok [OF t(1) _ k(1,2), of "alloc 3" "\<lambda>n. alloc (5 + n)"] alloc by blast
    then show ?thesis using r True Some table k(3) by (simp add: children_table_def cap table_ok_def)
  qed
qed

section \<open>Inserting a filter\<close>

text \<open>
  What an insertion leaves as it is: the paths in the tree and the subscriptions at their nodes. New nodes have no subscriptions.
\<close>

definition same_subs :: "iettSubsNode_t \<Rightarrow> iettSubsNode_t \<Rightarrow> bool" where
  "same_subs node node' \<longleftrightarrow> sn_activeSubs node' = sn_activeSubs node \<and> sn_stats node' = sn_stats node \<and> sn_totalSubsCount node' = sn_totalSubsCount node"

definition grows :: "subs_nodes \<Rightarrow> (level list \<Rightarrow> nat option) \<Rightarrow> subs_nodes \<Rightarrow> (level list \<Rightarrow> nat option) \<Rightarrow> bool" where
  "grows nodes P nodes' P' \<longleftrightarrow> P \<subseteq>\<^sub>m P' \<and> length nodes \<le> length nodes' \<and> (\<forall>a < length nodes. same_subs (nodes ! a) (nodes' ! a)) \<and>
     (\<forall>a < length nodes'. length nodes \<le> a \<longrightarrow> same_subs empty_node (nodes' ! a)) \<and> (\<forall>fs a. P' fs = Some a \<longrightarrow> P fs = Some a \<or> length nodes \<le> a)"

lemma grows_refl [simp]: "grows nodes P nodes P"
  by (simp add: grows_def same_subs_def)

lemma grows_trans:
  assumes "grows nodes P nodes' P'" and "grows nodes' P' nodes'' P''"
  shows "grows nodes P nodes'' P''"
proof -
  have "same_subs (nodes ! a) (nodes'' ! a)" if "a < length nodes" for a using that assms unfolding grows_def same_subs_def by (metis less_le_trans)
  moreover have "same_subs empty_node (nodes'' ! a)" if "a < length nodes''" "length nodes \<le> a" for a
    using that assms unfolding grows_def same_subs_def by (cases "a < length nodes'") (metis not_less)+
  moreover have "P fs = Some a \<or> length nodes \<le> a" if "P'' fs = Some a" for fs a using that assms unfolding grows_def by (meson le_trans)
  ultimately show ?thesis using assms unfolding grows_def by (auto intro: map_le_trans)
qed

lemma grows_add:
  assumes "P (gs @ [x]) = None" and "same_subs (nodes ! p) parent" and "same_subs empty_node node" and "p < length nodes"
  shows "grows nodes P (nodes[p := parent] @ [node]) (P(gs @ [x] \<mapsto> length nodes))"
  using assms by (auto simp: grows_def map_le_def nth_append nth_list_update same_subs_def less_Suc_eq)

lemma same_subs_children [simp]: "same_subs node (node\<lparr>sn_wildcardChild := w\<rparr>)" "same_subs node (node\<lparr>sn_multicardChild := w\<rparr>)"
    "same_subs node (node\<lparr>sn_children := c\<rparr>)" "same_subs empty_node (empty_node\<lparr>sn_nodeFlags := fl, sn_parent := p, sn_topicString := s\<rparr>)"
  by (simp_all add: same_subs_def)

lemma add_child_ok:
  assumes tree: "tree_ok nodes P" and p: "P gs = Some p" and new: "P (gs @ [level_of l]) = None" and depth: "length gs < iettMAX_TOPIC_DEPTH"
    and n: "length nodes \<le> 2 ^ 25" and alloc: "\<And>k. alloc k" and ms: "ms = count_list (gs @ [level_of l]) Hash"
  shows "\<exists>nodes'. add_child alloc (type_of (gs @ [level_of l])) (new_flags (type_of (gs @ [level_of l])) ws ms sys) l (iett_generateSubstringHash l) p nodes = Some (OK, nodes') \<and>
    tree_ok nodes' (P(gs @ [level_of l] \<mapsto> length nodes)) \<and> grows nodes P nodes' (P(gs @ [level_of l] \<mapsto> length nodes)) \<and> length nodes' = Suc (length nodes)"
proof -
  let ?x = "level_of l"
  let ?P = "P(gs @ [?x] \<mapsto> length nodes)"
  define node where "node = empty_node\<lparr>sn_nodeFlags := new_flags (type_of (gs @ [?x])) ws ms sys, sn_parent := Some p,
    sn_topicString := Some (case sn_topicString (nodes ! p) of None \<Rightarrow> l | Some s \<Rightarrow> s @ ''/'' @ l)\<rparr>"
  have plen: "p < length nodes" and old: "node_ok (length nodes) P gs (nodes ! p)" using tree p by (auto simp: tree_ok_def)
  note grow = grows_add [where P = P and gs = gs and x = ?x, OF new _ _ plen]
  have below: "P (gs @ [?x, y]) = None" for y using tree new unfolding tree_ok_def by (metis append_Cons append_Nil append_assoc)
  have node: "node_ok (Suc (length nodes)) ?P (gs @ [?x]) node"
    using below p ms unfolding node_ok_def node_def by (simp add: new_flags_type new_flags_multi empty_node_def del: type_of_snoc)
  show ?thesis
  proof (cases ?x)
    case (Lit s)
    then have s: "s = l" by (auto simp: level_of_def split: if_splits)
    obtain t where t: "children_table alloc (sn_children (nodes ! p)) = Some (OK, Some t)" "table_ok (length nodes) P gs t"
      using children_table_ok [OF tree_okD(8) [OF tree p] le_less_trans [OF le0 plen] n, of alloc] alloc by blast
    have none: "ht_abs t (iett_generateSubstringHash l, StringKey l) = None" using t(2) new Lit s by (simp add: table_ok_def)
    have "ht_room t" using t(2) n by (auto simp: table_ok_def ht_room_def ht_count)
    then obtain t' where t': "ieut_putHashEntry True (alloc 4) True t ieutFLAG_DUPLICATE_NONE (StringKey l) (iett_generateSubstringHash l) (Some (length nodes)) = Some (OK, t')"
        "ht_inv 0 t'" "ht_capacity t' = ht_capacity t" "ht_abs t' = (ht_abs t)((iett_generateSubstringHash l, StringKey l) \<mapsto> Some (length nodes))"
      using putHashEntry_abs [of 0 t "StringKey l" ieutFLAG_DUPLICATE_NONE "iett_generateSubstringHash l" True "alloc 4" True "Some (length nodes)"] t(2) none alloc
      by (auto simp: table_ok_def ieutFLAG_DUPLICATE_NONE_def split: if_splits)
    have "card (dom (ht_abs t')) \<le> Suc (card (dom (ht_abs t)))" unfolding t'(4) by (simp add: card_insert_if ht_finite)
    then have "table_ok (Suc (length nodes)) ?P gs t'" using t(2) t'(2-4) Lit s by (auto simp: table_ok_def)
    then have "node_ok (Suc (length nodes)) ?P gs ((nodes ! p)\<lparr>sn_children := Some t'\<rparr>)" using old Lit by (auto simp: node_ok_def)
    from tree_ok_add [OF tree p new depth this node] grow [of "(nodes ! p)\<lparr>sn_children := Some t'\<rparr>" node] show ?thesis
      using t(1) t'(1) Lit alloc by (simp add: add_child_def Let_def flip: node_def) (simp add: node_def)
  next
    case Plus
    then have "node_ok (Suc (length nodes)) ?P gs ((nodes ! p)\<lparr>sn_wildcardChild := Some (length nodes)\<rparr>)" using old by (auto simp: node_ok_def table_ok_def split: option.splits)
    from tree_ok_add [OF tree p new depth this node] grow [of "(nodes ! p)\<lparr>sn_wildcardChild := Some (length nodes)\<rparr>" node] show ?thesis
      using Plus alloc by (simp add: add_child_def Let_def flip: node_def) (simp add: node_def)
  next
    case Hash
    then have "node_ok (Suc (length nodes)) ?P gs ((nodes ! p)\<lparr>sn_multicardChild := Some (length nodes)\<rparr>)" using old by (auto simp: node_ok_def table_ok_def split: option.splits)
    from tree_ok_add [OF tree p new depth this node] grow [of "(nodes ! p)\<lparr>sn_multicardChild := Some (length nodes)\<rparr>" node] show ?thesis
      using Hash alloc by (simp add: add_child_def Let_def flip: node_def) (simp add: node_def)
  qed
qed

text \<open>The loop over the levels; the position of a level is in one of the arrays of wildcards exactly if it is that wildcard.\<close>

definition level_entries :: "nat \<Rightarrow> string list \<Rightarrow> ((nat \<times> string) \<times> u32) list" where
  "level_entries q ls = zip (offsets q ls) (map iett_generateSubstringHash ls)"

lemma level_entries_Cons: "level_entries q (l # ls) = ((q, l), iett_generateSubstringHash l) # level_entries (q + length l + 1) ls"
  by (simp add: level_entries_def)

lemma positions_Cons: "positions w ((q, l) # os) = (if l = w then q # positions w os else positions w os)"
  by (simp add: positions_def)

lemma positions_greater: "r \<in> set (positions w (offsets q ls)) \<Longrightarrow> q \<le> r"
proof (induction ls arbitrary: q)
  case (Cons l ls)
  then show ?case using Cons.IH [of "Suc (q + length l)"] by (auto simp: positions_Cons split: if_splits dest!: Suc_leD add_leD1)
qed (simp add: positions_def)

lemma positions_hd: "q < r \<Longrightarrow> (positions w (offsets r ls) \<noteq> [] \<and> hd (positions w (offsets r ls)) = q) = False"
  using positions_greater [OF list.set_sel(1), of w r ls] by fastforce

lemma find_child_ok:
  assumes "tree_ok nodes P" and "P gs = Some p"
  shows "find_child (type_of (gs @ [level_of l])) l (iett_generateSubstringHash l) (nodes ! p) = Some (P (gs @ [level_of l]))"
  using tree_okD(2,3,8) [OF assms]
  by (auto simp: find_child_def level_of_def iettNODE_FLAG_defs getHashEntry_table rc_defs split: option.splits)

lemma insert_loop_Cons:
  assumes "tree_ok nodes P" and "P gs = Some p"
  shows "insert_loop alloc operation sys i (level_entries q (l # ls)) (positions ''+'' (offsets q (l # ls))) (positions ''#'' (offsets q (l # ls))) ws ms p nodes =
    (let next = insert_loop alloc operation sys (i + 1) (level_entries (q + length l + 1) ls) (positions ''+'' (offsets (q + length l + 1) ls))
           (positions ''#'' (offsets (q + length l + 1) ls)) (if l = ''+'' then ws + 1 else ws) (if l = ''#'' then ms + 1 else ms)
     in case P (gs @ [level_of l]) of
          Some a \<Rightarrow> next a nodes
        | None \<Rightarrow>
            if operation = iettOP_FIND then Some (ISMRC_NotFound, None, nodes)
            else Option.bind (add_child (alloc i) (type_of (gs @ [level_of l])) (new_flags (type_of (gs @ [level_of l])) (if l = ''+'' then ws + 1 else ws)
                   (if l = ''#'' then ms + 1 else ms) sys) l (iett_generateSubstringHash l) p nodes)
                 (\<lambda>(rc, nodes'). if rc \<noteq> OK then Some (rc, None, nodes') else next (length nodes) nodes'))"
proof -
  have child: "find_child (case level_of l of Plus \<Rightarrow> iettNODE_FLAG_WILDCARD | Hash \<Rightarrow> iettNODE_FLAG_MULTICARD | Lit _ \<Rightarrow> iettNODE_FLAG_NORMAL) l (iett_generateSubstringHash l) (nodes ! p)
      = Some (P (gs @ [level_of l]))" using find_child_ok [OF assms] by simp
  have p: "\<not> length nodes \<le> p" using tree_okD(1) [OF assms] by simp
  note simps = level_entries_Cons insert_loop.simps offsets.simps positions_Cons positions_hd Let_def
  consider "l = ''+''" | "l = ''#''" | "l \<noteq> ''+''" "l \<noteq> ''#''" by blast
  then show ?thesis
  proof cases
    case 1
    then show ?thesis using p child by (simp add: simps level_of_def cong: if_cong option.case_cong)
  next
    case 2
    then show ?thesis using p child by (simp add: simps level_of_def cong: if_cong option.case_cong)
  next
    case 3
    then show ?thesis using p child
      by (simp add: simps level_of_def cong: if_cong option.case_cong)
  qed
qed

lemma insert_loop_add:
  assumes "tree_ok nodes P" and "P gs = Some p" and "length gs + length ls \<le> iettMAX_TOPIC_DEPTH" and "length nodes + length ls \<le> 2 ^ 25"
    and "\<And>i k. alloc i k" and "ms = count_list gs Hash"
  shows "\<exists>a nodes' P'. insert_loop alloc iettOP_ADD sys i (level_entries q ls) (positions ''+'' (offsets q ls)) (positions ''#'' (offsets q ls)) ws ms p nodes = Some (OK, Some a, nodes') \<and>
    tree_ok nodes' P' \<and> P' (gs @ map level_of ls) = Some a \<and> grows nodes P nodes' P' \<and> length nodes' \<le> length nodes + length ls \<and>
    (\<forall>p. P' p \<noteq> None \<longrightarrow> P p \<noteq> None \<or> prefix p (gs @ map level_of ls))"
  using assms
proof (induction ls arbitrary: nodes P gs p i q ws ms)
  case Nil
  then show ?case by (auto simp: level_entries_def intro!: exI [of _ P])
next
  case (Cons l ls)
  let ?q = "q + length l + 1" and ?ws = "if l = ''+'' then ws + 1 else ws" and ?ms = "if l = ''#'' then ms + 1 else ms" and ?x = "level_of l"
  have ms: "?ms = count_list (gs @ [?x]) Hash" using Cons.prems(6) by (auto simp: level_of_def)
  have depth: "length (gs @ [?x]) + length ls \<le> iettMAX_TOPIC_DEPTH" using Cons.prems(3) by simp
  note step = insert_loop_Cons [OF Cons.prems(1,2), of alloc iettOP_ADD sys i q l ls ws ms, unfolded Let_def]
  show ?case
  proof (cases "P (gs @ [?x])")
    case (Some a)
    from Cons.IH [OF Cons.prems(1) Some depth _ Cons.prems(5) ms, of "i + 1" ?q ?ws] Cons.prems(4) show ?thesis unfolding step Some by fastforce
  next
    case None
    obtain nodes1 where add: "add_child (alloc i) (type_of (gs @ [?x])) (new_flags (type_of (gs @ [?x])) ?ws ?ms sys) l (iett_generateSubstringHash l) p nodes = Some (OK, nodes1)"
        "tree_ok nodes1 (P(gs @ [?x] \<mapsto> length nodes))" "grows nodes P nodes1 (P(gs @ [?x] \<mapsto> length nodes))" "length nodes1 = Suc (length nodes)"
      using add_child_ok [where alloc = "alloc i" and ws = ?ws and sys = sys, OF Cons.prems(1,2) None _ _ Cons.prems(5) ms] Cons.prems(3,4) by auto
    have "(P(gs @ [?x] \<mapsto> length nodes)) (gs @ [?x]) = Some (length nodes)" by simp
    from Cons.IH [OF add(2) this depth _ Cons.prems(5) ms, of "i + 1" ?q ?ws] Cons.prems(4) add(4) obtain a nodes' P' where
      IH: "insert_loop alloc iettOP_ADD sys (i + 1) (level_entries ?q ls) (positions ''+'' (offsets ?q ls)) (positions ''#'' (offsets ?q ls)) ?ws ?ms (length nodes) nodes1 = Some (OK, Some a, nodes')"
        "tree_ok nodes' P'" "P' ((gs @ [?x]) @ map level_of ls) = Some a" "grows nodes1 (P(gs @ [?x] \<mapsto> length nodes)) nodes' P'" "length nodes' \<le> length nodes1 + length ls"
        "\<forall>p. P' p \<noteq> None \<longrightarrow> (P(gs @ [?x] \<mapsto> length nodes)) p \<noteq> None \<or> prefix p ((gs @ [?x]) @ map level_of ls)"
      by (auto simp del: fun_upd_apply)
    have "P p \<noteq> None \<or> prefix p (gs @ map level_of (l # ls))" if "P' p \<noteq> None" for p
      using IH(6) that by (cases "p = gs @ [?x]") auto
    then show ?thesis using IH add grows_trans [OF add(3) IH(4)] unfolding step None by (auto intro!: exI [of _ P'])
  qed
qed

text \<open>Finding a filter does not change the tree.\<close>

lemma insert_loop_find:
  assumes "tree_ok nodes P" and "P gs = Some p"
  shows "insert_loop alloc iettOP_FIND sys i (level_entries q ls) (positions ''+'' (offsets q ls)) (positions ''#'' (offsets q ls)) ws ms p nodes =
    Some (if P (gs @ map level_of ls) = None then ISMRC_NotFound else OK, P (gs @ map level_of ls), nodes)"
  using assms(2)
proof (induction ls arbitrary: gs p i q ws ms)
  case (Cons l ls)
  show ?case
  proof (cases "P (gs @ [level_of l])")
    case (Some a)
    then show ?thesis using Cons.IH [OF Some] unfolding insert_loop_Cons [OF assms(1) Cons.prems] Let_def Some option.case by simp
  next
    case None
    then have "P (gs @ level_of l # map level_of ls) = None"
      using prefix_closed [OF assms(1), of "gs @ level_of l # map level_of ls" "gs @ [level_of l]"] by fastforce
    then show ?thesis using None unfolding insert_loop_Cons [OF assms(1) Cons.prems] Let_def None option.case by simp
  qed
qed (simp add: level_entries_def)

end
