(* ===== verification/Subscribing.thy ===== *)
theory Subscribing
  imports SubsInsert "HOL-Library.Multiset"
begin

text \<open>
  Subscribing and publishing. A subscription is in the list of the node of its filter and is counted there and at all nodes above; from this and the search
  follows what a subscriber gets: the messages whose topic its filter matches.
\<close>

section \<open>The topic of a filter\<close>

definition path :: "string \<Rightarrow> level list" where
  "path f = map level_of (levels f)"

lemma path_inj: "path f = path g \<longleftrightarrow> f = g"
proof
  assume "path f = path g"
  moreover have "inj level_of" by (auto simp: inj_def level_of_def split: if_splits)
  ultimately have "levels f = levels g" unfolding path_def by (simp add: inj_map_eq_map)
  then show "f = g" by (metis join_levels)
qed simp

lemma path_matches_filter: "path_matches (path f) (levels t) \<longleftrightarrow> filter_matches f t"
  by (cases "levels f") (auto simp: path_matches_def filter_matches_def path_def level_of_def)

definition topic_of :: "string \<Rightarrow> bool \<Rightarrow> iettTopic_t \<Rightarrow> bool" where
  "topic_of s cards t \<longleftrightarrow> tp_substrings t = offsets 0 (levels s) \<and> tp_substringHashes t = map iett_generateSubstringHash (levels s) \<and>
     (cards \<longrightarrow> card_list (tp_wildcards t) = Some (positions ''+'' (offsets 0 (levels s))) \<and> card_list (tp_multicards t) = Some (positions ''#'' (offsets 0 (levels s)))) \<and>
     tp_wildcardCount t = length (filter ((=) ''+'') (levels s)) \<and> tp_multicardCount t = length (filter ((=) ''#'') (levels s)) \<and>
     tp_sysTopicEndIndex t = (if iettTOPIC_IS_SYSTOPIC (hd (levels s)) then 1 else 0)"

lemma analyse_topic:
  assumes "0 < init"
  shows "\<exists>rc t. iett_analyseTopicString False None copy_ok alloc s (new_topic init cards) = Some (rc, t) \<and>
    (rc = (if length (levels s) \<le> iettMAX_TOPIC_DEPTH then OK else ISMRC_DestNotValid) \<and> topic_of s cards t \<or> rc = ISMRC_AllocateError \<and> \<not> (copy_ok \<and> (\<forall>n. alloc n)))"
proof (cases copy_ok)
  case True
  have "topic_ok (new_topic init cards)" using assms by (simp add: topic_ok_def new_topic_def cap_ok_def cards_ok_def)
  note run = run_levels_spec [OF this, of alloc 0 "levels s"]
  then obtain rc t where rt: "run_levels alloc 0 (levels s) (new_topic init cards) = Some (rc, t)" by blast
  have eq: "iett_analyseTopicString False None copy_ok alloc s (new_topic init cards) = Some (rc, t)"
    using analyse_loop_levels [of "[]" alloc 0 s "new_topic init cards"] True rt by (simp add: iett_analyseTopicString_def iett_generateSubstringHash_def)
  show ?thesis
  proof (cases "rc = OK \<or> rc = ISMRC_DestNotValid")
    case True
    then show ?thesis using run [unfolded rt] unfolding eq
      by (intro exI [of _ rc] exI [of _ t]) (auto simp: topic_of_def new_topic_def rc_defs ISMRC_DestNotValid_def card_list_def)
  next
    case False
    then show ?thesis using run [unfolded rt] unfolding eq by auto
  qed
qed (simp add: iett_analyseTopicString_def)

lemma array_size_pos: "0 < iettDEFAULT_SUBSTRING_ARRAY_SIZE"
  by (simp add: iettDEFAULT_SUBSTRING_ARRAY_SIZE_def)

section \<open>Counting subscriptions\<close>

text \<open>The fields that the shape of the tree depends on are not changed by a subscription.\<close>

definition shape :: "iettSubsNode_t \<Rightarrow> iettSubsNode_t" where
  "shape node = node\<lparr>sn_activeSubs := \<lparr>sl_list = [], sl_max = 0\<rparr>, sn_totalSubsCount := 0, sn_activeSelection := 0, sn_activeCluster := 0\<rparr>"

lemma node_ok_shape: "node_ok n P fs (shape node) \<longleftrightarrow> node_ok n P fs node"
  by (simp add: node_ok_def shape_def)

lemma tree_ok_shape:
  assumes "map shape nodes' = map shape nodes" and "tree_ok nodes P"
  shows "tree_ok nodes' P"
proof -
  have "length nodes' = length nodes" using assms(1) by (rule map_eq_imp_length_eq)
  moreover have "node_ok n P fs (nodes' ! a) \<longleftrightarrow> node_ok n P fs (nodes ! a)" if "a < length nodes" for n fs a
    using arg_cong [OF assms(1), of "\<lambda>xs. xs ! a"] that calculation by (metis node_ok_shape nth_map)
  ultimately show ?thesis using assms(2) unfolding tree_ok_def by auto
qed

lemma shape_update: "shape node' = shape (nodes ! a) \<Longrightarrow> map shape (nodes[a := node']) = map shape nodes"
  by (metis list_update_id map_update)

text \<open>A subscription is counted at its node and all nodes above.\<close>

definition count_below :: "(level list \<Rightarrow> nat option) \<Rightarrow> level list \<Rightarrow> nat \<Rightarrow> iettSubsNode_t \<Rightarrow> iettSubsNode_t" where
  "count_below P fs b node = (if \<exists>p. P p = Some b \<and> prefix p fs then node\<lparr>sn_totalSubsCount := sn_totalSubsCount node + 1\<rparr> else node)"

lemma shape_count_below [simp]: "shape (count_below P fs b node) = shape node"
  by (simp add: count_below_def shape_def)

lemma count_up_ok:
  assumes "tree_ok nodes P" and "P fs = Some a" and "length fs < fuel"
  shows "\<exists>nodes'. count_up fuel a nodes = Some nodes' \<and> length nodes' = length nodes \<and> (\<forall>b < length nodes. nodes' ! b = count_below P fs b (nodes ! b))"
  using assms
proof (induction fuel arbitrary: nodes fs a)
  case (Suc fuel)
  let ?nodes = "nodes[a := (nodes ! a)\<lparr>sn_totalSubsCount := sn_totalSubsCount (nodes ! a) + 1\<rparr>]"
  have a: "a < length nodes" and parent: "sn_parent (nodes ! a) = (if fs = [] then None else P (butlast fs))" using tree_okD [OF Suc.prems(1,2)] by auto
  show ?case
  proof (cases fs rule: rev_cases)
    case Nil
    have "P p = Some b \<and> prefix p [] \<longleftrightarrow> b = a \<and> p = []" for p b using Suc.prems(2) Nil by auto
    then have "?nodes ! b = count_below P fs b (nodes ! b)" if "b < length nodes" for b using that a Nil by (auto simp: count_below_def nth_list_update)
    then show ?thesis using Nil parent a by (auto simp: Let_def)
  next
    case (snoc gs x)
    have "P gs \<noteq> None" using Suc.prems(1,2) snoc unfolding tree_ok_def by auto
    then obtain p where p: "P gs = Some p" by auto
    have "tree_ok ?nodes P" by (rule tree_ok_shape [OF shape_update Suc.prems(1)]) (simp add: shape_def)
    from Suc.IH [OF this p] obtain nodes' where IH: "count_up fuel p ?nodes = Some nodes'" "length nodes' = length nodes" "\<forall>b < length nodes. nodes' ! b = count_below P gs b (?nodes ! b)"
      using Suc.prems(3) snoc by auto
    have "nodes' ! b = count_below P fs b (nodes ! b)" if b: "b < length nodes" for b
    proof (cases "b = a")
      case True
      have "P q = Some a \<Longrightarrow> q = fs" for q using tree_ok_inj [OF Suc.prems(1) _ Suc.prems(2)] .
      moreover have "\<not> prefix fs gs" using snoc by (auto dest: prefix_length_le)
      ultimately have "\<not> (\<exists>q. P q = Some a \<and> prefix q gs)" "\<exists>q. P q = Some a \<and> prefix q fs" using Suc.prems(2) by blast+
      then show ?thesis using IH(3) b True by (simp add: count_below_def)
    next
      case False
      then have "P q = Some b \<and> prefix q fs \<longleftrightarrow> P q = Some b \<and> prefix q gs" for q using Suc.prems(2) snoc by auto
      then show ?thesis using IH(3) b False by (simp add: count_below_def)
    qed
    then show ?thesis using IH(1,2) snoc parent p a by (auto simp: Let_def)
  qed
qed simp

section \<open>Subscribing\<close>

text \<open>The subscriptions to the filter with the path \<open>p\<close>, in the order they came, and those at or below \<open>p\<close>.\<close>

definition subs_at :: "level list \<Rightarrow> (string \<times> nat) list \<Rightarrow> nat list" where
  "subs_at p subs = map snd (filter (\<lambda>(f, s). path f = p) subs)"

definition subs_below :: "level list \<Rightarrow> (string \<times> nat) list \<Rightarrow> nat list" where
  "subs_below p subs = map snd (filter (\<lambda>(f, s). prefix p (path f)) subs)"

definition multi_subs :: "(string \<times> nat) list \<Rightarrow> nat list" where
  "multi_subs subs = map snd (filter (\<lambda>(f, s). 1 < count_list (path f) Hash) subs)"

lemmas subs_defs = subs_at_def subs_below_def multi_subs_def

definition node_at :: "(string \<times> nat) list \<Rightarrow> level list \<Rightarrow> iettSubsNode_t \<Rightarrow> bool" where
  "node_at subs p node \<longleftrightarrow> \<not> sn_stats node \<and> sl_list (sn_activeSubs node) = subs_at p subs \<and> length (subs_at p subs) \<le> unat (sl_max (sn_activeSubs node)) \<and>
     sn_totalSubsCount node = of_nat (length (subs_below p subs))"

definition routes :: "(string \<times> nat) list \<Rightarrow> (level list \<Rightarrow> nat option) \<Rightarrow> subs_nodes \<Rightarrow> bool" where
  "routes subs P nodes \<longleftrightarrow> tree_ok nodes P \<and> (\<forall>p a. P p = Some a \<longrightarrow> node_at subs p (nodes ! a)) \<and> (\<forall>(f, s) \<in> set subs. P (path f) \<noteq> None)"

definition paths_ok :: "(string \<times> nat) list \<Rightarrow> (level list \<Rightarrow> nat option) \<Rightarrow> bool" where
  "paths_ok subs P \<longleftrightarrow> (\<forall>p. P p \<noteq> None \<longrightarrow> p = [] \<or> (\<exists>(f, s) \<in> set subs. prefix p (path f)))"

definition subscribed :: "(string \<times> nat) list \<Rightarrow> iettTopicTree_t \<Rightarrow> bool" where
  "subscribed subs tree \<longleftrightarrow> (\<exists>P. routes subs P (tt_nodes tree) \<and> paths_ok subs P) \<and> length (tt_nodes tree) \<le> Suc (iettMAX_TOPIC_DEPTH * length subs) \<and>
     tt_multiMultiSubs tree = of_nat (length (multi_subs subs)) \<and> tt_subsUpdates tree = of_nat (Suc (length subs)) \<and> (\<forall>s. s \<notin> snd ` set subs \<longrightarrow> tt_nodeListIndex tree s = 0xFFFFFFFF)"

lemma addSubscription_ok:
  assumes "length (sl_list sl) \<le> unat (sl_max sl)" and "length (sl_list sl) < 2 ^ 31" and "idx s = 0xFFFFFFFF"
  shows "\<exists>m. iett_addSubscriptionToSubsNode True s idx sl = Some (OK, idx(s := of_nat (length (sl_list sl))), \<lparr>sl_list = sl_list sl @ [s], sl_max = m\<rparr>) \<and> length (sl_list sl) < unat m"
proof -
  let ?n = "length (sl_list sl)"
  have n: "unat (of_nat ?n :: u32) = ?n" using assms(2) by (simp add: unat_of_nat)
  show ?thesis
  proof (cases "of_nat ?n = sl_max sl")
    case True
    then have max: "unat (sl_max sl) = ?n" using n by metis
    show ?thesis
    proof (cases "sl_max sl = 0")
      case zero: True
      then show ?thesis using max assms(3) by (simp add: iett_addSubscriptionToSubsNode_def iettINITIAL_SUBSCRIBER_ARRAY_CAPACITY_def)
    next
      case False
      have "unat (sl_max sl * 2) = ?n * 2" using unat_times [of "sl_max sl" 2] max assms(2) by simp
      moreover have "0 < ?n" using False max unat_eq_0 [of "sl_max sl"] by auto
      ultimately show ?thesis using True False assms(3) by (auto simp: iett_addSubscriptionToSubsNode_def Let_def)
    qed
  next
    case False
    have "?n \<noteq> unat (sl_max sl)"
    proof
      assume "?n = unat (sl_max sl)"
      then show False using False by (metis of_nat_unat ucast_id)
    qed
    then have "?n < unat (sl_max sl)" using assms(1) by simp
    then show ?thesis using False assms(3) by (auto simp: iett_addSubscriptionToSubsNode_def Let_def)
  qed
qed

lemma routes_grows:
  assumes "routes subs P nodes" and "grows nodes P nodes' P'" and "tree_ok nodes' P'"
  shows "routes subs P' nodes'"
proof -
  note r = assms(1) [unfolded routes_def] and g = assms(2) [unfolded grows_def]
  have "node_at subs p (nodes' ! a)" if a: "P' p = Some a" for p a
  proof (cases "P p")
    case None
    have "P p = Some a \<or> length nodes \<le> a" using g a by blast
    then have "length nodes \<le> a" "a < length nodes'" using None tree_okD(1) [OF assms(3) a] by auto
    then have same: "same_subs empty_node (nodes' ! a)" using g by blast
    have "\<not> prefix p (path f)" if "(f, s) \<in> set subs" for f s using that r prefix_closed [of nodes P "path f" p] None by auto
    then have "subs_below p subs = []" "subs_at p subs = []" by (auto simp: subs_defs filter_empty_conv)
    then show ?thesis using same by (simp add: node_at_def same_subs_def empty_node_def)
  next
    case (Some b)
    then have "b = a" using g a by (auto simp: map_le_def dom_def)
    then have "same_subs (nodes ! a) (nodes' ! a)" "node_at subs p (nodes ! a)" using g r Some tree_okD(1) [of nodes P p a] by auto
    then show ?thesis by (simp add: node_at_def same_subs_def)
  qed
  moreover have "P' (path f) \<noteq> None" if "(f, s) \<in> set subs" for f s
  proof -
    have "P (path f) \<noteq> None" using r that by blast
    then show ?thesis using g by (auto simp: map_le_def dom_def)
  qed
  ultimately show ?thesis using assms(3) unfolding routes_def by auto
qed

lemma subs_snoc:
  "subs_at p (subs @ [(f, s)]) = subs_at p subs @ (if p = path f then [s] else [])"
  "length (subs_below p (subs @ [(f, s)])) = length (subs_below p subs) + (if prefix p (path f) then 1 else 0)"
  "length (multi_subs (subs @ [(f, s)])) = length (multi_subs subs) + (if 1 < count_list (path f) Hash then 1 else 0)"
  by (auto simp: subs_defs)

lemma length_subs_at: "length (subs_at p subs) \<le> length subs"
  by (simp add: subs_defs)

lemma add_to_node_routes:
  assumes routes: "routes subs P nodes" and a: "P (path f) = Some a"
    and node: "sl_list (sn_activeSubs node) = sl_list (sn_activeSubs (nodes ! a)) @ [s]" "length (sl_list (sn_activeSubs (nodes ! a))) < unat (sl_max (sn_activeSubs node))"
      "shape node = shape (nodes ! a)" "sn_totalSubsCount node = sn_totalSubsCount (nodes ! a)"
  shows "\<exists>nodes'. count_up (iettMAX_TOPIC_DEPTH + 2) a (nodes[a := node]) = Some nodes' \<and> routes (subs @ [(f, s)]) P nodes' \<and> length nodes' = length nodes"
proof -
  have tree: "tree_ok nodes P" using routes by (simp add: routes_def)
  have alen: "a < length nodes" "length (path f) \<le> iettMAX_TOPIC_DEPTH" using tree_okD [OF tree a] by auto
  have same: "map shape (nodes[a := node]) = map shape nodes" using node(3) by (rule shape_update)
  obtain nodes' where up: "count_up (iettMAX_TOPIC_DEPTH + 2) a (nodes[a := node]) = Some nodes'" "length nodes' = length nodes"
      "\<forall>b < length nodes. nodes' ! b = count_below P (path f) b (nodes[a := node] ! b)"
    using count_up_ok [OF tree_ok_shape [OF same tree] a, of "iettMAX_TOPIC_DEPTH + 2"] alen(2) by auto
  have "tree_ok nodes' P"
  proof (rule tree_ok_shape [OF _ tree])
    show "map shape nodes' = map shape nodes" using up(2,3) same by (intro nth_equalityI) (simp_all, metis length_list_update nth_map shape_count_below)
  qed
  moreover have "node_at (subs @ [(f, s)]) p (nodes' ! b)" if b: "P p = Some b" for p b
  proof -
    have old: "node_at subs p (nodes ! b)" and blen: "b < length nodes" using routes b tree_okD(1) [OF tree b] by (auto simp: routes_def)
    have "(\<exists>q. P q = Some b \<and> prefix q (path f)) \<longleftrightarrow> prefix p (path f)" using b tree_ok_inj [OF tree] by blast
    then have new: "nodes' ! b = (if prefix p (path f) then (nodes[a := node] ! b)\<lparr>sn_totalSubsCount := sn_totalSubsCount (nodes[a := node] ! b) + 1\<rparr> else nodes[a := node] ! b)"
      using up(3) blen by (simp add: count_below_def)
    have "b = a \<longleftrightarrow> p = path f" using a b tree_ok_inj [OF tree] by auto
    moreover have "sn_stats node = sn_stats (nodes ! a)" using arg_cong [OF node(3), of sn_stats] by (simp add: shape_def)
    ultimately show ?thesis using old node alen blen by (auto simp: new node_at_def subs_snoc nth_list_update)
  qed
  moreover have "\<forall>(g, t) \<in> set (subs @ [(f, s)]). P (path g) \<noteq> None" using routes a by (auto simp: routes_def)
  ultimately have "routes (subs @ [(f, s)]) P nodes'" unfolding routes_def by blast
  then show ?thesis using up(1,2) by blast
qed

lemma add_to_node_ok:
  assumes routes: "routes subs P (tt_nodes tree)" and a: "P (path f) = Some a" and n: "length subs < 2 ^ 31" and s: "tt_nodeListIndex tree s = 0xFFFFFFFF"
  shows "\<exists>tree'. add_to_node True s cluster selection a tree = Some (OK, tree') \<and> routes (subs @ [(f, s)]) P (tt_nodes tree') \<and> length (tt_nodes tree') = length (tt_nodes tree) \<and>
    tt_multiMultiSubs tree' = tt_multiMultiSubs tree + (if 1 < count_list (path f) Hash then 1 else 0) \<and>
    (\<forall>t. t \<noteq> s \<longrightarrow> tt_nodeListIndex tree' t = tt_nodeListIndex tree t) \<and> tt_node tree' = (tt_node tree)(s \<mapsto> a) \<and> tt_subscriptions tree' = s # tt_subscriptions tree \<and>
    tt_subsUpdates tree' = tt_subsUpdates tree + 1"
proof -
  let ?node = "tt_nodes tree ! a"
  have tree: "tree_ok (tt_nodes tree) P" and at: "node_at subs (path f) ?node" using routes a by (auto simp: routes_def)
  have alen: "\<not> length (tt_nodes tree) \<le> a" using tree_okD(1) [OF tree a] by simp
  have "length (sl_list (sn_activeSubs ?node)) \<le> unat (sl_max (sn_activeSubs ?node))" "length (sl_list (sn_activeSubs ?node)) < 2 ^ 31"
    using at n length_subs_at [of "path f" subs] by (auto simp: node_at_def)
  from addSubscription_ok [of _ "tt_nodeListIndex tree", OF this s] obtain m where
    add: "iett_addSubscriptionToSubsNode True s (tt_nodeListIndex tree) (sn_activeSubs ?node) =
        Some (OK, (tt_nodeListIndex tree)(s := of_nat (length (sl_list (sn_activeSubs ?node)))), \<lparr>sl_list = sl_list (sn_activeSubs ?node) @ [s], sl_max = m\<rparr>)"
      "length (sl_list (sn_activeSubs ?node)) < unat m" by blast
  define node where "node = ?node\<lparr>sn_activeSubs := \<lparr>sl_list = sl_list (sn_activeSubs ?node) @ [s], sl_max = m\<rparr>,
    sn_activeCluster := sn_activeCluster ?node + (if cluster then 1 else 0), sn_activeSelection := sn_activeSelection ?node + selection\<rparr>"
  obtain nodes' where up: "count_up (iettMAX_TOPIC_DEPTH + 2) a ((tt_nodes tree)[a := node]) = Some nodes'" "routes (subs @ [(f, s)]) P nodes'" "length nodes' = length (tt_nodes tree)"
    using add_to_node_routes [OF routes a, of node s] add(2) by (auto simp: node_def shape_def)
  show ?thesis using alen add(1) up tree_okD(6) [OF tree a]
    unfolding add_to_node_def Let_def by (simp del: count_up.simps flip: node_def)
qed

lemma insertOrFind_add:
  assumes routes: "routes subs P nodes" and topic: "topic_of f True topic" and depth: "length (levels f) \<le> iettMAX_TOPIC_DEPTH"
    and n: "length nodes + iettMAX_TOPIC_DEPTH \<le> 2 ^ 25" and alloc: "\<And>i k. alloc i k"
  shows "\<exists>a nodes' P'. iett_insertOrFindSubsNode alloc topic iettOP_ADD 0 nodes = Some (OK, Some a, nodes') \<and> routes subs P' nodes' \<and> P' (path f) = Some a \<and>
    length nodes' \<le> length nodes + iettMAX_TOPIC_DEPTH \<and> (\<forall>p. P' p \<noteq> None \<longrightarrow> P p \<noteq> None \<or> prefix p (path f))"
proof -
  have tree: "tree_ok nodes P" and root: "P [] = Some 0" using routes by (auto simp: routes_def tree_ok_def)
  let ?ls = "levels f"
  obtain a nodes' P' where ins: "insert_loop alloc iettOP_ADD (tp_sysTopicEndIndex topic) 0 (level_entries 0 ?ls) (positions ''+'' (offsets 0 ?ls)) (positions ''#'' (offsets 0 ?ls)) 0 0 0 nodes =
        Some (OK, Some a, nodes')" "tree_ok nodes' P'" "P' ([] @ map level_of ?ls) = Some a" "grows nodes P nodes' P'" "length nodes' \<le> length nodes + length ?ls"
        "\<forall>p. P' p \<noteq> None \<longrightarrow> P p \<noteq> None \<or> prefix p ([] @ map level_of ?ls)"
    using insert_loop_add [OF tree root, of ?ls alloc 0 "tp_sysTopicEndIndex topic" 0 0 0] depth n alloc by auto
  have ne: "offsets 0 ?ls \<noteq> []" by (cases ?ls) auto
  have "iett_insertOrFindSubsNode alloc topic iettOP_ADD 0 nodes = Some (OK, Some a, nodes')"
    using topic ins(1) ne by (auto simp: iett_insertOrFindSubsNode_def topic_of_def card_list_def level_entries_def)
  then show ?thesis using routes_grows [OF routes ins(4,2)] ins(3,5,6) depth by (auto simp: path_def)
qed

text \<open>
  A subscription is added when no allocation fails; a filter of too many levels is refused and changes nothing.
\<close>

lemma subscribe_ok:
  assumes sub: "subscribed subs tree" and n: "Suc (length subs) < 2 ^ 20" and new: "s \<notin> snd ` set subs" and depth: "length (levels f) \<le> iettMAX_TOPIC_DEPTH"
  shows "\<exists>tree'. iett_addSubToEngineTopic (\<lambda>_. True) (\<lambda>_ _. True) True f s cluster selection tree = Some (OK, tree') \<and> subscribed (subs @ [(f, s)]) tree'"
proof -
  obtain P where routes: "routes subs P (tt_nodes tree)" and paths: "paths_ok subs P" and len: "length (tt_nodes tree) \<le> Suc (iettMAX_TOPIC_DEPTH * length subs)"
    and idx: "\<forall>s. s \<notin> snd ` set subs \<longrightarrow> tt_nodeListIndex tree s = 0xFFFFFFFF" and multi: "tt_multiMultiSubs tree = of_nat (length (multi_subs subs))"
    and updates: "tt_subsUpdates tree = of_nat (Suc (length subs))"
    using sub by (auto simp: subscribed_def)
  obtain t where t: "iett_analyseTopicString False None True (\<lambda>_. True) f (new_topic iettDEFAULT_SUBSTRING_ARRAY_SIZE True) = Some (OK, t)" "topic_of f True t"
    using analyse_topic [OF array_size_pos, of True "\<lambda>_. True" f True] depth by auto
  have "length (tt_nodes tree) + iettMAX_TOPIC_DEPTH \<le> 2 ^ 25" using len n by (simp add: iettMAX_TOPIC_DEPTH_def)
  from insertOrFind_add [OF routes t(2) depth this, of "\<lambda>_ _. True"] obtain a nodes' P' where
    ins: "iett_insertOrFindSubsNode (\<lambda>_ _. True) t iettOP_ADD 0 (tt_nodes tree) = Some (OK, Some a, nodes')" "routes subs P' nodes'" "P' (path f) = Some a"
      "length nodes' \<le> length (tt_nodes tree) + iettMAX_TOPIC_DEPTH" "\<forall>p. P' p \<noteq> None \<longrightarrow> P p \<noteq> None \<or> prefix p (path f)" by auto
  let ?tree = "tree\<lparr>tt_nodes := nodes'\<rparr>"
  obtain tree' where add: "add_to_node True s cluster selection a ?tree = Some (OK, tree')" "routes (subs @ [(f, s)]) P' (tt_nodes tree')" "length (tt_nodes tree') = length nodes'"
      "tt_multiMultiSubs tree' = tt_multiMultiSubs tree + (if 1 < count_list (path f) Hash then 1 else 0)" "\<forall>t. t \<noteq> s \<longrightarrow> tt_nodeListIndex tree' t = tt_nodeListIndex tree t"
      "tt_subsUpdates tree' = tt_subsUpdates tree + 1"
    using add_to_node_ok [of subs P' ?tree f a s cluster selection] ins(2,3) n idx new by auto
  have "paths_ok (subs @ [(f, s)]) P'" using paths ins(5) unfolding paths_ok_def by fastforce
  then have "subscribed (subs @ [(f, s)]) tree'" unfolding subscribed_def using add(2-6) ins(4) len idx multi updates by (auto simp: subs_snoc)
  then show ?thesis using t(1) ins(1) add(1) by (auto simp: iett_addSubToEngineTopic_def)
qed

lemma create_subscribed: "subscribed [] iett_createTopicTree"
proof -
  let ?P = "[[] \<mapsto> 0] :: level list \<Rightarrow> nat option" and ?root = "empty_node\<lparr>sn_nodeFlags := iettNODE_FLAG_TREE_ROOT\<rparr>"
  have "node_ok 1 ?P [] ?root" by (simp add: node_ok_def empty_node_def type_of_def iettNODE_FLAG_defs)
  then have "tree_ok [?root] ?P" by (auto simp: tree_ok_def split: if_splits)
  moreover have "node_at [] [] ?root" by (simp add: node_at_def empty_node_def subs_defs)
  ultimately have "routes [] ?P [?root]" by (auto simp: routes_def split: if_splits)
  then show ?thesis by (auto simp: subscribed_def iett_createTopicTree_def subs_defs paths_ok_def intro!: exI [of _ ?P] split: if_splits)
qed

section \<open>The subscribers of a topic\<close>

definition matching :: "(string \<times> nat) list \<Rightarrow> string \<Rightarrow> nat set" where
  "matching subs t = {s. \<exists>f. (f, s) \<in> set subs \<and> filter_matches f t}"

lemma subs_at_iff: "s \<in> set (subs_at p subs) \<longleftrightarrow> (\<exists>f. (f, s) \<in> set subs \<and> path f = p)"
  by (force simp: subs_defs)

lemma routes_active: "routes subs P nodes \<Longrightarrow> P p = Some a \<Longrightarrow> is_active nodes a \<longleftrightarrow> subs_at p subs \<noteq> []"
  by (simp add: routes_def node_at_def is_active_def)

lemma routes_subscribers:
  assumes "routes subs P nodes"
  shows "(\<Union>a \<in> matching_nodes nodes P (levels t). set (sl_list (sn_activeSubs (nodes ! a)))) = matching subs t"
proof (intro set_eqI iffI)
  fix s assume "s \<in> (\<Union>a \<in> matching_nodes nodes P (levels t). set (sl_list (sn_activeSubs (nodes ! a))))"
  then obtain p a where "P p = Some a" "path_matches p (levels t)" "s \<in> set (subs_at p subs)" using assms by (auto simp: matching_nodes_def routes_def node_at_def)
  then show "s \<in> matching subs t" by (auto simp: subs_at_iff matching_def path_matches_filter)
next
  fix s assume "s \<in> matching subs t"
  then obtain f where f: "(f, s) \<in> set subs" "path_matches (path f) (levels t)" by (auto simp: matching_def path_matches_filter)
  then have "P (path f) \<noteq> None" using assms by (auto simp: routes_def)
  then obtain a where a: "P (path f) = Some a" by auto
  have s: "s \<in> set (subs_at (path f) subs)" using f(1) by (auto simp: subs_at_iff)
  then have "is_active nodes a" using routes_active [OF assms a] by auto
  then have "a \<in> matching_nodes nodes P (levels t)" using a f(2) by (auto simp: matching_nodes_def)
  moreover have "s \<in> set (sl_list (sn_activeSubs (nodes ! a)))" using s a assms by (auto simp: routes_def node_at_def)
  ultimately show "s \<in> (\<Union>a \<in> matching_nodes nodes P (levels t). set (sl_list (sn_activeSubs (nodes ! a))))" by blast
qed

lemma routes_distinct:
  assumes "routes subs P nodes" and "distinct (map snd subs)" and "distinct as" and "set as \<subseteq> matching_nodes nodes P ts"
  shows "distinct (concat (map (\<lambda>a. sl_list (sn_activeSubs (nodes ! a))) as))"
proof -
  have at: "\<exists>p. P p = Some a \<and> sl_list (sn_activeSubs (nodes ! a)) = subs_at p subs" if "a \<in> set as" for a
    using that assms(1,4) by (fastforce simp: matching_nodes_def routes_def node_at_def)
  have once: "f = g" if "(f, s) \<in> set subs" "(g, s) \<in> set subs" for f g s using inj_onD [of snd "set subs" "(f, s)" "(g, s)"] assms(2) that by (simp add: distinct_map)
  have "distinct (sl_list (sn_activeSubs (nodes ! a)))" if "a \<in> set as" for a
    using at [OF that] assms(2) by (auto simp: subs_defs distinct_map inj_on_def)
  moreover have "set (sl_list (sn_activeSubs (nodes ! a))) \<inter> set (sl_list (sn_activeSubs (nodes ! b))) = {}" if ab: "a \<in> set as" "b \<in> set as" "a \<noteq> b" for a b
  proof -
    obtain p q where pq: "P p = Some a" "sl_list (sn_activeSubs (nodes ! a)) = subs_at p subs" "P q = Some b" "sl_list (sn_activeSubs (nodes ! b)) = subs_at q subs"
      using at ab(1,2) by blast
    have "p \<noteq> q" using ab(3) pq by auto
    have False if "s \<in> set (subs_at p subs)" "s \<in> set (subs_at q subs)" for s using that once \<open>p \<noteq> q\<close> unfolding subs_at_iff by metis
    then show ?thesis unfolding pq by blast
  qed
  ultimately show ?thesis using assms(3)
  proof (induction as)
    case (Cons a as)
    have "set (sl_list (sn_activeSubs (nodes ! a))) \<inter> set (sl_list (sn_activeSubs (nodes ! b))) = {}" if "b \<in> set as" for b
      using Cons.prems(2) [of a b] Cons.prems(3) that by auto
    then show ?case using Cons by auto
  qed simp
qed

lemma routes_multi:
  assumes "routes subs P nodes" and "multi_subs subs = []" and "P p = Some a" and "is_active nodes a"
  shows "count_list p Hash \<le> 1"
proof -
  have "subs_at p subs \<noteq> []" using routes_active [OF assms(1,3)] assms(4) by simp
  then obtain f s where "(f, s) \<in> set subs" "path f = p" by (auto simp: subs_defs filter_empty_conv)
  then show ?thesis using assms(2) by (auto simp: subs_defs filter_empty_conv not_less)
qed

definition valid_topic :: "string \<Rightarrow> bool" where
  "valid_topic t \<longleftrightarrow> length (levels t) \<le> iettMAX_TOPIC_DEPTH \<and> ''+'' \<notin> set (levels t) \<and> ''#'' \<notin> set (levels t)"

lemma valid_topic_publish: "valid_topic t \<longleftrightarrow> iett_validateTopicString t iettVALIDATE_FOR_PUBLISH"
  using validate_loop_levels [of "[]" iettVALIDATE_FOR_PUBLISH 0 t] validate_levels_iff [of "levels t" iettVALIDATE_FOR_PUBLISH 0]
  by (simp add: valid_topic_def iett_validateTopicString_def)

lemma topic_of_search:
  assumes "topic_of t cards topic" and "valid_topic t"
  shows "topic_levels topic (levels t)" and "tp_wildcardCount topic = 0" and "tp_multicardCount topic = 0"
    and "tp_sysTopicEndIndex topic = (if iettTOPIC_IS_SYSTOPIC (hd (levels t)) then 1 else 0)"
proof -
  have "map snd (offsets p ls) = ls" for p ls by (induction p ls rule: offsets.induct) auto
  then show "topic_levels topic (levels t)" using assms(1) by (simp add: topic_levels_def topic_of_def)
  have "filter ((=) ''+'') (levels t) = []" "filter ((=) ''#'') (levels t) = []" using assms(2) by (auto simp: valid_topic_def filter_empty_conv)
  then show "tp_wildcardCount topic = 0" "tp_multicardCount topic = 0" using assms(1) by (simp_all add: topic_of_def)
qed (use assms(1) in \<open>simp add: topic_of_def\<close>)

lemma getSubscriberList_ok:
  assumes sub: "subscribed subs tree" and dist: "distinct (map snd subs)" and n: "length subs < 2 ^ 31" and t: "valid_topic t"
  shows "\<exists>rc l. iett_getSubscriberList topic_alloc find_alloc list_ok t tree = Some (rc, l) \<and>
    (if rc = ISMRC_AllocateError then \<not> ((\<forall>k. topic_alloc k) \<and> (\<forall>k. find_alloc k) \<and> list_ok)
     else rc = (if matching subs t = {} then ISMRC_NotFound else OK) \<and> distinct (sb_subscribers l) \<and> set (sb_subscribers l) = matching subs t \<and>
       sb_publishSUV l = tt_subsUpdates tree)"
proof -
  let ?nodes = "tt_nodes tree" and ?m = "tt_multiMultiSubs tree \<noteq> 0"
  obtain P where routes: "routes subs P ?nodes" and multi: "tt_multiMultiSubs tree = of_nat (length (multi_subs subs))" using sub by (auto simp: subscribed_def)
  have tree: "tree_ok ?nodes P" using routes by (simp add: routes_def)
  obtain rc topic where topic: "iett_analyseTopicString False None (topic_alloc 0) (\<lambda>n. topic_alloc (n + 1)) t (new_topic iettDEFAULT_SUBSTRING_ARRAY_SIZE False) = Some (rc, topic)"
      "rc = OK \<and> topic_of t False topic \<or> rc = ISMRC_AllocateError \<and> \<not> (\<forall>k. topic_alloc k)"
    using analyse_topic [OF array_size_pos, of "topic_alloc 0" "\<lambda>n. topic_alloc (n + 1)" t False] t by (auto simp: valid_topic_def)
  show ?thesis
  proof (cases "rc = OK")
    case True
    then have of: "topic_of t False topic" using topic(2) by (auto simp: rc_defs)
    note search = topic_of_search [OF of t]
    have "length (multi_subs subs) < 2 ^ 64" using n by (auto simp: subs_defs intro: le_less_trans [OF length_filter_le])
    then have "?m \<or> multi_subs subs = []" using multi by (auto simp: of_nat_eq_0_iff_u64)
    then have "?m \<or> (\<forall>p a. P p = Some a \<and> is_active ?nodes a \<longrightarrow> count_list p Hash \<le> 1)" using routes_multi [OF routes] by blast
    from findMatching_root [OF tree search(1) levels_not_Nil search(4) this, of find_alloc False] obtain rc' found where
      find: "iett_findMatchingSubsNodes find_alloc False ?m ?nodes topic (iettMAX_TOPIC_DEPTH + 1) 0 0 empty_found = Some (rc', found)"
        "rc' = OK \<and> distinct (fo_nodes found) \<and> set (fo_nodes found) = matching_nodes ?nodes P (levels t) \<or> rc' = ISMRC_AllocateError \<and> \<not> (\<forall>n. find_alloc n)" by blast
    let ?xs = "concat (map (\<lambda>a. sl_list (sn_activeSubs (?nodes ! a))) (fo_nodes found))"
    have get: "iett_getSubscriberList topic_alloc find_alloc list_ok t tree =
        (if rc' \<noteq> OK then Some (rc', empty_list) else copy_subscribers list_ok tree (fo_nodes found))"
      using topic(1) True search(2,3) find(1) by (simp add: iett_getSubscriberList_def empty_found_def)
    show ?thesis
    proof (cases "rc' = OK")
      case ok: True
      then have f: "distinct (fo_nodes found)" "set (fo_nodes found) = matching_nodes ?nodes P (levels t)" using find(2) by (auto simp: rc_defs)
      have xs: "set ?xs = matching subs t" using routes_subscribers [OF routes, of t] f(2) by simp
      have "distinct ?xs" using f by (intro routes_distinct [OF routes dist f(1), of "levels t"]) simp
      moreover have "fo_nodes found = [] \<longleftrightarrow> matching subs t = {}"
      proof -
        have "sl_list (sn_activeSubs (?nodes ! a)) \<noteq> []" if "a \<in> set (fo_nodes found)" for a
          using that routes_active [OF routes] routes unfolding f(2) by (auto simp: matching_nodes_def routes_def node_at_def)
        then show ?thesis unfolding xs [symmetric] by (cases "fo_nodes found") auto
      qed
      moreover have "tt_subsUpdates tree \<noteq> 0"
      proof -
        have "tt_subsUpdates tree = of_nat (Suc (length subs))" using sub by (simp add: subscribed_def)
        moreover have "Suc (length subs) < 2 ^ 64" using n by simp
        ultimately show ?thesis using of_nat_eq_0_iff_u64 by (metis nat.distinct(1))
      qed
      ultimately show ?thesis using xs ok unfolding get by (auto simp: copy_subscribers_def Let_def comp_def empty_list_def rc_defs)
    next
      case False
      then show ?thesis using find(2) unfolding get by auto
    qed
  next
    case False
    then show ?thesis using topic by (auto simp: iett_getSubscriberList_def)
  qed
qed

section \<open>The list of a node\<close>

text \<open>Each subscription in the list knows its index.\<close>

definition index_ok :: "(nat \<Rightarrow> u32) \<Rightarrow> iettSubscriptionList_t \<Rightarrow> bool" where
  "index_ok idx sl \<longleftrightarrow> length (sl_list sl) \<le> unat (sl_max sl) \<and> (\<forall>i < length (sl_list sl). unat (idx (sl_list sl ! i)) = i) \<and> (sl_list sl = [] \<longrightarrow> sl_max sl = 0)"

lemma index_ok_distinct: "index_ok idx sl \<Longrightarrow> distinct (sl_list sl)"
  unfolding index_ok_def distinct_conv_nth by metis

lemma linear_search_eq: "linear_search s xs = None \<longleftrightarrow> s \<notin> set xs"
  by (induction xs) auto

lemma remove_last_split:
  assumes "m < length xs" and "distinct xs"
  shows "mset (take (length xs - 1) (xs[m := last xs])) = mset xs - {#xs ! m#}"
proof -
  have ne: "xs \<noteq> []" using assms(1) by auto
  let ?ys = "xs[m := last xs]"
  have "take (length xs - 1) ?ys = butlast ?ys" by (simp add: butlast_conv_take)
  moreover have "mset (butlast ?ys) = mset ?ys - {#last ?ys#}" using ne by (metis add_mset_remove_trivial append_butlast_last_id length_greater_0_conv length_list_update mset.simps(2) mset_append mset_rev rev.simps(2) union_mset_add_mset_right add.right_neutral mset.simps(1))
  moreover have "last ?ys = last xs" using ne by (cases "m = length xs - 1") (simp_all add: last_conv_nth nth_list_update)
  moreover have "mset ?ys = add_mset (last xs) (mset xs - {#xs ! m#})" using assms(1) by (simp add: mset_update)
  ultimately show ?thesis by simp
qed

lemma removeSubscription_ok:
  assumes ok: "index_ok idx sl" and s: "s \<in> set (sl_list sl)"
  shows "\<exists>idx' sl'. iett_removeSubscriptionFromSubsNode s idx sl = (OK, idx', sl') \<and> index_ok idx' sl' \<and> mset (sl_list sl') = mset (sl_list sl) - {#s#} \<and>
    idx' s = 0xFFFFFFFF \<and> (\<forall>t. t \<notin> set (sl_list sl) \<longrightarrow> idx' t = idx t)"
proof -
  let ?xs = "sl_list sl"
  obtain m where m: "m < length ?xs" "?xs ! m = s" using s by (auto simp: in_set_conv_nth)
  let ?n = "length ?xs"
  have idx: "unat (idx s) = m" using ok m by (auto simp: index_ok_def)
  have dist: "distinct ?xs" by (rule index_ok_distinct [OF ok])
  have last: "last ?xs = ?xs ! (?n - 1)" using m(1) by (intro last_conv_nth) auto
  define ys where "ys = take (?n - 1) (?xs[m := last ?xs])"
  define idx' where "idx' = (if 1 < ?n then idx(last ?xs := of_nat m) else idx)(s := 0xFFFFFFFF)"
  have one: "?xs[m := last ?xs] = ?xs" if "\<not> 1 < ?n"
  proof -
    have "m = ?n - 1" using that m(1) by simp
    then show ?thesis using last by simp
  qed
  have r: "iett_removeSubscriptionFromSubsNode s idx sl = (OK, idx', \<lparr>sl_list = ys, sl_max = (if ?n - 1 = 0 then 0 else sl_max sl)\<rparr>)"
    using m idx one by (auto simp: iett_removeSubscriptionFromSubsNode_def Let_def last ys_def idx'_def)
  have mset: "mset ys = mset ?xs - {#s#}" unfolding ys_def using remove_last_split [OF m(1) dist] m(2) by simp
  have "unat (idx' (ys ! i)) = i" if i: "i < ?n - 1" for i
  proof (cases "i = m")
    case True
    have m32: "unat (of_nat m :: u32) = m" using m(1) ok by (simp add: idx [symmetric])
    have "last ?xs \<noteq> s" using True i m dist last by (metis diff_less length_greater_0_conv less_nat_zero_code nth_eq_iff_index_eq less_irrefl list.size(3) zero_less_one)
    moreover have "1 < ?n" using i by simp
    ultimately show ?thesis using True i m(1) m32 by (simp add: ys_def idx'_def)
  next
    case False
    then have "?xs ! i \<noteq> s" "?xs ! i \<noteq> last ?xs" using i m dist unfolding last by (auto simp: nth_eq_iff_index_eq)
    then show ?thesis using False i ok by (simp add: ys_def idx'_def index_ok_def)
  qed
  moreover have "length ys = ?n - 1" by (simp add: ys_def)
  ultimately have "index_ok idx' \<lparr>sl_list = ys, sl_max = (if ?n - 1 = 0 then 0 else sl_max sl)\<rparr>" using ok by (auto simp: index_ok_def)
  moreover have "idx' t = idx t" if "t \<notin> set ?xs" for t using that s m(1) by (auto simp: idx'_def last)
  ultimately show ?thesis using r mset by (auto simp: idx'_def)
qed

lemma removeSubscription_absent: "s \<notin> set (sl_list sl) \<Longrightarrow> iett_removeSubscriptionFromSubsNode s idx sl = (ISMRC_NotFound, idx, sl)"
proof -
  assume s: "s \<notin> set (sl_list sl)"
  then have "\<not> (unat (idx s) < length (sl_list sl) \<and> sl_list sl ! unat (idx s) = s)" by (metis nth_mem)
  then show ?thesis using s linear_search_eq [of s "sl_list sl"] by (auto simp: iett_removeSubscriptionFromSubsNode_def Let_def)
qed

lemma addSubscription_index:
  assumes ok: "index_ok idx sl" and s: "idx s = 0xFFFFFFFF" and n: "length (sl_list sl) < 2 ^ 31"
  shows "\<exists>rc idx' sl'. iett_addSubscriptionToSubsNode alloc_ok s idx sl = Some (rc, idx', sl') \<and> index_ok idx' sl' \<and>
    (rc = OK \<and> sl_list sl' = sl_list sl @ [s] \<and> (\<forall>t. t \<noteq> s \<longrightarrow> idx' t = idx t) \<or> rc = ISMRC_AllocateError \<and> \<not> alloc_ok \<and> idx' = idx \<and> sl' = sl)"
proof -
  have new: "s \<notin> set (sl_list sl)"
  proof
    assume "s \<in> set (sl_list sl)"
    then obtain i where "i < length (sl_list sl)" "sl_list sl ! i = s" by (auto simp: in_set_conv_nth)
    then show False using ok s n by (auto simp: index_ok_def)
  qed
  obtain m where add: "iett_addSubscriptionToSubsNode True s idx sl = Some (OK, idx(s := of_nat (length (sl_list sl))), \<lparr>sl_list = sl_list sl @ [s], sl_max = m\<rparr>)" "length (sl_list sl) < unat m"
    using addSubscription_ok [where idx = idx, OF _ n s] ok by (auto simp: index_ok_def)
  have "unat (of_nat (length (sl_list sl)) :: u32) = length (sl_list sl)" using n by (simp add: unat_of_nat)
  moreover have "sl_list sl ! i \<noteq> s" if "i < length (sl_list sl)" for i using new that by auto
  ultimately have "index_ok (idx(s := of_nat (length (sl_list sl)))) \<lparr>sl_list = sl_list sl @ [s], sl_max = m\<rparr>"
    using ok add(2) by (auto simp: index_ok_def nth_append less_Suc_eq)
  moreover have "iett_addSubscriptionToSubsNode alloc_ok s idx sl = iett_addSubscriptionToSubsNode True s idx sl \<or>
      \<not> alloc_ok \<and> iett_addSubscriptionToSubsNode alloc_ok s idx sl = Some (ISMRC_AllocateError, idx, sl)"
    by (auto simp: iett_addSubscriptionToSubsNode_def Let_def)
  ultimately show ?thesis using add(1) ok by auto
qed

section \<open>Several subscriptions\<close>

text \<open>Subscribing one after the other, without a failed allocation.\<close>

fun subscribe_all :: "(nat \<Rightarrow> bool) \<Rightarrow> (nat \<Rightarrow> u32) \<Rightarrow> (string \<times> nat) list \<Rightarrow> iettTopicTree_t \<Rightarrow> iettTopicTree_t option" where
  "subscribe_all cluster selection [] tree = Some tree"
| "subscribe_all cluster selection ((f, s) # subs) tree =
     do { (rc, tree) \<leftarrow> iett_addSubToEngineTopic (\<lambda>_. True) (\<lambda>_ _. True) True f s (cluster s) (selection s) tree;
          if rc \<noteq> OK then None else subscribe_all cluster selection subs tree }"

definition valid_subs :: "(string \<times> nat) list \<Rightarrow> bool" where
  "valid_subs subs \<longleftrightarrow> distinct (map snd subs) \<and> length subs < 2 ^ 20 \<and> (\<forall>(f, s) \<in> set subs. iett_validateTopicString f iettVALIDATE_FOR_SUBSCRIBE)"

lemma valid_filter: "iett_validateTopicString f iettVALIDATE_FOR_SUBSCRIBE \<longleftrightarrow> length (levels f) \<le> iettMAX_TOPIC_DEPTH"
  using validate_loop_levels [of "[]" iettVALIDATE_FOR_SUBSCRIBE 0 f] validate_levels_iff [of "levels f" iettVALIDATE_FOR_SUBSCRIBE 0]
  by (simp add: iett_validateTopicString_def)

lemma subscribe_all_ok:
  assumes "subscribed subs0 tree" and "valid_subs (subs0 @ subs)"
  shows "\<exists>tree'. subscribe_all cluster selection subs tree = Some tree' \<and> subscribed (subs0 @ subs) tree'"
  using assms
proof (induction subs arbitrary: subs0 tree)
  case (Cons p subs)
  obtain f s where p: "p = (f, s)" by (cases p)
  have "Suc (length subs0) < 2 ^ 20" "s \<notin> snd ` set subs0" "length (levels f) \<le> iettMAX_TOPIC_DEPTH"
    using Cons.prems(2) by (auto simp: valid_subs_def p valid_filter)
  from subscribe_ok [OF Cons.prems(1) this, of "cluster s" "selection s"] obtain tree1 where
    "iett_addSubToEngineTopic (\<lambda>_. True) (\<lambda>_ _. True) True f s (cluster s) (selection s) tree = Some (OK, tree1)" "subscribed (subs0 @ [p]) tree1" by (auto simp: p)
  moreover from this(2) Cons.IH [of "subs0 @ [p]" tree1] Cons.prems(2) obtain tree' where
    "subscribe_all cluster selection subs tree1 = Some tree'" "subscribed (subs0 @ p # subs) tree'" by auto
  ultimately show ?case by (simp add: p)
qed simp

lemma subscribe_all_new: "valid_subs subs \<Longrightarrow> \<exists>tree. subscribe_all cluster selection subs iett_createTopicTree = Some tree \<and> subscribed subs tree"
  using subscribe_all_ok [OF create_subscribed, of subs] by simp

lemma prefix_take: "prefix xs ys \<longleftrightarrow> take (length xs) ys = xs"
  by (metis append_eq_conv_conj prefix_def append_take_drop_id)

lemma prefix_path: "prefix (path f) (path g) \<longleftrightarrow> prefix (levels f) (levels g)"
proof -
  have inj: "inj level_of" by (auto simp: inj_def level_of_def split: if_splits)
  show ?thesis by (simp add: path_def prefix_take take_map inj_map_eq_map [OF inj])
qed

lemma subs_of_filter: "subs_at (path f) subs = map snd (filter (\<lambda>(g, s). g = f) subs)" "subs_below (path f) subs = map snd (filter (\<lambda>(g, s). prefix (levels f) (levels g)) subs)"
  by (auto simp: subs_defs path_inj prefix_path)

lemma find_filter:
  assumes sub: "subscribed subs tree" and topic: "topic_of f True topic"
  shows "if \<exists>(g, s) \<in> set subs. prefix (levels f) (levels g)
    then \<exists>a. iett_insertOrFindSubsNode alloc topic iettOP_FIND 0 (tt_nodes tree) = Some (OK, Some a, tt_nodes tree) \<and> node_at subs (path f) (tt_nodes tree ! a)
    else iett_insertOrFindSubsNode alloc topic iettOP_FIND 0 (tt_nodes tree) = Some (ISMRC_NotFound, None, tt_nodes tree)"
proof -
  obtain P where routes: "routes subs P (tt_nodes tree)" and paths: "paths_ok subs P" using sub by (auto simp: subscribed_def)
  have tree: "tree_ok (tt_nodes tree) P" and root: "P [] = Some 0" using routes by (auto simp: routes_def tree_ok_def)
  have ne: "offsets 0 (levels f) \<noteq> []" by (cases "levels f") auto
  have find: "iett_insertOrFindSubsNode alloc topic iettOP_FIND 0 (tt_nodes tree) = Some (if P (path f) = None then ISMRC_NotFound else OK, P (path f), tt_nodes tree)"
    using topic insert_loop_find [OF tree root, of alloc "tp_sysTopicEndIndex topic" 0 0 "levels f" 0 0] ne
    by (auto simp: iett_insertOrFindSubsNode_def topic_of_def card_list_def level_entries_def path_def)
  have "P (path f) \<noteq> None \<longleftrightarrow> (\<exists>(g, s) \<in> set subs. prefix (levels f) (levels g))"
  proof
    assume "P (path f) \<noteq> None"
    moreover have "path f \<noteq> []" by (simp add: path_def)
    ultimately show "\<exists>(g, s) \<in> set subs. prefix (levels f) (levels g)" using paths unfolding paths_ok_def prefix_path [symmetric] by blast
  next
    assume "\<exists>(g, s) \<in> set subs. prefix (levels f) (levels g)"
    then obtain g s where "(g, s) \<in> set subs" "prefix (path f) (path g)" by (auto simp: prefix_path)
    then show "P (path f) \<noteq> None" using routes prefix_closed [OF tree] by (fastforce simp: routes_def)
  qed
  then show ?thesis using find routes by (auto simp: routes_def)
qed

section \<open>Properties\<close>

lemma matching_code: "matching subs t = set (map snd (filter (\<lambda>(f, s). filter_matches f t) subs))"
  by (force simp: matching_def)

text \<open>
  C1: A message reaches exactly the subscriptions whose filter matches its topic, each once. After any sequence of fewer than a million subscriptions with
  valid filters and different identities, made without a failed allocation, the list of subscribers for a topic that is valid for publishing is found whatever
  allocations fail: without a failure it has no duplicates and consists of the subscriptions whose filter matches the topic level by level, where a
  multi-level wildcard may stand anywhere and several times, and no wildcard stands for the first level of a topic that starts with \<open>$\<close>;
  the code is \<^verbatim>\<open>ISMRC_NotFound\<close> exactly if there is none, and the count of updates noted in the list is that of the tree.
\<close>

theorem publish_reaches_matching:
  assumes "valid_subs subs" and "iett_validateTopicString t iettVALIDATE_FOR_PUBLISH"
  shows "\<exists>tree rc l. subscribe_all cluster selection subs iett_createTopicTree = Some tree \<and>
    iett_getSubscriberList topic_alloc find_alloc list_ok t tree = Some (rc, l) \<and>
    (if rc = ISMRC_AllocateError then \<not> ((\<forall>k. topic_alloc k) \<and> (\<forall>k. find_alloc k) \<and> list_ok)
     else rc = (if matching subs t = {} then ISMRC_NotFound else OK) \<and> distinct (sb_subscribers l) \<and> set (sb_subscribers l) = matching subs t \<and>
       sb_publishSUV l = of_nat (Suc (length subs)))"
proof -
  obtain tree where tree: "subscribe_all cluster selection subs iett_createTopicTree = Some tree" "subscribed subs tree" using subscribe_all_new [OF assms(1)] by blast
  have "distinct (map snd subs)" "length subs < 2 ^ 31" using assms(1) by (auto simp: valid_subs_def)
  note get = getSubscriberList_ok [OF tree(2) this assms(2) [folded valid_topic_publish]]
  have "tt_subsUpdates tree = of_nat (Suc (length subs))" using tree(2) by (simp add: subscribed_def)
  from get [of topic_alloc find_alloc list_ok, unfolded this] tree(1) show ?thesis by blast
qed

theorem publish_reaches_matching_witness:
  "\<exists>tree l. subscribe_all (\<lambda>_. False) (\<lambda>_. 0) [(''a/+'', 2), (''#'', 3), (''a/#/#'', 4), (''$S/#'', 5), (''b'', 6)] iett_createTopicTree = Some tree \<and>
    iett_getSubscriberList (\<lambda>_. True) (\<lambda>_. True) True ''a/b'' tree = Some (OK, l) \<and> distinct (sb_subscribers l) \<and> set (sb_subscribers l) = {2, 3, 4}"
proof -
  let ?subs = "[(''a/+'', 2), (''#'', 3), (''a/#/#'', 4), (''$S/#'', 5), (''b'', 6)]"
  have "valid_subs ?subs" by (simp add: valid_subs_def valid_filter iettMAX_TOPIC_DEPTH_def)
  moreover have "iett_validateTopicString ''a/b'' iettVALIDATE_FOR_PUBLISH" by (simp add: valid_topic_def iettMAX_TOPIC_DEPTH_def flip: valid_topic_publish)
  moreover have eq: "matching ?subs ''a/b'' = {2, 3, 4}" by (simp add: matching_code filter_matches_def level_of_def iettTOPIC_IS_SYSTOPIC_def)
  ultimately show ?thesis using publish_reaches_matching [of ?subs "''a/b''" "\<lambda>_. False" "\<lambda>_. 0" "\<lambda>_. True" "\<lambda>_. True" True] unfolding eq
    by (auto simp del: subscribe_all.simps split: if_splits)
qed

text \<open>
  C6: The node of a filter. After such a sequence of subscriptions, looking up a valid filter changes nothing and gives \<^verbatim>\<open>ISMRC_NotFound\<close> exactly if its levels
  do not begin the levels of a filter subscribed to; otherwise the node found lists the subscriptions to exactly this filter in the order they were made, and
  counts all those whose filter begins with its levels.
\<close>

theorem filter_node:
  assumes "valid_subs subs" and "iett_validateTopicString f iettVALIDATE_FOR_SUBSCRIBE"
  shows "\<exists>tree topic. subscribe_all cluster selection subs iett_createTopicTree = Some tree \<and>
    iett_analyseTopicString False None True (\<lambda>_. True) f (new_topic iettDEFAULT_SUBSTRING_ARRAY_SIZE True) = Some (OK, topic) \<and>
    (if filter (\<lambda>(g, s). prefix (levels f) (levels g)) subs = []
     then iett_insertOrFindSubsNode alloc topic iettOP_FIND 0 (tt_nodes tree) = Some (ISMRC_NotFound, None, tt_nodes tree)
     else \<exists>a. iett_insertOrFindSubsNode alloc topic iettOP_FIND 0 (tt_nodes tree) = Some (OK, Some a, tt_nodes tree) \<and>
       sl_list (sn_activeSubs (tt_nodes tree ! a)) = map snd (filter (\<lambda>(g, s). g = f) subs) \<and>
       sn_totalSubsCount (tt_nodes tree ! a) = of_nat (length (filter (\<lambda>(g, s). prefix (levels f) (levels g)) subs)))"
proof -
  obtain tree where tree: "subscribe_all cluster selection subs iett_createTopicTree = Some tree" "subscribed subs tree" using subscribe_all_new [OF assms(1)] by blast
  obtain topic where topic: "iett_analyseTopicString False None True (\<lambda>_. True) f (new_topic iettDEFAULT_SUBSTRING_ARRAY_SIZE True) = Some (OK, topic)" "topic_of f True topic"
    using analyse_topic [OF array_size_pos, of True "\<lambda>_. True" f True] assms(2) by (auto simp: valid_filter)
  have "filter (\<lambda>(g, s). prefix (levels f) (levels g)) subs = [] \<longleftrightarrow> \<not> (\<exists>(g, s) \<in> set subs. prefix (levels f) (levels g))" by (auto simp: filter_empty_conv)
  then show ?thesis using tree(1) topic(1) find_filter [OF tree(2) topic(2), of alloc] by (auto simp: node_at_def subs_of_filter split: if_splits)
qed

theorem filter_node_witness:
  "\<exists>tree topic a. subscribe_all (\<lambda>_. False) (\<lambda>_. 0) [(''a/+'', 2), (''a'', 3), (''a/b/c'', 4), (''a'', 5)] iett_createTopicTree = Some tree \<and>
    iett_insertOrFindSubsNode (\<lambda>_ _. True) topic iettOP_FIND 0 (tt_nodes tree) = Some (OK, Some a, tt_nodes tree) \<and>
    sl_list (sn_activeSubs (tt_nodes tree ! a)) = [3, 5] \<and> sn_totalSubsCount (tt_nodes tree ! a) = 4"
proof -
  let ?subs = "[(''a/+'', 2), (''a'', 3), (''a/b/c'', 4), (''a'', 5)]"
  have "valid_subs ?subs" "iett_validateTopicString ''a'' iettVALIDATE_FOR_SUBSCRIBE" by (simp_all add: valid_subs_def valid_filter iettMAX_TOPIC_DEPTH_def)
  from filter_node [OF this, of "\<lambda>_. False" "\<lambda>_. 0" "\<lambda>_ _. True"] show ?thesis by (auto simp del: subscribe_all.simps split: if_splits)
qed

text \<open>
  C19: The list of subscriptions at a node, in which every subscription knows its index. Removing a subscription takes exactly it out, by moving the last one to
  its place, and gives \<^verbatim>\<open>ISMRC_NotFound\<close> exactly if it is not in the list; adding one that is in no list appends it, or changes nothing when the
  allocation fails. Both keep the indices right and the list within its capacity.
\<close>

theorem subscription_list:
  assumes "index_ok idx sl"
  shows "(\<exists>rc idx' sl'. iett_removeSubscriptionFromSubsNode s idx sl = (rc, idx', sl') \<and> index_ok idx' sl' \<and> rc = (if s \<in> set (sl_list sl) then OK else ISMRC_NotFound) \<and>
      mset (sl_list sl') = mset (sl_list sl) - {#s#} \<and> (\<forall>t. t \<notin> set (sl_list sl) \<longrightarrow> idx' t = idx t) \<and> (rc = OK \<longrightarrow> idx' s = 0xFFFFFFFF)) \<and>
    (idx s = 0xFFFFFFFF \<and> length (sl_list sl) < 2 ^ 31 \<longrightarrow>
      (\<exists>rc idx' sl'. iett_addSubscriptionToSubsNode alloc_ok s idx sl = Some (rc, idx', sl') \<and> index_ok idx' sl' \<and>
        (rc = OK \<and> sl_list sl' = sl_list sl @ [s] \<and> (\<forall>t. t \<noteq> s \<longrightarrow> idx' t = idx t) \<or> rc = ISMRC_AllocateError \<and> \<not> alloc_ok \<and> idx' = idx \<and> sl' = sl)))"
proof (rule conjI)
  show "\<exists>rc idx' sl'. iett_removeSubscriptionFromSubsNode s idx sl = (rc, idx', sl') \<and> index_ok idx' sl' \<and> rc = (if s \<in> set (sl_list sl) then OK else ISMRC_NotFound) \<and>
      mset (sl_list sl') = mset (sl_list sl) - {#s#} \<and> (\<forall>t. t \<notin> set (sl_list sl) \<longrightarrow> idx' t = idx t) \<and> (rc = OK \<longrightarrow> idx' s = 0xFFFFFFFF)"
  proof (cases "s \<in> set (sl_list sl)")
    case True
    then show ?thesis using removeSubscription_ok [OF assms True] by auto
  next
    case False
    then show ?thesis using removeSubscription_absent [OF False] assms by (simp add: rc_defs)
  qed
qed (use addSubscription_index [OF assms] in blast)

theorem subscription_list_witness:
  "\<exists>idx sl. iett_removeSubscriptionFromSubsNode 7 ((\<lambda>_. 0xFFFFFFFF)(7 := 0, 8 := 1, 9 := 2)) \<lparr>sl_list = [7, 8, 9], sl_max = 10\<rparr> = (OK, idx, sl) \<and> mset (sl_list sl) = {#8, 9#} \<and>
    idx 7 = 0xFFFFFFFF"
proof -
  have "index_ok ((\<lambda>_. 0xFFFFFFFF)(7 := 0, 8 := 1, 9 := 2)) \<lparr>sl_list = [7, 8, 9], sl_max = 10\<rparr>"
    by (simp add: index_ok_def less_Suc_eq numeral_3_eq_3)
  from subscription_list [OF this, of 7] show ?thesis by auto
qed

end
