(* ===== verification/NumConv.thy ===== *)
theory NumConv
  imports Prelude "HOL-Library.Monad_Syntax"
begin

text \<open>
  Conversion between integers and text: the formatting functions of \<^verbatim>\<open>src/server_utils/src/ismutil.c\<close>
  (\<^verbatim>\<open>ism_common_itoa\<close> and its variants for 64 bits, unsigned, with separators and in hexadecimal)
  and the parsers \<^verbatim>\<open>str2l\<close>, \<^verbatim>\<open>str2ul\<close> and \<^verbatim>\<open>str2ll\<close> of \<^verbatim>\<open>src/server_utils/src/properties.c\<close> over the C
  library's \<^verbatim>\<open>strtol\<close> family.

  A pointer to characters is the list of the bytes that can be read from it on; reading past them has
  no result. A formatting function returns the bytes it stores in the caller's buffer, the
  NUL included; \<open>None\<close> is a store before the start of its own 32 byte buffer.
\<close>

type_synonym mem = "u8 list"

section \<open>Formatting\<close>

text \<open>The digits go into \<^verbatim>\<open>bufr\<close> from its end; the accumulator is what has been stored so far.\<close>

definition digit_char :: "nat \<Rightarrow> u8" where
  "digit_char d = 48 + of_nat d"

fun digit_loop :: "nat \<Rightarrow> mem \<Rightarrow> mem option" where
  "digit_loop val acc =
     (if 32 \<le> length acc then None
      else let acc = digit_char (val mod 10) # acc in
        if val div 10 = 0 then Some acc else digit_loop (val div 10) acc)"

declare digit_loop.simps [simp del]

text \<open>
  The writers of signed integers negate a negative argument. For the smallest integer this overflows in C; the model has the value that two's
  complement gives, which the conversion to unsigned that follows takes as its magnitude.
\<close>

definition ism_common_itoa :: "u32 \<Rightarrow> mem option" where
  "ism_common_itoa ival =
     (if ival <s 0 then map_option (\<lambda>ds. 45 # ds @ [0]) (digit_loop (unat (- ival)) [])
      else map_option (\<lambda>ds. ds @ [0]) (digit_loop (unat ival) []))"

definition ism_common_ltoa :: "u64 \<Rightarrow> mem option" where
  "ism_common_ltoa lval =
     (if lval <s 0 then map_option (\<lambda>ds. 45 # ds @ [0]) (digit_loop (unat (- lval)) [])
      else map_option (\<lambda>ds. ds @ [0]) (digit_loop (unat lval) []))"

definition ism_common_uitoa :: "u32 \<Rightarrow> mem option" where
  "ism_common_uitoa uval = map_option (\<lambda>ds. ds @ [0]) (digit_loop (unat uval) [])"

definition ism_common_ultoa :: "u64 \<Rightarrow> mem option" where
  "ism_common_ultoa ulval = map_option (\<lambda>ds. ds @ [0]) (digit_loop (unat ulval) [])"

text \<open>The variants with a separator count the digits since the last one in \<^verbatim>\<open>pos\<close>.\<close>

fun digit_loop_ts :: "u8 \<Rightarrow> nat \<Rightarrow> nat \<Rightarrow> mem \<Rightarrow> mem option" where
  "digit_loop_ts triad pos val acc =
     (let (acc, pos) = (if pos = 3 then (triad # acc, 0) else (acc, pos)) in
      if 32 \<le> length acc then None
      else let acc = digit_char (val mod 10) # acc in
        if val div 10 = 0 then Some acc else digit_loop_ts triad (pos + 1) (val div 10) acc)"

declare digit_loop_ts.simps [simp del]

definition ism_common_itoa_ts :: "u32 \<Rightarrow> u8 \<Rightarrow> mem option" where
  "ism_common_itoa_ts ival triad =
     (if ival <s 0 then map_option (\<lambda>ds. 45 # ds @ [0]) (digit_loop_ts triad 0 (unat (- ival)) [])
      else map_option (\<lambda>ds. ds @ [0]) (digit_loop_ts triad 0 (unat ival) []))"

definition ism_common_ltoa_ts :: "u64 \<Rightarrow> u8 \<Rightarrow> mem option" where
  "ism_common_ltoa_ts lval triad =
     (if lval <s 0 then map_option (\<lambda>ds. 45 # ds @ [0]) (digit_loop_ts triad 0 (unat (- lval)) [])
      else map_option (\<lambda>ds. ds @ [0]) (digit_loop_ts triad 0 (unat lval) []))"

definition ism_common_ultoa_ts :: "u64 \<Rightarrow> u8 \<Rightarrow> mem option" where
  "ism_common_ultoa_ts lval triad = map_option (\<lambda>ds. ds @ [0]) (digit_loop_ts triad 0 (unat lval) [])"

text \<open>Hexadecimal, two digits for a byte; \<^verbatim>\<open>shorten\<close> drops leading bytes that are zero.\<close>

definition hex_char :: "nat \<Rightarrow> u8" where
  "hex_char d = (if d < 10 then 48 + of_nat d else 55 + of_nat d)"

definition hexout :: "mem \<Rightarrow> u32 \<Rightarrow> mem" where
  "hexout buf val = buf @ [hex_char (unat (drop_bit 4 val AND 0xF)), hex_char (unat (val AND 0xF))]"

definition hex_step :: "u32 \<Rightarrow> bool \<times> mem \<Rightarrow> bool \<times> mem" where
  "hex_step val st = (if \<not> fst st \<or> val \<noteq> 0 then (False, hexout (snd st) val) else st)"

definition ism_common_uitox :: "u32 \<Rightarrow> bool \<Rightarrow> mem" where
  "ism_common_uitox uval shorten =
     (let st = hex_step (drop_bit 24 uval) (shorten, []);
          st = hex_step (drop_bit 16 uval AND 0xFF) st;
          st = hex_step (drop_bit 8 uval AND 0xFF) st
      in hexout (snd st) uval @ [0])"

definition ism_common_ultox :: "u64 \<Rightarrow> bool \<Rightarrow> mem" where
  "ism_common_ultox uval shorten =
     (let st = hex_step (ucast (drop_bit 56 uval)) (shorten, []);
          st = hex_step (ucast (drop_bit 48 uval AND 0xFF)) st;
          st = hex_step (ucast (drop_bit 40 uval AND 0xFF)) st;
          st = hex_step (ucast (drop_bit 32 uval AND 0xFF)) st;
          st = hex_step (ucast (drop_bit 24 uval AND 0xFF)) st;
          st = hex_step (ucast (drop_bit 16 uval AND 0xFF)) st;
          st = hex_step (ucast (drop_bit 8 uval AND 0xFF)) st
      in hexout (snd st) (ucast uval) @ [0])"

section \<open>Parsing\<close>

text \<open>
  The C library's \<^verbatim>\<open>strtol\<close>: white space, a sign, for base 16 an optional \<open>0x\<close>, and the
  longest run of digits. The result is the sign, the number and what follows it, which is the whole
  string if there is no digit.
\<close>

definition isspace :: "u8 \<Rightarrow> bool" where
  "isspace b \<longleftrightarrow> b = 32 \<or> 9 \<le> b \<and> b \<le> 13"

fun skip_while :: "(u8 \<Rightarrow> bool) \<Rightarrow> mem \<Rightarrow> mem option" where
  "skip_while P [] = None"
| "skip_while P (b # bs) = (if P b then skip_while P bs else Some (b # bs))"

definition digit_val :: "u8 \<Rightarrow> int" where
  "digit_val b =
     (if 48 \<le> b \<and> b \<le> 57 then uint b - 48
      else if 65 \<le> b \<and> b \<le> 90 then uint b - 55
      else if 97 \<le> b \<and> b \<le> 122 then uint b - 87 else 99)"

fun scan_digits :: "int \<Rightarrow> int \<Rightarrow> mem \<Rightarrow> (int \<times> mem) option" where
  "scan_digits base acc [] = None"
| "scan_digits base acc (b # bs) =
     (if digit_val b < base then scan_digits base (acc * base + digit_val b) bs else Some (acc, b # bs))"

definition scan_sign :: "mem \<Rightarrow> bool \<times> mem" where
  "scan_sign m = (case m of b # bs \<Rightarrow> if b = 45 then (True, bs) else if b = 43 then (False, bs) else (False, m) | [] \<Rightarrow> (False, m))"

definition skip_hex_prefix :: "int \<Rightarrow> mem \<Rightarrow> mem" where
  "skip_hex_prefix base m =
     (case m of z # x # h # _ \<Rightarrow> if base = 16 \<and> z = 48 \<and> (x = 120 \<or> x = 88) \<and> digit_val h < 16 then drop 2 m else m | _ \<Rightarrow> m)"

definition strto :: "int \<Rightarrow> mem \<Rightarrow> (bool \<times> int \<times> mem) option" where
  "strto base str = do {
     m \<leftarrow> skip_while isspace str;
     let (neg, m) = scan_sign m;
     let m = skip_hex_prefix base m;
     (val, rest) \<leftarrow> scan_digits base 0 m;
     Some (neg, val, if rest = m then str else rest) }"

definition strtoll :: "int \<Rightarrow> mem \<Rightarrow> (u64 \<times> mem) option" where
  "strtoll base str = do {
     (neg, val, rest) \<leftarrow> strto base str;
     Some (if neg then word_of_int (- min val (2 ^ 63)) else word_of_int (min val (2 ^ 63 - 1)), rest) }"

definition strtoul :: "int \<Rightarrow> mem \<Rightarrow> (u64 \<times> mem) option" where
  "strtoul base str = do {
     (neg, val, rest) \<leftarrow> strto base str;
     Some (if 2 ^ 64 \<le> val then - 1 else if neg then - word_of_int val else word_of_int val, rest) }"

text \<open>
  \<^verbatim>\<open>str2l\<close> and its variants skip blanks, take \<open>0x\<close> for hexadecimal and anything else for decimal, and
  skip the blanks that follow a number. \<^verbatim>\<open>endp\<close> is never \<^verbatim>\<open>NULL\<close> in the callers.
\<close>

definition isblank :: "u8 \<Rightarrow> bool" where
  "isblank b \<longleftrightarrow> b = 32 \<or> b = 9"

definition hex_start :: "mem \<Rightarrow> bool option" where
  "hex_start cp = (case cp of [] \<Rightarrow> None | b # bs \<Rightarrow>
     if b = 48 then (case bs of [] \<Rightarrow> None | x # _ \<Rightarrow> Some (x = 120)) else Some False)"

definition str2 :: "(int \<Rightarrow> mem \<Rightarrow> (u64 \<times> mem) option) \<Rightarrow> mem \<Rightarrow> (u64 \<times> mem) option" where
  "str2 conv str = do {
     cp \<leftarrow> skip_while isblank str;
     hex \<leftarrow> hex_start cp;
     (ret, rest) \<leftarrow> (if hex then conv 16 (drop 2 cp) else conv 10 cp);
     if length rest < length str \<and> rest \<noteq> [] \<and> hd rest \<noteq> 0
     then map_option (Pair ret) (skip_while isblank rest)
     else Some (ret, rest) }"

definition str2l :: "mem \<Rightarrow> (u32 \<times> mem) option" where
  "str2l str = map_option (\<lambda>(ret, rest). (ucast ret, rest)) (str2 strtoll str)"

definition str2ul :: "mem \<Rightarrow> (u32 \<times> mem) option" where
  "str2ul str = map_option (\<lambda>(ret, rest). (ucast ret, rest)) (str2 strtoul str)"

definition str2ll :: "mem \<Rightarrow> (u64 \<times> mem) option" where
  "str2ll str = str2 strtoll str"

section \<open>The decimal digits of a number\<close>

fun dec :: "nat \<Rightarrow> mem" where
  "dec n = (if n < 10 then [digit_char n] else dec (n div 10) @ [digit_char (n mod 10)])"

declare dec.simps [simp del]

lemma dec_not_Nil [simp]: "dec n \<noteq> []"
  by (subst dec.simps) simp

lemma dec_length: "n < 10 ^ k \<Longrightarrow> 0 < k \<Longrightarrow> length (dec n) \<le> k"
proof (induction k arbitrary: n)
  case (Suc k)
  show ?case
  proof (cases "n < 10")
    case True
    then show ?thesis by (subst dec.simps) simp
  next
    case False
    then have "n div 10 < 10 ^ k" "0 < k" using Suc.prems by (auto intro!: gr0I)
    then have "length (dec (n div 10)) \<le> k" using Suc.IH by blast
    then show ?thesis using False by (subst dec.simps) simp
  qed
qed simp

lemma digit_loop_dec: "length (dec val) + length acc \<le> 32 \<Longrightarrow> digit_loop val acc = Some (dec val @ acc)"
proof (induction val acc rule: digit_loop.induct)
  case (1 val acc)
  show ?case
  proof (cases "val < 10")
    case True
    then show ?thesis using 1(2) by (subst digit_loop.simps) (simp add: dec.simps [of val] Let_def)
  next
    case False
    then have d: "dec val = dec (val div 10) @ [digit_char (val mod 10)]" by (simp add: dec.simps [of val])
    have "length acc < 32" using 1(2) d by (simp add: Suc_le_eq)
    moreover have "val div 10 \<noteq> 0" using False by simp
    ultimately show ?thesis using 1 d by (subst digit_loop.simps) (simp add: Let_def)
  qed
qed

lemma unat_digit_char: "d < 10 \<Longrightarrow> unat (digit_char d) = 48 + d"
  by (simp add: digit_char_def unat_word_ariths unat_of_nat)

lemma digit_val_char: "d < 10 \<Longrightarrow> digit_val (digit_char d) = int d"
  using unat_digit_char [of d]
  by (simp add: digit_val_def word_le_nat_alt uint_nat)

lemma dec_digits: "b \<in> set (dec n) \<Longrightarrow> \<exists>d<10. b = digit_char d"
  by (induction n rule: dec.induct) (subst (asm) (2) dec.simps, auto split: if_splits intro: exI [of _ "_ mod 10"])

lemma scan_dec: "scan_digits 10 acc (dec n @ rest) = scan_digits 10 (acc * 10 ^ length (dec n) + int n) rest"
proof (induction n arbitrary: rest rule: dec.induct)
  case (1 n)
  show ?case
  proof (cases "n < 10")
    case True
    then show ?thesis by (simp add: dec.simps [of n] digit_val_char)
  next
    case False
    then have d: "dec n = dec (n div 10) @ [digit_char (n mod 10)]" by (simp add: dec.simps [of n])
    show ?thesis using 1 [OF False, of "digit_char (n mod 10) # rest"]
      by (simp add: d digit_val_char, intro arg_cong [where f = "\<lambda>a. scan_digits 10 a rest"]) (simp add: zdiv_int zmod_int)
  qed
qed

lemma dec_Cons:
  obtains d ds where "dec n = digit_char d # ds" and "d < 10" and "\<forall>b \<in> set ds. \<exists>d<10. b = digit_char d"
  using dec_digits [of _ n] by (cases "dec n") fastforce+

lemma digit_char_props:
  assumes "d < 10"
  shows "digit_char d \<noteq> 0" and "digit_char d \<noteq> 45" and "digit_char d \<noteq> 43" and "digit_char d \<noteq> 120"
    and "\<not> isspace (digit_char d)" and "\<not> isblank (digit_char d)"
  using unat_digit_char [OF assms] assms
  by (auto simp: isspace_def isblank_def word_le_nat_alt)

lemma digit_val_nul [simp]: "digit_val 0 = 99"
  by (simp add: digit_val_def)

lemma skip_hex_prefix_10 [simp]: "skip_hex_prefix 10 m = m"
  by (auto simp: skip_hex_prefix_def split: list.split)

lemma strto_dec: "strto 10 (dec n @ [0]) = Some (False, int n, [0])"
proof (rule dec_Cons [of n])
  fix d ds
  assume d: "dec n = digit_char d # ds" "d < 10"
  have "scan_digits 10 0 (digit_char d # ds @ [0]) = Some (int n, [0])" using scan_dec [of 0 n "[0]"] d by simp
  then show ?thesis using d
    by (simp add: strto_def digit_char_props scan_sign_def)
qed

lemma strto_neg_dec: "strto 10 (45 # dec n @ [0]) = Some (True, int n, [0])"
proof (rule dec_Cons [of n])
  fix d ds
  assume d: "dec n = digit_char d # ds" "d < 10"
  have "scan_digits 10 0 (digit_char d # ds @ [0]) = Some (int n, [0])" using scan_dec [of 0 n "[0]"] d by simp
  then show ?thesis using d
    by (simp add: strto_def digit_char_props scan_sign_def isspace_def)
qed

lemma str2_dec: "conv 10 (dec n @ [0]) = Some (v, [0]) \<Longrightarrow> str2 conv (dec n @ [0]) = Some (v, [0])"
proof (rule dec_Cons [of n])
  fix d ds
  assume c: "conv 10 (dec n @ [0]) = Some (v, [0])" and d: "dec n = digit_char d # ds" "d < 10"
    and ds: "\<forall>b \<in> set ds. \<exists>d<10. b = digit_char d"
  have "hex_start (digit_char d # ds @ [0]) = Some False"
    using ds by (cases ds) (auto simp: hex_start_def digit_char_props)
  then show ?thesis using c d by (simp add: str2_def digit_char_props)
qed

lemma str2_neg_dec: "conv 10 (45 # dec n @ [0]) = Some (v, [0]) \<Longrightarrow> str2 conv (45 # dec n @ [0]) = Some (v, [0])"
  by (simp add: str2_def hex_start_def isblank_def)

lemma uint_word_of_int_id: "0 \<le> k \<Longrightarrow> k < 2 ^ LENGTH('a) \<Longrightarrow> uint (word_of_int k :: 'a::len word) = k"
  by (simp add: uint_word_of_int)

lemma sint_neg:
  assumes "(x :: 'a::len word) <s 0"
  shows "unat (- x) = nat (- sint x)" and "0 < - sint x" and "- sint x \<le> 2 ^ (LENGTH('a) - 1)"
proof -
  show neg: "0 < - sint x" and le: "- sint x \<le> 2 ^ (LENGTH('a) - 1)"
    using assms sint_ge [of x] by (simp_all add: word_sless_alt)
  have "(2 :: int) ^ (LENGTH('a) - 1) < 2 ^ LENGTH('a)" by (simp add: power_strict_increasing)
  then have "uint (word_of_int (- sint x) :: 'a word) = - sint x"
    by (rule uint_word_of_int_id [OF less_imp_le [OF neg] order_le_less_trans [OF le]])
  then show "unat (- x) = nat (- sint x)" by (simp add: unat_eq_nat_uint)
qed

lemma sint_nonneg:
  assumes "\<not> (x :: 'a::len word) <s 0"
  shows "unat x = nat (sint x)" and "sint x < 2 ^ (LENGTH('a) - 1)"
proof -
  show lt: "sint x < 2 ^ (LENGTH('a) - 1)" using sint_lt [of x] .
  have ge: "0 \<le> sint x" using assms by (simp add: word_sless_alt)
  have "(2 :: int) ^ (LENGTH('a) - 1) < 2 ^ LENGTH('a)" by (simp add: power_strict_increasing)
  then have "uint (word_of_int (sint x) :: 'a word) = sint x"
    by (rule uint_word_of_int_id [OF ge less_trans [OF lt]])
  then show "unat x = nat (sint x)" by (simp add: unat_eq_nat_uint)
qed

lemma min_int32_neg: "(0x80000000 :: u32) <s 0"
proof (rule ccontr)
  assume "\<not> (0x80000000 :: u32) <s 0"
  note sint_nonneg [OF this]
  moreover have "unat (0x80000000 :: u32) = 2 ^ 31" by simp
  ultimately have "nat (sint (0x80000000 :: u32)) = 2 ^ 31" "sint (0x80000000 :: u32) < 2 ^ 31" by (simp_all only: len_num1 len_bit0 len_bit1) simp_all
  then show False by (simp add: nat_eq_iff)
qed

text \<open>The text of a 32-bit or 64-bit value is its sign and its decimal digits.\<close>

definition dec_int :: "int \<Rightarrow> mem" where
  "dec_int i = (if i < 0 then [45] else []) @ dec (nat \<bar>i\<bar>) @ [0]"

lemma dec_unat_length:
  "length (dec (unat (x :: u32))) \<le> 10" "length (dec (unat (y :: u64))) \<le> 20"
  using unsigned_less [of x, where ?'a = nat] unsigned_less [of y, where ?'a = nat] by (auto intro!: dec_length)

lemma itoa_dec: "ism_common_itoa i = Some (dec_int (sint i))"
  using dec_unat_length(1) [of i] dec_unat_length(1) [of "- i"] sint_neg [of i] sint_nonneg [of i]
  by (auto simp: ism_common_itoa_def dec_int_def digit_loop_dec word_sless_alt)

lemma ltoa_dec: "ism_common_ltoa l = Some (dec_int (sint l))"
  using dec_unat_length(2) [of l] dec_unat_length(2) [of "- l"] sint_neg [of l] sint_nonneg [of l]
  by (auto simp: ism_common_ltoa_def dec_int_def digit_loop_dec word_sless_alt)

lemma uitoa_dec: "ism_common_uitoa u = Some (dec_int (uint u))"
  using dec_unat_length(1) [of u] by (simp add: ism_common_uitoa_def dec_int_def digit_loop_dec)

lemma ultoa_dec: "ism_common_ultoa u = Some (dec_int (uint u))"
  using dec_unat_length(2) [of u] by (simp add: ism_common_ultoa_def dec_int_def digit_loop_dec)

lemma strtoll_dec_int:
  assumes "- (2 ^ 63) \<le> i" and "i < 2 ^ 63"
  shows "strtoll 10 (dec_int i) = Some (word_of_int i, [0])"
  using assms by (auto simp: strtoll_def dec_int_def strto_dec strto_neg_dec min_def)

lemma strtoul_dec_int:
  assumes "0 \<le> i" and "i < 2 ^ 64"
  shows "strtoul 10 (dec_int i) = Some (word_of_int i, [0])"
  using assms by (auto simp: strtoul_def dec_int_def strto_dec)

lemma str2_dec_int: "conv 10 (dec_int i) = Some (v, [0]) \<Longrightarrow> str2 conv (dec_int i) = Some (v, [0])"
  by (auto simp: dec_int_def str2_dec str2_neg_dec)

lemma sint32_bounds: "- (2 ^ 63) \<le> sint (i :: u32)" "sint i < 2 ^ 63"
  using sint_ge [of i] sint_lt [of i] by auto

lemma sint64_bounds: "- (2 ^ 63) \<le> sint (i :: u64)" "sint i < 2 ^ 63"
  using sint_ge [of i] sint_lt [of i] by auto

lemma uint32_bound: "uint (i :: u32) < 2 ^ 64"
  using uint_lt2p [of i] by simp

lemma dec_int_length: "\<bar>i\<bar> < 10 ^ k \<Longrightarrow> 0 < k \<Longrightarrow> length (dec_int i) \<le> k + 2"
proof -
  assume "\<bar>i\<bar> < 10 ^ k" and k: "0 < k"
  then have "nat \<bar>i\<bar> < 10 ^ k" by (simp add: nat_less_iff)
  then have "length (dec (nat \<bar>i\<bar>)) \<le> k" using k by (rule dec_length)
  then show ?thesis by (simp add: dec_int_def abs_if split: if_splits)
qed

lemma ucast_cast [simp]: "ucast (scast (i :: u32) :: u64) = i" "ucast (ucast (i :: u32) :: u64) = i"
  by (rule bit_word_eqI, simp add: bit_simps)+

lemma str2l_itoa: "str2l (dec_int (sint i)) = Some (i, [0])"
  using str2_dec_int [of strtoll, OF strtoll_dec_int, of "sint i"] sint32_bounds [of i] by (simp add: str2l_def)

lemma str2ul_uitoa: "str2ul (dec_int (uint i)) = Some (i, [0])"
  using str2_dec_int [of strtoul, OF strtoul_dec_int, of "uint i"] uint32_bound [of i] by (simp add: str2ul_def)

lemma str2ll_ltoa: "str2ll (dec_int (sint l)) = Some (l, [0])"
  using str2_dec_int [of strtoll, OF strtoll_dec_int, of "sint l"] sint64_bounds [of l] by (simp add: str2ll_def)

section \<open>Groups of three digits\<close>

fun triads :: "u8 \<Rightarrow> mem \<Rightarrow> mem" where
  "triads t ds = (if length ds \<le> 3 then ds else triads t (take (length ds - 3) ds) @ t # drop (length ds - 3) ds)"

declare triads.simps [simp del]

definition group :: "u8 \<Rightarrow> mem \<Rightarrow> mem" where
  "group t s = (if hd s = 45 then 45 # triads t (butlast (tl s)) @ [0] else triads t (butlast s) @ [0])"

lemma triads_append3: "ds \<noteq> [] \<Longrightarrow> triads t (ds @ [a, b, c]) = triads t ds @ [t, a, b, c]"
  by (subst triads.simps) (cases ds, auto)

lemma length_triads: "ds \<noteq> [] \<Longrightarrow> length (triads t ds) = length ds + (length ds - 1) div 3"
proof (induction t ds rule: triads.induct)
  case (1 t ds)
  show ?case
  proof (cases "length ds \<le> 3")
    case False
    then have "length (triads t ds) = length (triads t (take (length ds - 3) ds)) + 4" by (subst triads.simps) simp
    moreover have "(length ds - 1) div 3 = (length ds - 3 - 1) div 3 + 1" using False le_div_geq [of 3 "length ds - 1"] by simp
    ultimately show ?thesis using 1 False by simp
  qed (use 1 in \<open>simp add: triads.simps\<close>)
qed

lemma length_triads_10: "ds \<noteq> [] \<Longrightarrow> length ds \<le> 10 \<Longrightarrow> length (triads t ds) \<le> 13"
  unfolding length_triads by linarith

lemma length_triads_19: "ds \<noteq> [] \<Longrightarrow> length ds \<le> 19 \<Longrightarrow> length (triads t ds) \<le> 25"
  unfolding length_triads by linarith

lemma digit_loop_ts_step:
  "pos < 3 \<Longrightarrow> digit_loop_ts t pos v acc = (if 32 \<le> length acc then None
     else if v div 10 = 0 then Some (digit_char (v mod 10) # acc)
     else digit_loop_ts t (Suc pos) (v div 10) (digit_char (v mod 10) # acc))"
  "digit_loop_ts t 3 v acc = digit_loop_ts t 0 v (t # acc)"
  by (subst digit_loop_ts.simps, simp add: Let_def) (subst (1 2) digit_loop_ts.simps, simp)

lemma dec_thousand:
  assumes "1000 \<le> v"
  shows "dec v = dec (v div 10 div 10 div 10) @ [digit_char (v div 10 div 10 mod 10), digit_char (v div 10 mod 10), digit_char (v mod 10)]"
proof -
  have "\<not> v < 10" "\<not> v div 10 < 10" "\<not> v div 10 div 10 < 10" using assms by linarith+
  then show ?thesis by (simp only: dec.simps [of v] dec.simps [of "v div 10"] dec.simps [of "v div 10 div 10"] if_False) simp
qed

lemma dec_small:
  "v < 10 \<Longrightarrow> dec v = [digit_char v]"
  "10 \<le> v \<Longrightarrow> v < 100 \<Longrightarrow> dec v = [digit_char (v div 10), digit_char (v mod 10)]"
  "100 \<le> v \<Longrightarrow> v < 1000 \<Longrightarrow> dec v = [digit_char (v div 10 div 10), digit_char (v div 10 mod 10), digit_char (v mod 10)]"
proof -
  show one: "v < 10 \<Longrightarrow> dec v = [digit_char v]" for v by (simp add: dec.simps [of v])
  show two: "10 \<le> v \<Longrightarrow> v < 100 \<Longrightarrow> dec v = [digit_char (v div 10), digit_char (v mod 10)]" for v
    using one [of "v div 10"] by (simp add: dec.simps [of v] div_less_iff_less_mult)
  show "100 \<le> v \<Longrightarrow> v < 1000 \<Longrightarrow> dec v = [digit_char (v div 10 div 10), digit_char (v div 10 mod 10), digit_char (v mod 10)]"
    using two [of "v div 10"] by (simp add: dec.simps [of v] div_less_iff_less_mult less_eq_div_iff_mult_less_eq)
qed

lemma digit_loop_ts_three:
  assumes "100 \<le> v" and "length acc \<le> 29"
  shows "digit_loop_ts t 0 v acc =
    (let acc = digit_char (v div 10 div 10 mod 10) # digit_char (v div 10 mod 10) # digit_char (v mod 10) # acc in
     if v < 1000 then Some acc else digit_loop_ts t 0 (v div 10 div 10 div 10) (t # acc))"
proof -
  have "v div 10 \<noteq> 0" "v div 10 div 10 \<noteq> 0" using assms by linarith+
  moreover have "v div 10 div 10 div 10 = 0 \<longleftrightarrow> v < 1000" by linarith
  moreover have "digit_loop_ts t (Suc (Suc (Suc 0))) = digit_loop_ts t 3" by (simp add: numeral_3_eq_3)
  ultimately show ?thesis using assms(2) digit_loop_ts_step(1) [of 0 t v acc]
      digit_loop_ts_step(1) [of "Suc 0" t "v div 10"] digit_loop_ts_step(1) [of "Suc (Suc 0)" t "v div 10 div 10"]
    by (simp only: digit_loop_ts_step(2) Let_def) simp
qed

lemma digit_loop_ts_triads:
  "length (triads t (dec v)) + length acc \<le> 32 \<Longrightarrow> digit_loop_ts t 0 v acc = Some (triads t (dec v) @ acc)"
proof (induction v arbitrary: acc rule: less_induct)
  case (less v)
  consider "v < 10" | "10 \<le> v" "v < 100" | "100 \<le> v" "v < 1000" | "1000 \<le> v" by linarith
  then show ?case
  proof cases
    case 1
    then show ?thesis using less.prems by (simp add: digit_loop_ts_step(1) dec_small triads.simps)
  next
    case 2
    then have "v div 10 div 10 = 0" "v div 10 < 10" "v div 10 \<noteq> 0" by linarith+
    then show ?thesis using less.prems 2 by (simp add: digit_loop_ts_step(1) dec_small(2) triads.simps)
  next
    case 3
    have "v div 10 div 10 < 10" using 3 by linarith
    then show ?thesis using less.prems 3 digit_loop_ts_three [of v acc t] by (simp add: dec_small(3) triads.simps)
  next
    case 4
    let ?v = "v div 10 div 10 div 10"
    have tr: "triads t (dec v) = triads t (dec ?v) @ [t, digit_char (v div 10 div 10 mod 10), digit_char (v div 10 mod 10), digit_char (v mod 10)]"
      using dec_thousand [OF 4] by (simp add: triads_append3)
    have "?v < v" using 4 by linarith
    then show ?thesis
      using less.IH [of ?v "t # digit_char (v div 10 div 10 mod 10) # digit_char (v div 10 mod 10) # digit_char (v mod 10) # acc"]
        digit_loop_ts_three [of v acc t] less.prems tr 4 by simp
  qed
qed

lemma digit_loop_ts_dec:
  "length (dec v) \<le> 20 \<Longrightarrow> digit_loop_ts t 0 v [] = Some (triads t (dec v))"
  using digit_loop_ts_triads [of t v "[]"] by (simp add: length_triads)

lemma neg_dec_length: "(l :: u64) <s 0 \<Longrightarrow> length (dec (unat (- l))) \<le> 19"
  using sint_neg [of l] by (intro dec_length) auto

lemma nonneg_dec_length: "\<not> (l :: u64) <s 0 \<Longrightarrow> length (dec (unat l)) \<le> 19"
  using sint_nonneg [of l] by (intro dec_length) auto

lemma hd_dec [simp]: "hd (dec n @ [0]) \<noteq> 45"
  by (rule dec_Cons [of n]) (auto simp: digit_char_props)

lemma group_dec [simp]: "group t (dec n @ [0]) = triads t (dec n) @ [0]" "group t (45 # dec n @ [0]) = 45 # triads t (dec n) @ [0]"
  by (simp_all add: group_def del: hd_append2)

section \<open>Hexadecimal digits\<close>

lemma hexout_eq: "hexout buf val = buf @ [hex_char (unat val div 16 mod 16), hex_char (unat val mod 16)]"
  by (simp add: hexout_def unat_and_15 unat_drop_bit)

lemma unat_hex_char: "d < 16 \<Longrightarrow> unat (hex_char d) = (if d < 10 then 48 + d else 55 + d)"
  by (simp add: hex_char_def unat_word_ariths unat_of_nat)

lemma digit_val_hex: "d < 16 \<Longrightarrow> digit_val (hex_char d) = int d"
  using unat_hex_char [of d] by (auto simp: digit_val_def word_le_nat_alt uint_nat split: if_splits)

lemma hex_char_props: "d < 16 \<Longrightarrow> hex_char d \<noteq> 45 \<and> hex_char d \<noteq> 43 \<and> hex_char d \<noteq> 120 \<and> hex_char d \<noteq> 88 \<and> \<not> isspace (hex_char d)"
  using unat_hex_char [of d] by (auto simp: isspace_def word_le_nat_alt split: if_splits)

lemma hex_char_zero: "d < 16 \<Longrightarrow> hex_char d = 48 \<longleftrightarrow> d = 0"
  using unat_hex_char [of d] by (auto simp: word_unat_eq_iff split: if_splits)

text \<open>
  The text of the high bytes of \<open>n\<close>, all but the low \<open>k\<close> bits: it is read back as their value and has two
  characters for a byte unless it is shortened.
\<close>

definition hex_text :: "nat \<Rightarrow> bool \<Rightarrow> nat \<Rightarrow> nat \<Rightarrow> mem \<Rightarrow> bool" where
  "hex_text n sh k j out \<longleftrightarrow>
     (\<forall>rest. scan_digits 16 0 (out @ rest) = scan_digits 16 (int (n div 2 ^ k)) rest) \<and>
     length out \<le> 2 * j \<and> (\<not> sh \<longrightarrow> length out = 2 * j) \<and> (\<forall>b \<in> set out. \<exists>d<16. b = hex_char d)"

text \<open>While nothing has been stored the high bytes are zero; a shortened text does not start with a zero byte.\<close>

definition hex_inv :: "nat \<Rightarrow> bool \<Rightarrow> nat \<Rightarrow> nat \<Rightarrow> bool \<times> mem \<Rightarrow> bool" where
  "hex_inv n sh k j st \<longleftrightarrow> hex_text n sh k j (snd st) \<and> (fst st \<longrightarrow> sh \<and> snd st = [] \<and> n div 2 ^ k = 0) \<and>
     (sh \<and> \<not> fst st \<longrightarrow> 2 \<le> length (snd st) \<and> take 2 (snd st) \<noteq> [48, 48] \<and> n div 2 ^ k \<noteq> 0)"

lemma scan_nul_16: "scan_digits 16 acc [0] = Some (acc, [0])"
  by simp

lemma horner_16: "(a * 16 + b div 16) * 16 + b mod 16 = a * 256 + (b :: nat)"
proof -
  have "(a * 16 + q) * 16 + r = a * 256 + (q * 16 + r)" for q r :: nat by simp
  then show ?thesis by (simp only: div_mult_mod_eq)
qed

lemma scan_byte:
  assumes "b < 256"
  shows "scan_digits 16 (int a) ([hex_char (b div 16), hex_char (b mod 16)] @ rest) = scan_digits 16 (int (a * 256 + b)) rest"
proof -
  have "int ((a * 16 + b div 16) * 16 + b mod 16) = (int a * 16 + int (b div 16)) * 16 + int (b mod 16)"
    by (simp only: of_nat_add of_nat_mult of_nat_numeral)
  then show ?thesis using assms
    by (simp add: horner_16 digit_val_hex div_less_iff_less_mult del: distrib_right_numeral of_nat_add of_nat_mult)
qed

lemma hexout_byte: "hexout buf v = buf @ [hex_char (unat v mod 256 div 16), hex_char (unat v mod 256 mod 16)]"
  using mod_mult2_eq [of "unat v" 16 16] by (simp add: hexout_eq mod_mod_cancel)

lemma hex_text_out:
  assumes "hex_text n sh (k + 8) j out" and v: "unat v mod 256 = n div 2 ^ k mod 256"
  shows "hex_text n sh k (Suc j) (hexout out v)"
proof -
  have "n div 2 ^ (k + 8) * 256 + unat v mod 256 = n div 2 ^ k" by (simp add: v power_add div_mult2_eq)
  moreover have "unat v mod 256 < 256" by simp
  ultimately have "scan_digits 16 0 (hexout out v @ rest) = scan_digits 16 (int (n div 2 ^ k)) rest" for rest
    using assms(1) scan_byte [of "unat v mod 256" "n div 2 ^ (k + 8)" rest] by (simp only: hexout_byte hex_text_def append_assoc)
  moreover have "unat v mod 256 div 16 < 16" "unat v mod 256 mod 16 < 16" by (simp_all add: div_less_iff_less_mult)
  then have "\<forall>b \<in> set (hexout out v). \<exists>d<16. b = hex_char d" using assms(1) unfolding hexout_byte hex_text_def by (metis Un_iff set_append set_ConsD empty_iff empty_set)
  moreover have "length (hexout out v) = length out + 2" by (simp add: hexout_byte)
  ultimately show ?thesis using assms(1) unfolding hex_text_def by simp
qed

lemma hexout_lead: "unat v < 256 \<Longrightarrow> v \<noteq> 0 \<Longrightarrow> take 2 (hexout [] v) \<noteq> [48, 48]"
  using hex_char_zero [of "unat v div 16"] hex_char_zero [of "unat v mod 16"] div_mult_mod_eq [of "unat v" 16]
  by (auto simp: hexout_byte div_less_iff_less_mult unat_eq_0)

lemma hex_inv_step:
  assumes inv: "hex_inv n sh (k + 8) j st" and v: "unat v = n div 2 ^ k mod 256"
  shows "hex_inv n sh k (Suc j) (hex_step v st)"
proof (cases "fst st \<and> v = 0")
  case True
  then have "n div 2 ^ (k + 8) = 0" "n div 2 ^ k mod 256 = 0" using inv v by (auto simp: hex_inv_def)
  then have "n div 2 ^ k = 0" by (simp add: power_add div_mult2_eq)
  then show ?thesis using True inv by (simp add: hex_step_def hex_inv_def hex_text_def)
next
  case False
  have "n div 2 ^ k \<noteq> 0" if sh
    using that inv False v by (cases "fst st") (auto simp: hex_inv_def power_add div_mult2_eq unat_eq_0 intro: gr0I)
  moreover have "unat v < 256" using v by simp
  then have "2 \<le> length (hexout (snd st) v) \<and> take 2 (hexout (snd st) v) \<noteq> [48, 48]" if sh
    using that inv False hexout_lead [of v] by (cases "fst st") (auto simp: hex_inv_def hexout_byte)
  ultimately show ?thesis using False inv v hex_text_out [of n sh k j "snd st" v] by (auto simp: hex_step_def hex_inv_def)
qed

lemma hex_inv_start: "n div 2 ^ k = 0 \<Longrightarrow> hex_inv n sh k 0 (sh, [])"
  by (simp add: hex_inv_def hex_text_def)

lemma strto_hex_text:
  assumes "hex_text n sh 0 j out" and "2 \<le> length out"
  shows "strto 16 (out @ [0]) = Some (False, int n, [0])"
proof -
  obtain b c r where out: "out = b # c # r" using assms(2) by (auto simp: numeral_2_eq_2 Suc_le_length_iff)
  then obtain d e where bc: "d < 16" "b = hex_char d" "e < 16" "c = hex_char e" using assms(1) unfolding hex_text_def by auto
  have "scan_digits 16 0 (out @ [0]) = scan_digits 16 (int (n div 2 ^ 0)) [0]" using assms(1) unfolding hex_text_def by blast
  then have sc: "scan_digits 16 0 (b # c # r @ [0]) = Some (int n, [0])"
    by (simp only: out append_Cons power_0 div_by_1 scan_nul_16)
  have "skip_hex_prefix 16 (b # c # r @ [0]) = b # c # r @ [0]" using bc by (auto simp: skip_hex_prefix_def hex_char_props split: list.split)
  moreover have "scan_sign (b # c # r @ [0]) = (False, b # c # r @ [0])" using bc by (simp add: scan_sign_def hex_char_props)
  moreover have "skip_while isspace (b # c # r @ [0]) = Some (b # c # r @ [0])" using bc by (simp add: hex_char_props)
  ultimately show ?thesis unfolding out append_Cons strto_def by (simp add: sc del: scan_digits.simps skip_while.simps)
qed

text \<open>The last byte is always stored.\<close>

lemma hex_inv_last:
  assumes inv: "hex_inv n sh 8 j st" and v: "unat v mod 256 = n mod 256"
  shows "hex_text n sh 0 (Suc j) (hexout (snd st) v)"
    and "sh \<Longrightarrow> take 2 (hexout (snd st) v) = [48, 48] \<longleftrightarrow> n = 0"
proof -
  show "hex_text n sh 0 (Suc j) (hexout (snd st) v)"
    using hex_text_out [of n sh 0 j "snd st" v] inv v by (simp add: hex_inv_def)
  show "take 2 (hexout (snd st) v) = [48, 48] \<longleftrightarrow> n = 0" if sh
  proof (cases "fst st")
    case True
    then have "snd st = []" "n < 256" using inv by (auto simp: hex_inv_def div_eq_0_iff)
    then show ?thesis using v hex_char_zero [of "n div 16"] hex_char_zero [of "n mod 16"] div_mult_mod_eq [of n 16]
      by (auto simp: hexout_byte div_less_iff_less_mult)
  next
    case False
    then have "2 \<le> length (snd st)" "take 2 (snd st) \<noteq> [48, 48]" "n \<noteq> 0" using that inv by (auto simp: hex_inv_def)
    then show ?thesis by (simp add: hexout_eq)
  qed
qed

definition hex_done :: "nat \<Rightarrow> bool \<Rightarrow> nat \<Rightarrow> mem \<Rightarrow> bool" where
  "hex_done n sh j t \<longleftrightarrow> strto 16 t = Some (False, int n, [0]) \<and> length t \<le> 2 * j + 1 \<and> (\<not> sh \<longrightarrow> length t = 2 * j + 1) \<and>
     (sh \<longrightarrow> (take 2 t = [48, 48] \<longleftrightarrow> n = 0))"

lemma hex_inv_done:
  assumes "hex_inv n sh 8 j st" and "unat v mod 256 = n mod 256"
  shows "hex_done n sh (Suc j) (hexout (snd st) v @ [0])"
proof -
  have len: "length (hexout (snd st) v) = length (snd st) + 2" by (simp add: hexout_eq)
  then show ?thesis using hex_inv_last [OF assms] strto_hex_text [OF hex_inv_last(1) [OF assms]]
    unfolding hex_done_def hex_text_def by (simp add: take_Suc)
qed

lemma hex_step_32:
  "hex_inv (unat (u :: u32)) sh k' j st \<Longrightarrow> k' = k + 8 \<Longrightarrow> hex_inv (unat u) sh k (Suc j) (hex_step (drop_bit k u AND 0xFF) st)"
  using hex_inv_step [of "unat u" sh k j st] by (simp add: unat_and_255 unat_drop_bit)

lemma unat_ucast_byte: "unat (ucast (w AND 0xFF :: u64) :: u32) = unat w mod 256"
proof -
  have "unat (ucast (w AND 0xFF) :: u32) = unat (w AND 0xFF) mod 2 ^ 32"
    by (simp add: unsigned_ucast_eq take_bit_eq_mod)
  then show ?thesis by (simp add: unat_and_255 mod_mod_cancel)
qed

lemma hex_step_64:
  "hex_inv (unat (l :: u64)) sh k' j st \<Longrightarrow> k' = k + 8 \<Longrightarrow> hex_inv (unat l) sh k (Suc j) (hex_step (ucast (drop_bit k l AND 0xFF)) st)"
  using hex_inv_step [of "unat l" sh k j st] by (simp add: unat_ucast_byte unat_drop_bit)

lemma high_byte: "drop_bit 24 u AND 0xFF = drop_bit 24 (u :: u32)" "drop_bit 56 l AND 0xFF = drop_bit 56 (l :: u64)"
  using unsigned_less [of u, where ?'a = nat] unsigned_less [of l, where ?'a = nat]
  by (auto simp: word_unat_eq_iff unat_and_255 unat_drop_bit div_less_iff_less_mult)

lemma uitox_done: "hex_done (unat u) sh 4 (ism_common_uitox u sh)"
proof -
  have "hex_inv (unat u) sh 32 0 (sh, [])" using unsigned_less [of u, where ?'a = nat] by (intro hex_inv_start) simp
  then have "hex_inv (unat u) sh 24 (Suc 0) (hex_step (drop_bit 24 u AND 0xFF) (sh, []))" (is "hex_inv _ _ _ _ ?a") by (rule hex_step_32) simp
  then have "hex_inv (unat u) sh 16 (Suc (Suc 0)) (hex_step (drop_bit 16 u AND 0xFF) ?a)" (is "hex_inv _ _ _ _ ?b") by (rule hex_step_32) simp
  then have "hex_inv (unat u) sh 8 (Suc (Suc (Suc 0))) (hex_step (drop_bit 8 u AND 0xFF) ?b)" (is "hex_inv _ _ _ _ ?c") by (rule hex_step_32) simp
  then have "hex_done (unat u) sh (Suc (Suc (Suc (Suc 0)))) (hexout (snd ?c) u @ [0])" by (rule hex_inv_done) simp
  moreover have "Suc (Suc (Suc (Suc 0))) = 4" by simp
  ultimately show ?thesis unfolding ism_common_uitox_def Let_def high_byte by (simp only:)
qed

lemma ultox_done: "hex_done (unat l) sh 8 (ism_common_ultox l sh)"
proof -
  have "hex_inv (unat l) sh 64 0 (sh, [])" using unsigned_less [of l, where ?'a = nat] by (intro hex_inv_start) simp
  then have "hex_inv (unat l) sh 56 (Suc 0) (hex_step (ucast (drop_bit 56 l AND 0xFF)) (sh, []))" (is "hex_inv _ _ _ _ ?a") by (rule hex_step_64) simp
  then have "hex_inv (unat l) sh 48 (Suc (Suc 0)) (hex_step (ucast (drop_bit 48 l AND 0xFF)) ?a)" (is "hex_inv _ _ _ _ ?b") by (rule hex_step_64) simp
  then have "hex_inv (unat l) sh 40 (Suc (Suc (Suc 0))) (hex_step (ucast (drop_bit 40 l AND 0xFF)) ?b)" (is "hex_inv _ _ _ _ ?c") by (rule hex_step_64) simp
  then have "hex_inv (unat l) sh 32 (Suc (Suc (Suc (Suc 0)))) (hex_step (ucast (drop_bit 32 l AND 0xFF)) ?c)" (is "hex_inv _ _ _ _ ?d") by (rule hex_step_64) simp
  then have "hex_inv (unat l) sh 24 (Suc (Suc (Suc (Suc (Suc 0))))) (hex_step (ucast (drop_bit 24 l AND 0xFF)) ?d)" (is "hex_inv _ _ _ _ ?e") by (rule hex_step_64) simp
  then have "hex_inv (unat l) sh 16 (Suc (Suc (Suc (Suc (Suc (Suc 0)))))) (hex_step (ucast (drop_bit 16 l AND 0xFF)) ?e)" (is "hex_inv _ _ _ _ ?f") by (rule hex_step_64) simp
  then have "hex_inv (unat l) sh 8 (Suc (Suc (Suc (Suc (Suc (Suc (Suc 0))))))) (hex_step (ucast (drop_bit 8 l AND 0xFF)) ?f)" (is "hex_inv _ _ _ _ ?g") by (rule hex_step_64) simp
  moreover have "unat (ucast l :: u32) mod 256 = unat l mod 256" by (simp add: unsigned_ucast_eq take_bit_eq_mod mod_mod_cancel)
  ultimately have "hex_done (unat l) sh (Suc (Suc (Suc (Suc (Suc (Suc (Suc (Suc 0)))))))) (hexout (snd ?g) (ucast l) @ [0])" by (rule hex_inv_done)
  moreover have "Suc (Suc (Suc (Suc (Suc (Suc (Suc (Suc 0))))))) = 8" by simp
  ultimately show ?thesis unfolding ism_common_ultox_def Let_def high_byte by (simp only:)
qed

lemma strtoul_hex_done: "hex_done (unat (w :: u64)) sh j t \<Longrightarrow> strtoul 16 t = Some (w, [0])"
  using uint_lt2p [of w] by (simp add: hex_done_def strtoul_def)

section \<open>Properties\<close>

text \<open>
  C17: The text of an integer is read back as the same integer, for signed and unsigned 32-bit and for
  signed 64-bit integers, with nothing left over; the texts fit the documented buffers of 12 and 24 bytes.
\<close>

theorem decimal_roundtrip:
  "(\<exists>t. ism_common_itoa i = Some t \<and> length t \<le> 12 \<and> str2l t = Some (i, [0])) \<and>
   (\<exists>t. ism_common_uitoa i = Some t \<and> length t \<le> 12 \<and> str2ul t = Some (i, [0])) \<and>
   (\<exists>t. ism_common_ltoa l = Some t \<and> length t \<le> 24 \<and> str2ll t = Some (l, [0])) \<and>
   (\<exists>t. ism_common_ultoa l = Some t \<and> length t \<le> 24)"
proof (intro conjI exI)
  show "ism_common_itoa i = Some (dec_int (sint i))" "ism_common_uitoa i = Some (dec_int (uint i))"
    "ism_common_ltoa l = Some (dec_int (sint l))" "ism_common_ultoa l = Some (dec_int (uint l))"
    by (rule itoa_dec uitoa_dec ltoa_dec ultoa_dec)+
  show "length (dec_int (sint i)) \<le> 12" "length (dec_int (uint i)) \<le> 12"
    using dec_int_length [of "sint i" 10] dec_int_length [of "uint i" 10] sint_ge [of i] sint_lt [of i] uint_lt2p [of i]
    by (simp_all add: abs_less_iff)
  show "length (dec_int (sint l)) \<le> 24" "length (dec_int (uint l)) \<le> 24"
    using dec_int_length [of "sint l" 20] dec_int_length [of "uint l" 20] sint_ge [of l] sint_lt [of l] uint_lt2p [of l]
    by (simp_all add: abs_less_iff)
  show "str2l (dec_int (sint i)) = Some (i, [0])" by (rule str2l_itoa)
  show "str2ul (dec_int (uint i)) = Some (i, [0])" by (rule str2ul_uitoa)
  show "str2ll (dec_int (sint l)) = Some (l, [0])" by (rule str2ll_ltoa)
qed


text \<open>
  C30: The formatting functions with a separator give the text of the plain ones with the separator before
  every third digit from the right, in at most 15 bytes for 32 bits and 27 bytes for 64 bits.
\<close>

theorem separators_correct:
  "ism_common_itoa_ts i t = map_option (group t) (ism_common_itoa i) \<and>
   ism_common_ltoa_ts l t = map_option (group t) (ism_common_ltoa l) \<and>
   ism_common_ultoa_ts l t = map_option (group t) (ism_common_ultoa l) \<and>
   length (the (ism_common_itoa_ts i t)) \<le> 15 \<and> length (the (ism_common_itoa_ts 0x80000000 t)) = 15 \<and>
   length (the (ism_common_ltoa_ts l t)) \<le> 27 \<and> length (the (ism_common_ultoa_ts l t)) \<le> 27"
proof (intro conjI)
  note dl = dec_unat_length
  show "ism_common_itoa_ts i t = map_option (group t) (ism_common_itoa i)"
    using dl(1) [of i] dl(1) [of "- i"] by (simp add: ism_common_itoa_ts_def ism_common_itoa_def digit_loop_dec digit_loop_ts_dec)
  show "ism_common_ltoa_ts l t = map_option (group t) (ism_common_ltoa l)"
    using dl(2) [of l] dl(2) [of "- l"] by (simp add: ism_common_ltoa_ts_def ism_common_ltoa_def digit_loop_dec digit_loop_ts_dec)
  show "ism_common_ultoa_ts l t = map_option (group t) (ism_common_ultoa l)"
    using dl(2) [of l] by (simp add: ism_common_ultoa_ts_def ism_common_ultoa_def digit_loop_dec digit_loop_ts_dec)
  show "length (the (ism_common_itoa_ts i t)) \<le> 15"
    using dl(1) [of i] dl(1) [of "- i"] length_triads_10 [of "dec (unat i)" t] length_triads_10 [of "dec (unat (- i))" t]
    by (simp add: ism_common_itoa_ts_def digit_loop_ts_dec)
  show "length (the (ism_common_ultoa_ts l t)) \<le> 27"
    using dl(2) [of l] by (simp add: ism_common_ultoa_ts_def digit_loop_ts_dec length_triads)
  show "length (the (ism_common_ltoa_ts l t)) \<le> 27"
    using neg_dec_length [of l] nonneg_dec_length [of l] dl(2) [of l] dl(2) [of "- l"]
      length_triads_19 [of "dec (unat l)" t] length_triads_19 [of "dec (unat (- l))" t]
    by (cases "l <s 0") (simp_all add: ism_common_ltoa_ts_def digit_loop_ts_dec)
  have "length (dec 2147483648) = 10" by (simp add: dec.simps)
  moreover have "(0x80000000 :: u32) <s 0" by (rule min_int32_neg)
  moreover have "unat (- 0x80000000 :: u32) = 2147483648" by simp
  ultimately show "length (the (ism_common_itoa_ts 0x80000000 t)) = 15"
    unfolding ism_common_itoa_ts_def by (simp only: if_True digit_loop_ts_dec) (simp add: digit_loop_ts_dec length_triads)
qed


text \<open>
  C32: The hexadecimal text of an integer is read back as the integer; it has two characters for each
  byte, or, when it is shortened, at most that many and no leading zero byte unless the value is zero.
\<close>

theorem hex_roundtrip:
  "strtoul 16 (ism_common_uitox u sh) = Some (ucast u, [0]) \<and>
   strtoul 16 (ism_common_ultox l sh) = Some (l, [0]) \<and>
   length (ism_common_uitox u False) = 9 \<and> length (ism_common_ultox l False) = 17 \<and>
   length (ism_common_uitox u sh) \<le> 9 \<and> length (ism_common_ultox l sh) \<le> 17 \<and>
   (take 2 (ism_common_uitox u True) = [48, 48] \<longleftrightarrow> u = 0) \<and>
   (take 2 (ism_common_ultox l True) = [48, 48] \<longleftrightarrow> l = 0)"
proof -
  have "hex_done (unat (ucast u :: u64)) sh 4 (ism_common_uitox u sh)"
    using uitox_done [of u sh] unsigned_less [of u, where ?'a = nat] by (simp add: unsigned_ucast_eq take_bit_nat_eq_self)
  from strtoul_hex_done [OF this] strtoul_hex_done [OF ultox_done [of l sh]] show ?thesis
    using uitox_done [of u sh] uitox_done [of u False] uitox_done [of u True] ultox_done [of l sh] ultox_done [of l False] ultox_done [of l True]
    unfolding hex_done_def by (auto simp: unat_eq_0)
qed

end
