(* ===== verification/Properties.thy ===== *)
theory Properties
  imports NumConv KeyValue
begin

text \<open>
  Typed fields and properties objects, \<^verbatim>\<open>src/server_utils/src/properties.c\<close> with the types of
  \<^verbatim>\<open>src/server_utils/include/ismutil.h\<close>: the allocator inside a properties object, setting, adding,
  removing, looking up and clearing properties, and reading a property as an integer.

  A pointer is the list of the bytes that can be read from it on; an \<open>option\<close> of it is a pointer that may be
  \<^verbatim>\<open>NULL\<close>. \<open>alloc n\<close> is the outcome of a request for \<open>n\<close> bytes; the code does not check it,
  so a failure has no result. \<open>None\<close> as a result also stands for a read past the end of a
  string, for an overflow of a signed integer, for a search that does not end and for a conversion C leaves undefined.

  The lemmas show that the table never overflows its allocation and that the operations act on the
  contents as on a finite map; this is the interpretation of \<open>kv_store\<close>.
\<close>

section \<open>C strings\<close>

definition strlen :: "mem \<Rightarrow> nat option" where
  "strlen s = (if 0 \<in> set s then Some (length (takeWhile (\<lambda>b. b \<noteq> 0) s)) else None)"

text \<open>Whether \<^verbatim>\<open>strcmp\<close> and \<^verbatim>\<open>strcasecmp\<close> give 0.\<close>

fun strcmp0 :: "mem \<Rightarrow> mem \<Rightarrow> bool option" where
  "strcmp0 (a # as) (b # bs) = (if a \<noteq> b then Some False else if a = 0 then Some True else strcmp0 as bs)"
| "strcmp0 _ _ = None"

definition tolower :: "u8 \<Rightarrow> u8" where
  "tolower c = (if 65 \<le> c \<and> c \<le> 90 then c + 32 else c)"

fun strcasecmp0 :: "mem \<Rightarrow> mem \<Rightarrow> bool option" where
  "strcasecmp0 (a # as) (b # bs) = (if tolower a \<noteq> tolower b then Some False else if a = 0 then Some True else strcasecmp0 as bs)"
| "strcasecmp0 _ _ = None"

text \<open>The characters of a terminated string.\<close>

definition cstr :: "mem \<Rightarrow> mem" where
  "cstr s = takeWhile (\<lambda>b. b \<noteq> 0) s"

section \<open>Fields\<close>

text \<open>
  The type of a field and the member of the union that it selects. Numbers are the bits in
  memory, also of \<^verbatim>\<open>float\<close> and \<^verbatim>\<open>double\<close>; byte arrays, maps and XIDs have a pointer and a length.
\<close>

datatype ism_field_t =
    VT_Null | VT_String "mem option" | VT_ByteArray mem u32 | VT_Boolean u32 | VT_Byte u32 | VT_UByte u32
  | VT_Short u32 | VT_UShort u32 | VT_Integer u32 | VT_UInt u32 | VT_Long u64 | VT_ULong u64 | VT_Float u32 | VT_Double u64
  | VT_Name "mem option" | VT_NameIndex u32 | VT_Char u32 | VT_Map mem u32 | VT_Unset | VT_Xid mem u32

section \<open>Properties objects\<close>

record suballoc_t =
  sa_size :: u32
  sa_pos :: u32

type_synonym ism_propent_t = "mem \<times> ism_field_t"

text \<open>
  The entries up to \<^verbatim>\<open>propcount\<close> as a list; \<^verbatim>\<open>alloccount\<close> is the number of entries the table has
  room for. The suballocations are the area after the object itself and the chunks chained to it.
  The counts and the size are of type \<^verbatim>\<open>int\<close> and not negative; where the code would let one grow to \<open>2 ^ 31\<close>, the model has no result.
\<close>

record ism_prop_t =
  pr_props :: "ism_propent_t list"
  pr_alloccount :: nat
  pr_basealloc :: nat
  pr_basesize :: nat
  pr_suballoc :: "suballoc_t list"

definition sizeof_propent :: nat where "sizeof_propent = 24"

definition sizeof_prop :: nat where "sizeof_prop = 48"

definition sizeof_suballoc :: nat where "sizeof_suballoc = 16"

text \<open>With a \<open>size\<close> of \<open>2 ^ 31\<close> or more, the \<^verbatim>\<open>int\<close> is negative and the request for that memory fails.\<close>

definition ism_common_newProperties :: "(nat \<Rightarrow> bool) \<Rightarrow> nat \<Rightarrow> ism_prop_t option" where
  "ism_common_newProperties alloc count =
     (let count = if count < 20 then 20 else count;
          bufsize = count * 40;
          bufsize = if bufsize < 1000 then 1000 else bufsize;
          size = sizeof_prop + count * sizeof_propent + bufsize
      in if size < 2 ^ 31 \<and> alloc size
         then Some \<lparr>pr_props = [], pr_alloccount = count, pr_basealloc = count, pr_basesize = size - sizeof_prop,
                pr_suballoc = [\<lparr>sa_size = of_nat (size - sizeof_prop), sa_pos = of_nat (count * sizeof_propent)\<rparr>]\<rparr>
         else None)"

text \<open>
  \<^verbatim>\<open>allocPropertyBytes\<close> takes the first chunk with room and appends one if there is none. The result
  is the index of the chunk and the offset in it. \<open>len\<close> is the \<^verbatim>\<open>int\<close> argument, not negative; for a negative one the comparison with
  the unsigned room fails in every chunk and the search does not end, which the callers below take into account. The sums \<^verbatim>\<open>len+pad\<close> and
  \<^verbatim>\<open>len+1200\<close> are signed. \<open>newlen\<close> is \<^verbatim>\<open>((len+1200+16) & ~0x3ff) - 16\<close>, which is below \<open>2 ^ 31\<close> if \<^verbatim>\<open>len+1200\<close> is.
\<close>

definition sub_pad :: "bool \<Rightarrow> suballoc_t \<Rightarrow> nat" where
  "sub_pad align suba = (if align then (let pad = 8 - unat (sa_pos suba AND 7) in if pad = 8 then 0 else pad) else 0)"

definition sub_fits :: "nat \<Rightarrow> bool \<Rightarrow> suballoc_t \<Rightarrow> bool" where
  "sub_fits len align suba \<longleftrightarrow> unat (sa_size suba - sa_pos suba) > len + sub_pad align suba"

definition sub_newlen :: "nat \<Rightarrow> nat" where
  "sub_newlen len = (len + 1200 + sizeof_suballoc) div 1024 * 1024 - 16"

definition sub_new :: "nat \<Rightarrow> suballoc_t" where
  "sub_new len = \<lparr>sa_size = of_nat (sub_newlen len - sizeof_suballoc), sa_pos = 0\<rparr>"

lemma unat_of_nat32: "n < 2 ^ 32 \<Longrightarrow> unat (of_nat n :: u32) = n"
  by (simp add: unat_of_nat)

lemma sub_new_size: "len + 1200 < 2 ^ 31 \<Longrightarrow> unat (sa_size (sub_new len)) = sub_newlen len - sizeof_suballoc \<and> sub_newlen len < 2 ^ 31"
proof -
  assume len: "len + 1200 < 2 ^ 31"
  have "(len + 1216) div 1024 * 1024 \<le> len + 1216" by simp
  then have "sub_newlen len < 2 ^ 31" using len by (simp add: sub_newlen_def sizeof_suballoc_def)
  then show ?thesis by (simp add: sub_new_def unat_of_nat32 sizeof_suballoc_def)
qed

lemma sub_new_fits: "len + 1200 < 2 ^ 31 \<Longrightarrow> sub_fits len align (sub_new len)"
proof -
  assume len: "len + 1200 < 2 ^ 31"
  have "(len + 1216) mod 1024 < 1024" by simp
  then have "len + 192 < (len + 1216) div 1024 * 1024" using div_mult_mod_eq [of "len + 1216" 1024] by linarith
  then have "len < sub_newlen len - sizeof_suballoc" by (simp add: sub_newlen_def sizeof_suballoc_def)
  moreover have "sub_pad align (sub_new len) = 0" "sa_pos (sub_new len) = 0" by (simp_all add: sub_pad_def sub_new_def)
  ultimately show ?thesis using sub_new_size [OF len] by (simp add: sub_fits_def)
qed

function allocPropertyBytes :: "(nat \<Rightarrow> bool) \<Rightarrow> nat \<Rightarrow> bool \<Rightarrow> suballoc_t list \<Rightarrow> (nat \<times> nat \<times> suballoc_t list) option" where
  "allocPropertyBytes alloc len align [] = None"
| "allocPropertyBytes alloc len align (suba # next) =
     (if 2 ^ 31 \<le> len + sub_pad align suba then None
      else if sub_fits len align suba
      then Some (0, unat (sa_pos suba) + sub_pad align suba, suba\<lparr>sa_pos := sa_pos suba + of_nat (len + sub_pad align suba)\<rparr> # next)
      else if next = [] \<and> (2 ^ 31 \<le> len + 1200 \<or> \<not> alloc (sub_newlen len)) then None
      else map_option (\<lambda>(i, off, next). (Suc i, off, suba # next))
        (allocPropertyBytes alloc len align (if next = [] then [sub_new len] else next)))"
  by pat_completeness auto

termination
  by (relation "measure (\<lambda>(alloc, len, align, subs). length subs + (if subs \<noteq> [] \<and> sub_fits len align (last subs) then 0 else 1))")
    (auto simp: sub_new_fits)

definition pr_alloc :: "(nat \<Rightarrow> bool) \<Rightarrow> nat \<Rightarrow> bool \<Rightarrow> ism_prop_t \<Rightarrow> ism_prop_t option" where
  "pr_alloc alloc len align props = map_option (\<lambda>(i, off, subs). props\<lparr>pr_suballoc := subs\<rparr>) (allocPropertyBytes alloc len align (pr_suballoc props))"

text \<open>Copies into the memory of the properties object: the pointer returned is to the copy.\<close>

definition addToBufLen :: "(nat \<Rightarrow> bool) \<Rightarrow> mem \<Rightarrow> nat \<Rightarrow> ism_prop_t \<Rightarrow> (mem \<times> ism_prop_t) option" where
  "addToBufLen alloc str len props =
     (if length str < len then None else map_option (Pair (take len str)) (pr_alloc alloc len False props))"

text \<open>\<^verbatim>\<open>(int)strlen(str)+1\<close>: the length is cut to an \<^verbatim>\<open>int\<close>.\<close>

definition addToBuf :: "(nat \<Rightarrow> bool) \<Rightarrow> mem option \<Rightarrow> ism_prop_t \<Rightarrow> (mem option \<times> ism_prop_t) option" where
  "addToBuf alloc str props = (case str of None \<Rightarrow> Some (None, props)
     | Some s \<Rightarrow> do {
         n \<leftarrow> strlen s;
         let len = sint (of_nat n :: u32) + 1;
         if len < 0 \<or> 2 ^ 31 \<le> len then None else do {
           (s, props) \<leftarrow> addToBufLen alloc s (nat len) props;
           Some (Some s, props) } })"

fun findField :: "ism_propent_t list \<Rightarrow> mem \<Rightarrow> nat option option" where
  "findField [] name = Some None"
| "findField ((pname, f) # props) name = do {
     eq \<leftarrow> strcmp0 name pname;
     if eq then Some (Some 0) else map_option (map_option Suc) (findField props name) }"

definition ism_common_getProperty :: "ism_prop_t option \<Rightarrow> mem option \<Rightarrow> (int \<times> ism_field_t) option" where
  "ism_common_getProperty props name = (case (props, name) of
       (Some props, Some name) \<Rightarrow> (case findField (pr_props props) name of
           None \<Rightarrow> None
         | Some None \<Rightarrow> Some (1, VT_Null)
         | Some (Some i) \<Rightarrow> Some (0, snd (pr_props props ! i)))
     | _ \<Rightarrow> Some (2, VT_Null))"

definition ism_common_getPropertyCount :: "ism_prop_t option \<Rightarrow> int" where
  "ism_common_getPropertyCount props = (case props of None \<Rightarrow> - 1 | Some props \<Rightarrow> int (length (pr_props props)))"

definition ism_common_getPropertyIndex :: "ism_prop_t \<Rightarrow> int \<Rightarrow> int \<times> mem option" where
  "ism_common_getPropertyIndex props index =
     (if index < 0 \<or> index \<ge> int (length (pr_props props)) then (1, None) else (0, Some (fst (pr_props props ! nat index))))"

text \<open>
  The copy of a field, shared by \<^verbatim>\<open>ism_common_setProperty\<close> and \<^verbatim>\<open>ism_common_addProperty\<close>. A length of \<open>2 ^ 31\<close> or
  more is negative as the \<^verbatim>\<open>int\<close> that \<^verbatim>\<open>addToBufLen\<close> takes, and then the search for room never ends.
\<close>

definition copy_bytes :: "(nat \<Rightarrow> bool) \<Rightarrow> (mem \<Rightarrow> u32 \<Rightarrow> ism_field_t) \<Rightarrow> mem \<Rightarrow> u32 \<Rightarrow> ism_prop_t \<Rightarrow> (ism_field_t \<times> ism_prop_t) option" where
  "copy_bytes alloc con s len props =
     (if 2 ^ 31 \<le> unat len then None
      else map_option (\<lambda>(s, props). (con s len, props)) (addToBufLen alloc s (unat len) props))"

definition copy_field :: "(nat \<Rightarrow> bool) \<Rightarrow> ism_field_t \<Rightarrow> ism_prop_t \<Rightarrow> (ism_field_t \<times> ism_prop_t) option" where
  "copy_field alloc field props = (case field of
       VT_String s \<Rightarrow> map_option (\<lambda>(s, props). (VT_String s, props)) (addToBuf alloc s props)
     | VT_ByteArray s len \<Rightarrow> copy_bytes alloc VT_ByteArray s len props
     | VT_Xid s len \<Rightarrow> copy_bytes alloc VT_Xid s len props
     | VT_Map s len \<Rightarrow> copy_bytes alloc VT_Map s len props
     | _ \<Rightarrow> Some (field, props))"

text \<open>
  Room for one more entry, and its name. A store at or past \<^verbatim>\<open>alloccount\<close> would have no result. When the size of the new table
  is \<open>2 ^ 31\<close> bytes or more, the \<^verbatim>\<open>int\<close> that is passed for it is negative or too small for the entries that are copied.
\<close>

definition extend_props :: "(nat \<Rightarrow> bool) \<Rightarrow> ism_prop_t \<Rightarrow> ism_prop_t option" where
  "extend_props alloc props =
     (if pr_alloccount props \<le> length (pr_props props)
      then let newcount = pr_alloccount props * 2 + 10 in
        if 2 ^ 31 \<le> newcount * sizeof_propent then None
        else map_option (\<lambda>props. props\<lparr>pr_alloccount := newcount\<rparr>) (pr_alloc alloc (newcount * sizeof_propent) True props)
      else Some props)"

definition new_entry :: "(nat \<Rightarrow> bool) \<Rightarrow> mem \<Rightarrow> ism_prop_t \<Rightarrow> (nat \<times> ism_prop_t) option" where
  "new_entry alloc name props = do {
     let which = length (pr_props props);
     props \<leftarrow> extend_props alloc props;
     (name, props) \<leftarrow> addToBuf alloc (Some name) props;
     case name of Some name \<Rightarrow>
       if which < pr_alloccount props then Some (which, props\<lparr>pr_props := pr_props props @ [(name, VT_Null)]\<rparr>) else None
     | None \<Rightarrow> None }"

definition set_entry :: "(nat \<Rightarrow> bool) \<Rightarrow> nat \<Rightarrow> ism_field_t \<Rightarrow> ism_prop_t \<Rightarrow> (int \<times> ism_prop_t) option" where
  "set_entry alloc which field props = do {
     (f, props) \<leftarrow> copy_field alloc field props;
     Some (0, props\<lparr>pr_props := (pr_props props)[which := (fst (pr_props props ! which), f)]\<rparr>) }"

definition ism_common_setProperty ::
    "(nat \<Rightarrow> bool) \<Rightarrow> mem option \<Rightarrow> ism_field_t option \<Rightarrow> ism_prop_t \<Rightarrow> (int \<times> ism_prop_t) option" where
  "ism_common_setProperty alloc name field props = (case name of
       None \<Rightarrow> Some (2, props)
     | Some name \<Rightarrow> do {
         which \<leftarrow> findField (pr_props props) name;
         case field of
           None \<Rightarrow> (case which of
               Some which \<Rightarrow> Some (0, props\<lparr>pr_props := take which (pr_props props) @ drop (Suc which) (pr_props props)\<rparr>)
             | None \<Rightarrow> Some (0, props))
         | Some field \<Rightarrow> (case which of
               Some which \<Rightarrow> set_entry alloc which field props
             | None \<Rightarrow> do {
                 (which, props) \<leftarrow> new_entry alloc name props;
                 set_entry alloc which field props }) })"



section \<open>Properties as numbers\<close>

text \<open>
  The C conversion of a floating point number to an integer drops the fraction; it is undefined for
  infinities and NaNs and for results outside the range of the integer type. \<open>m\<close> and \<open>e\<close> are the
  widths of the fraction and the exponent, \<open>bias\<close> the exponent of the unit in the last place of 1.
\<close>

definition fp_trunc :: "nat \<Rightarrow> nat \<Rightarrow> nat \<Rightarrow> nat \<Rightarrow> int option" where
  "fp_trunc m e bias w =
     (let frac = w mod 2 ^ m; ex = w div 2 ^ m mod 2 ^ e; neg = (w div 2 ^ (m + e) mod 2 = 1);
          mant = if ex = 0 then frac else frac + 2 ^ m; ex' = max ex 1;
          mag = if bias \<le> ex' then mant * 2 ^ (ex' - bias) else mant div 2 ^ (bias - ex')
      in if ex = 2 ^ e - 1 then None else Some (if neg then - int mag else int mag))"

definition float_trunc :: "u32 \<Rightarrow> int option" where
  "float_trunc w = fp_trunc 23 8 150 (unat w)"

definition double_trunc :: "u64 \<Rightarrow> int option" where
  "double_trunc w = fp_trunc 52 11 1075 (unat w)"

definition in_range :: "int \<Rightarrow> int \<Rightarrow> int option \<Rightarrow> int option" where
  "in_range lo hi v = (case v of Some i \<Rightarrow> if lo \<le> i \<and> i < hi then Some i else None | None \<Rightarrow> None)"

text \<open>What a string that is not a number stands for in \<^verbatim>\<open>ism_common_getIntProperty\<close> and \<^verbatim>\<open>ism_common_getUintProperty\<close>.\<close>

definition text_false :: mem where "text_false = [102, 97, 108, 115, 101, 0]"

definition text_true :: mem where "text_true = [116, 114, 117, 101, 0]"

definition bool_text :: "mem \<Rightarrow> u32 \<Rightarrow> u32 option" where
  "bool_text s deflt = do {
     is_false \<leftarrow> strcasecmp0 s text_false;
     if is_false then Some 0 else do {
       is_true \<leftarrow> strcasecmp0 s text_true;
       Some (if is_true then 1 else deflt) } }"

definition str_int :: "(mem \<Rightarrow> (u32 \<times> mem) option) \<Rightarrow> mem option \<Rightarrow> u32 \<Rightarrow> u32 option" where
  "str_int conv s deflt = (case s of None \<Rightarrow> Some deflt | Some s \<Rightarrow> do {
     (val, endp) \<leftarrow> conv s;
     if endp = [] then None else if hd endp \<noteq> 0 then bool_text s deflt else Some val })"

definition ism_common_getIntProperty :: "ism_prop_t option \<Rightarrow> mem option \<Rightarrow> u32 \<Rightarrow> u32 option" where
  "ism_common_getIntProperty props name deflt = do {
     (rc, f) \<leftarrow> ism_common_getProperty props name;
     case f of
       VT_String s \<Rightarrow> str_int str2l s deflt
     | VT_Boolean i \<Rightarrow> Some (if i \<noteq> 0 then 1 else 0)
     | VT_Byte i \<Rightarrow> Some i | VT_UByte i \<Rightarrow> Some i | VT_Short i \<Rightarrow> Some i | VT_UShort i \<Rightarrow> Some i
     | VT_Integer i \<Rightarrow> Some i | VT_UInt i \<Rightarrow> Some i
     | VT_Long l \<Rightarrow> Some (ucast l) | VT_ULong l \<Rightarrow> Some (ucast l)
     | VT_Float w \<Rightarrow> map_option word_of_int (in_range (- (2 ^ 31)) (2 ^ 31) (float_trunc w))
     | VT_Double w \<Rightarrow> map_option word_of_int (in_range (- (2 ^ 31)) (2 ^ 31) (double_trunc w))
     | _ \<Rightarrow> Some deflt }"

definition ism_common_getUintProperty :: "ism_prop_t option \<Rightarrow> mem option \<Rightarrow> u32 \<Rightarrow> u32 option" where
  "ism_common_getUintProperty props name deflt = do {
     (rc, f) \<leftarrow> ism_common_getProperty props name;
     case f of
       VT_String s \<Rightarrow> str_int str2ul s deflt
     | VT_Boolean i \<Rightarrow> Some (if i \<noteq> 0 then 1 else 0)
     | VT_Byte i \<Rightarrow> Some (i AND 0xFF) | VT_UByte i \<Rightarrow> Some (i AND 0xFF)
     | VT_Short i \<Rightarrow> Some (i AND 0xFFFF) | VT_UShort i \<Rightarrow> Some (i AND 0xFFFF)
     | VT_Integer i \<Rightarrow> Some i | VT_UInt i \<Rightarrow> Some i
     | VT_Long l \<Rightarrow> Some (ucast l) | VT_ULong l \<Rightarrow> Some (ucast l)
     | VT_Float w \<Rightarrow> map_option word_of_int (in_range 0 (2 ^ 32) (float_trunc w))
     | VT_Double w \<Rightarrow> map_option word_of_int (in_range 0 (2 ^ 32) (double_trunc w))
     | _ \<Rightarrow> Some deflt }"

text \<open>\<^verbatim>\<open>ism_common_getLongProperty\<close> tests \<^verbatim>\<open>strcmpi\<close> without the negation the other two have.\<close>

definition str_long :: "mem option \<Rightarrow> u64 \<Rightarrow> u64 option" where
  "str_long s deflt = (case s of None \<Rightarrow> Some deflt | Some s \<Rightarrow> do {
     (val, endp) \<leftarrow> str2ll s;
     if endp = [] then None
     else if hd endp \<noteq> 0 then do {
       is_false \<leftarrow> strcasecmp0 s text_false;
       if \<not> is_false then Some 0 else do {
         is_true \<leftarrow> strcasecmp0 s text_true;
         Some (if \<not> is_true then 1 else deflt) } }
     else Some val })"

definition ism_common_getLongProperty :: "ism_prop_t option \<Rightarrow> mem option \<Rightarrow> u64 \<Rightarrow> u64 option" where
  "ism_common_getLongProperty props name deflt = do {
     (rc, f) \<leftarrow> ism_common_getProperty props name;
     case f of
       VT_String s \<Rightarrow> str_long s deflt
     | VT_Boolean i \<Rightarrow> Some (if i \<noteq> 0 then 1 else 0)
     | VT_Byte i \<Rightarrow> Some (scast i) | VT_UByte i \<Rightarrow> Some (scast i) | VT_Short i \<Rightarrow> Some (scast i) | VT_UShort i \<Rightarrow> Some (scast i)
     | VT_Integer i \<Rightarrow> Some (scast i) | VT_UInt i \<Rightarrow> Some (ucast i)
     | VT_Long l \<Rightarrow> Some l | VT_ULong l \<Rightarrow> Some l
     | VT_Float w \<Rightarrow> map_option word_of_int (in_range (- (2 ^ 63)) (2 ^ 63) (float_trunc w))
     | VT_Double w \<Rightarrow> map_option word_of_int (in_range (- (2 ^ 63)) (2 ^ 63) (double_trunc w))
     | _ \<Rightarrow> Some deflt }"

definition ism_common_getBooleanProperty :: "ism_prop_t option \<Rightarrow> mem option \<Rightarrow> u32 \<Rightarrow> u32 option" where
  "ism_common_getBooleanProperty props name deflt = do {
     ret \<leftarrow> ism_common_getIntProperty props name (- 999);
     Some (if ret = - 999 then deflt else if ret \<noteq> 0 then 1 else 0) }"

section \<open>C strings\<close>

lemma cstr_append [simp]: "0 \<notin> set k \<Longrightarrow> cstr (k @ 0 # r) = k"
  by (induction k) (auto simp: cstr_def)

lemma cstr_no_nul [simp]: "0 \<notin> set (cstr s)"
  by (induction s) (auto simp: cstr_def)

lemma strlen_cstr: "0 \<in> set s \<Longrightarrow> strlen s = Some (length (cstr s))"
  by (simp add: strlen_def cstr_def)

lemma take_cstr: "0 \<in> set s \<Longrightarrow> take (Suc (length (cstr s))) s = cstr s @ [0]"
  by (induction s) (auto simp: cstr_def)

lemma length_cstr: "0 \<in> set s \<Longrightarrow> length (cstr s) < length s"
  by (induction s) (auto simp: cstr_def)

lemma strcmp0_cstr: "0 \<in> set a \<Longrightarrow> 0 \<in> set b \<Longrightarrow> strcmp0 a b = Some (cstr a = cstr b)"
  by (induction a b rule: strcmp0.induct) (auto simp: cstr_def)

section \<open>The allocator\<close>

text \<open>The space of each chunk that has been handed out is the part before \<open>sa_pos\<close>.\<close>

definition subs_ok :: "suballoc_t list \<Rightarrow> bool" where
  "subs_ok subs \<longleftrightarrow> subs \<noteq> [] \<and> (\<forall>suba \<in> set subs. sa_pos suba \<le> sa_size suba)"

definition pos_of :: "suballoc_t list \<Rightarrow> nat \<Rightarrow> nat" where
  "pos_of subs i = (if i < length subs then unat (sa_pos (subs ! i)) else 0)"

text \<open>The lengths for which a new chunk can be had.\<close>

definition len_ok :: "nat \<Rightarrow> bool" where
  "len_ok len \<longleftrightarrow> len + 1200 < 2 ^ 31"

lemma pos_of_Cons [simp]: "pos_of (s # subs) 0 = unat (sa_pos s)" "pos_of (s # subs) (Suc i) = pos_of subs i"
  by (simp_all add: pos_of_def)

lemma pos_of_new [simp]: "pos_of [sub_new len] i = 0"
  by (simp add: pos_of_def sub_new_def)

lemma unat_and_7: "unat (w AND 7 :: u32) = unat w mod 8"
proof -
  have "unat (w AND 7) = unat (take_bit 3 w)" by (simp add: take_bit_eq_mask mask_eq_exp_minus_1)
  also have "\<dots> = take_bit 3 (unat w)" by (rule unsigned_take_bit_eq)
  also have "\<dots> = unat w mod 2 ^ 3" by (rule take_bit_eq_mod)
  finally show ?thesis by simp
qed

lemma sub_pad_less: "sub_pad align s < 8"
  by (simp add: sub_pad_def Let_def)

lemma sub_pad_aligns: "align \<Longrightarrow> 8 dvd unat (sa_pos s) + sub_pad align s"
proof (cases "unat (sa_pos s) mod 8 = 0")
  case False
  define q r where "q = unat (sa_pos s) div 8" and r: "r = unat (sa_pos s) mod 8"
  then have "q * 8 + r = unat (sa_pos s)" "r < 8" by simp_all
  then have "unat (sa_pos s) + (8 - r) = q * 8 + 8" by linarith
  then have "8 dvd unat (sa_pos s) + (8 - r)" by simp
  then show "align \<Longrightarrow> ?thesis" using False by (auto simp: sub_pad_def unat_and_7 r Let_def)
qed (simp add: sub_pad_def unat_and_7 mod_eq_0_iff_dvd)

lemma sub_take:
  assumes "sa_pos s \<le> sa_size s" and "sub_fits len align s"
  shows "unat (sa_pos s + of_nat (len + sub_pad align s)) = unat (sa_pos s) + (len + sub_pad align s)"
    "unat (sa_pos s) + (len + sub_pad align s) < unat (sa_size s)"
proof -
  have "len + sub_pad align s < unat (sa_size s) - unat (sa_pos s)" using assms by (simp add: sub_fits_def unat_sub)
  then show less: "unat (sa_pos s) + (len + sub_pad align s) < unat (sa_size s)" by simp
  have "unat (sa_size s) < 2 ^ 32" using unsigned_less [of "sa_size s", where ?'a = nat] by simp
  then have "unat (of_nat (len + sub_pad align s) :: u32) = len + sub_pad align s" using less by (intro unat_of_nat32) simp
  then show "unat (sa_pos s + of_nat (len + sub_pad align s)) = unat (sa_pos s) + (len + sub_pad align s)"
    using less \<open>unat (sa_size s) < 2 ^ 32\<close> by (simp add: unat_word_ariths)
qed

lemma allocPropertyBytes_spec:
  assumes "subs_ok subs" and "len_ok len" and "\<forall>n. alloc n"
  shows "\<exists>i off subs'. allocPropertyBytes alloc len align subs = Some (i, off, subs') \<and> subs_ok subs' \<and> i < length subs' \<and>
    pos_of subs i \<le> off \<and> off + len = pos_of subs' i \<and> off + len < unat (sa_size (subs' ! i)) \<and>
    (\<forall>j. j \<noteq> i \<longrightarrow> pos_of subs' j = pos_of subs j) \<and> (align \<longrightarrow> 8 dvd off)"
  using assms
proof (induction alloc len align subs rule: allocPropertyBytes.induct)
  case (2 alloc len align suba "next")
  have small: "\<not> 2 ^ 31 \<le> len + sub_pad align suba" "\<not> 2 ^ 31 \<le> len + 1200"
    using 2(3) sub_pad_less [of align suba] by (simp_all add: len_ok_def)
  show ?case
  proof (cases "sub_fits len align suba")
    case True
    have pos: "sa_pos suba \<le> sa_size suba" using 2(2) by (simp add: subs_ok_def)
    note take = sub_take [OF pos True]
    have "subs_ok (suba\<lparr>sa_pos := sa_pos suba + of_nat (len + sub_pad align suba)\<rparr> # next)"
      using 2(2) take unfolding subs_ok_def word_le_nat_alt by auto
    then show ?thesis using True small take sub_pad_aligns [of align suba] by (auto simp: nth_Cons' pos_of_def)
  next
    case False
    let ?next = "if next = [] then [sub_new len] else next"
    have "subs_ok ?next" using 2(2) by (auto simp: subs_ok_def sub_new_def)
    then obtain i off subs' where ih: "allocPropertyBytes alloc len align ?next = Some (i, off, subs')" "subs_ok subs'" "i < length subs'"
      "pos_of ?next i \<le> off" "off + len = pos_of subs' i" "off + len < unat (sa_size (subs' ! i))"
      "\<forall>j. j \<noteq> i \<longrightarrow> pos_of subs' j = pos_of ?next j" "align \<longrightarrow> 8 dvd off"
      using 2(1) [OF small(1) False] 2(3,4) small(2) by blast
    have pn: "pos_of ?next j = pos_of next j" for j by (simp add: pos_of_def sub_new_def)
    have "pos_of (suba # subs') j = pos_of (suba # next) j" if "j \<noteq> Suc i" for j
      using ih(7) pn that by (cases j) auto
    moreover have "allocPropertyBytes alloc len align (suba # next) = Some (Suc i, off, suba # subs')" using False small ih(1) 2(4) by simp
    moreover have "subs_ok (suba # subs')" using ih(2) 2(2) by (simp add: subs_ok_def)
    ultimately show ?thesis using ih(3,4,5,6,8) pn
      by (intro exI [of _ "Suc i"] exI [of _ off] exI [of _ "suba # subs'"] conjI) simp_all
  qed
qed (simp add: subs_ok_def)

text \<open>The search ends in every state, and for a length that no chunk has room for and no new chunk can hold there is no result.\<close>

lemma allocPropertyBytes_too_long:
  "2 ^ 31 \<le> len + 1200 \<Longrightarrow> \<forall>suba \<in> set subs. \<not> sub_fits len align suba \<Longrightarrow> allocPropertyBytes alloc len align subs = None"
  by (induction alloc len align subs rule: allocPropertyBytes.induct) auto

section \<open>The contents of a properties object\<close>

definition prop_ok :: "ism_prop_t \<Rightarrow> bool" where
  "prop_ok props \<longleftrightarrow> length (pr_props props) \<le> pr_alloccount props \<and> subs_ok (pr_suballoc props) \<and>
     pr_basealloc props * sizeof_propent \<le> pr_basesize props \<and> pr_basesize props < 2 ^ 31 \<and>
     (\<forall>(name, f) \<in> set (pr_props props). 0 \<in> set name) \<and> distinct (map (cstr \<circ> fst) (pr_props props))"

definition contents :: "ism_propent_t list \<Rightarrow> (mem \<times> ism_field_t) list" where
  "contents = map (\<lambda>(name, f). (cstr name, f))"

definition prop_get :: "ism_prop_t \<Rightarrow> mem \<Rightarrow> ism_field_t option" where
  "prop_get props = map_of (contents (pr_props props))"

text \<open>
  The names that can be copied, and that \<open>n\<close> more properties can be added: a table of \<open>44000000\<close> entries can still be
  doubled within \<open>2 ^ 31\<close> bytes.
\<close>

definition name_ok :: "mem \<Rightarrow> bool" where
  "name_ok name \<longleftrightarrow> 0 \<in> set name \<and> len_ok (length (cstr name) + 1)"

definition prop_room :: "nat \<Rightarrow> ism_prop_t \<Rightarrow> bool" where
  "prop_room n props \<longleftrightarrow> length (pr_props props) + n \<le> 44000000"

text \<open>The copy that is kept of a value, and the values that can be copied.\<close>

definition stored_field :: "ism_field_t \<Rightarrow> ism_field_t" where
  "stored_field f = (case f of VT_String (Some s) \<Rightarrow> VT_String (Some (cstr s @ [0]))
     | VT_ByteArray s len \<Rightarrow> VT_ByteArray (take (unat len) s) len
     | VT_Xid s len \<Rightarrow> VT_Xid (take (unat len) s) len
     | VT_Map s len \<Rightarrow> VT_Map (take (unat len) s) len
     | _ \<Rightarrow> f)"

definition bytes_ok :: "mem \<Rightarrow> u32 \<Rightarrow> bool" where
  "bytes_ok s len \<longleftrightarrow> unat len < 2 ^ 31 \<and> unat len \<le> length s"

definition field_ok :: "ism_field_t \<Rightarrow> bool" where
  "field_ok f \<longleftrightarrow> (case f of VT_String (Some s) \<Rightarrow> name_ok s
     | VT_ByteArray s len \<Rightarrow> bytes_ok s len \<and> len_ok (unat len) | VT_Xid s len \<Rightarrow> bytes_ok s len \<and> len_ok (unat len)
     | VT_Map s len \<Rightarrow> bytes_ok s len \<and> len_ok (unat len)
     | _ \<Rightarrow> True)"

lemma findField_spec:
  assumes "\<forall>(name, f) \<in> set props. 0 \<in> set name" and "0 \<in> set name"
  shows "findField props name = Some None \<and> map_of (contents props) (cstr name) = None \<and> cstr name \<notin> set (map (cstr \<circ> fst) props) \<or>
    (\<exists>i<length props. findField props name = Some (Some i) \<and> cstr (fst (props ! i)) = cstr name \<and>
       map_of (contents props) (cstr name) = Some (snd (props ! i)))"
  using assms(1)
proof (induction props)
  case (Cons e props)
  obtain n f where e: "e = (n, f)" by (cases e)
  have "strcmp0 name n = Some (cstr name = cstr n)" using Cons.prems e assms(2) by (auto simp: strcmp0_cstr)
  then have find: "findField (e # props) name = (if cstr name = cstr n then Some (Some 0) else map_option (map_option Suc) (findField props name))"
    and cont: "map_of (contents (e # props)) (cstr name) = (if cstr name = cstr n then Some f else map_of (contents props) (cstr name))"
    by (simp_all add: e contents_def)
  have "\<forall>(name, f) \<in> set props. 0 \<in> set name" using Cons.prems by simp
  from Cons.IH [OF this] show ?case
  proof (elim disjE exE conjE)
    fix i
    assume "i < length props" "findField props name = Some (Some i)" "cstr (fst (props ! i)) = cstr name"
      "map_of (contents props) (cstr name) = Some (snd (props ! i))"
    then have "cstr name \<noteq> cstr n \<Longrightarrow> ?case" using find cont by (intro disjI2 exI [of _ "Suc i"]) simp
    then show ?case using find cont e by (cases "cstr name = cstr n") auto
  qed (use find cont e in \<open>cases "cstr name = cstr n"; auto\<close>)
qed (simp add: contents_def)

abbreviation alloc_ok :: "nat \<Rightarrow> bool" where
  "alloc_ok \<equiv> \<lambda>_. True"

lemma pr_alloc_ok:
  assumes "subs_ok (pr_suballoc p)" and "len_ok len"
  shows "\<exists>subs. pr_alloc alloc_ok len align p = Some (p\<lparr>pr_suballoc := subs\<rparr>) \<and> subs_ok subs"
  using allocPropertyBytes_spec [OF assms, of alloc_ok align] by (auto simp: pr_alloc_def)

lemma addToBufLen_ok:
  assumes "subs_ok (pr_suballoc p)" and "len \<le> length s" and "len_ok len"
  shows "\<exists>subs. addToBufLen alloc_ok s len p = Some (take len s, p\<lparr>pr_suballoc := subs\<rparr>) \<and> subs_ok subs"
proof -
  obtain subs where "pr_alloc alloc_ok len False p = Some (p\<lparr>pr_suballoc := subs\<rparr>)" "subs_ok subs"
    using pr_alloc_ok [OF assms(1,3)] by blast
  then show ?thesis using assms(2) by (intro exI [of _ subs]) (simp add: addToBufLen_def)
qed

lemma sint_of_nat32: "n < 2 ^ 31 \<Longrightarrow> sint (of_nat n :: u32) = int n"
  by (simp add: signed_of_nat signed_take_bit_int_eq_self)

lemma addToBuf_ok:
  assumes "subs_ok (pr_suballoc p)" and "name_ok s"
  shows "\<exists>subs. addToBuf alloc_ok (Some s) p = Some (Some (cstr s @ [0]), p\<lparr>pr_suballoc := subs\<rparr>) \<and> subs_ok subs"
proof -
  have s: "0 \<in> set s" "len_ok (Suc (length (cstr s)))" using assms(2) by (simp_all add: name_ok_def)
  obtain subs where subs: "addToBufLen alloc_ok s (Suc (length (cstr s))) p = Some (cstr s @ [0], p\<lparr>pr_suballoc := subs\<rparr>)" "subs_ok subs"
    using addToBufLen_ok [OF assms(1) _ s(2), of s] length_cstr [OF s(1)] take_cstr [OF s(1)] by auto
  have "sint (of_nat (length (cstr s)) :: u32) = int (length (cstr s))" using s(2) by (simp add: len_ok_def sint_of_nat32)
  then have "addToBuf alloc_ok (Some s) p = Some (Some (cstr s @ [0]), p\<lparr>pr_suballoc := subs\<rparr>)"
    using subs(1) s by (simp add: addToBuf_def strlen_cstr len_ok_def nat_add_distrib)
  then show ?thesis using subs(2) by blast
qed

lemma copy_bytes_ok:
  assumes "subs_ok (pr_suballoc p)" and "bytes_ok s len" and "len_ok (unat len)"
  shows "\<exists>subs. copy_bytes alloc_ok con s len p = Some (con (take (unat len) s) len, p\<lparr>pr_suballoc := subs\<rparr>) \<and> subs_ok subs"
proof -
  obtain subs where "addToBufLen alloc_ok s (unat len) p = Some (take (unat len) s, p\<lparr>pr_suballoc := subs\<rparr>)" "subs_ok subs"
    using addToBufLen_ok [OF assms(1) _ assms(3), of s] assms(2) by (auto simp: bytes_ok_def)
  then show ?thesis using assms(2) by (intro exI [of _ subs]) (simp add: copy_bytes_def bytes_ok_def)
qed

lemma copy_field_ok:
  assumes "subs_ok (pr_suballoc p)" and "field_ok f"
  shows "\<exists>subs. copy_field alloc_ok f p = Some (stored_field f, p\<lparr>pr_suballoc := subs\<rparr>) \<and> subs_ok subs"
proof -
  have same: "\<exists>subs. p = p\<lparr>pr_suballoc := subs\<rparr> \<and> subs_ok subs"
    using assms(1) by (intro exI [of _ "pr_suballoc p"]) simp
  show ?thesis
  proof (cases f)
    case (VT_String s)
    show ?thesis
    proof (cases s)
      case None
      then show ?thesis by (simp add: VT_String copy_field_def addToBuf_def stored_field_def same)
    next
      case (Some m)
      then show ?thesis using assms(2) addToBuf_ok [OF assms(1), of m] by (auto simp: VT_String copy_field_def stored_field_def field_ok_def)
    qed
  next
    case (VT_ByteArray s len)
    then show ?thesis using assms(2) copy_bytes_ok [OF assms(1), of s len VT_ByteArray] by (simp add: copy_field_def stored_field_def field_ok_def)
  next
    case (VT_Map s len)
    then show ?thesis using assms(2) copy_bytes_ok [OF assms(1), of s len VT_Map] by (simp add: copy_field_def stored_field_def field_ok_def)
  next
    case (VT_Xid s len)
    then show ?thesis using assms(2) copy_bytes_ok [OF assms(1), of s len VT_Xid] by (simp add: copy_field_def stored_field_def field_ok_def)
  qed (simp_all add: copy_field_def stored_field_def same)
qed

lemma extend_props_ok:
  assumes "subs_ok (pr_suballoc p)" and "length (pr_props p) \<le> pr_alloccount p" and "prop_room (Suc n) p"
  shows "\<exists>subs ac. extend_props alloc_ok p = Some (p\<lparr>pr_suballoc := subs, pr_alloccount := ac\<rparr>) \<and> subs_ok subs \<and> length (pr_props p) < ac"
proof (cases "pr_alloccount p \<le> length (pr_props p)")
  case True
  have "len_ok ((pr_alloccount p * 2 + 10) * sizeof_propent)"
    using True assms(2,3) by (simp add: len_ok_def prop_room_def sizeof_propent_def)
  moreover from this have "\<not> 2 ^ 31 \<le> (pr_alloccount p * 2 + 10) * sizeof_propent" by (simp add: len_ok_def)
  moreover obtain subs where "pr_alloc alloc_ok ((pr_alloccount p * 2 + 10) * sizeof_propent) True p = Some (p\<lparr>pr_suballoc := subs\<rparr>)" "subs_ok subs"
    using pr_alloc_ok [OF assms(1) calculation(1)] by blast
  ultimately show ?thesis using True assms(2)
    by (intro exI [of _ subs] exI [of _ "pr_alloccount p * 2 + 10"]) (simp add: extend_props_def Let_def)
next
  case False
  then show ?thesis using assms by (intro exI [of _ "pr_suballoc p"] exI [of _ "pr_alloccount p"]) (simp add: extend_props_def)
qed

lemma props_update_commute: "p\<lparr>pr_alloccount := ac, pr_suballoc := subs\<rparr> = p\<lparr>pr_suballoc := subs, pr_alloccount := ac\<rparr>"
  by simp

lemma new_entry_ok:
  assumes "prop_ok p" and "name_ok name" and "prop_room (Suc n) p"
  shows "\<exists>subs ac. new_entry alloc_ok name p = Some (length (pr_props p),
      p\<lparr>pr_suballoc := subs, pr_alloccount := ac, pr_props := pr_props p @ [(cstr name @ [0], VT_Null)]\<rparr>) \<and>
    subs_ok subs \<and> length (pr_props p) < ac"
proof -
  obtain subs ac where ext: "extend_props alloc_ok p = Some (p\<lparr>pr_suballoc := subs, pr_alloccount := ac\<rparr>)" "subs_ok subs" "length (pr_props p) < ac"
    using extend_props_ok [OF _ _ assms(3)] assms(1) by (auto simp: prop_ok_def)
  obtain subs' where add: "addToBuf alloc_ok (Some name) (p\<lparr>pr_suballoc := subs, pr_alloccount := ac\<rparr>) =
      Some (Some (cstr name @ [0]), p\<lparr>pr_suballoc := subs', pr_alloccount := ac\<rparr>)" "subs_ok subs'"
    using addToBuf_ok [OF _ assms(2), of "p\<lparr>pr_suballoc := subs, pr_alloccount := ac\<rparr>"] ext(2) by (auto simp: props_update_commute)
  show ?thesis using ext add by (intro exI [of _ subs'] exI [of _ ac]) (simp add: new_entry_def)
qed

lemma set_entry_ok:
  assumes "prop_ok p" and "i < length (pr_props p)" and "field_ok f"
  shows "\<exists>subs. set_entry alloc_ok i f p =
      Some (0, p\<lparr>pr_suballoc := subs, pr_props := (pr_props p)[i := (fst (pr_props p ! i), stored_field f)]\<rparr>) \<and> subs_ok subs"
  using copy_field_ok [OF _ assms(3), of p] assms(1) by (auto simp: set_entry_def prop_ok_def)

lemma contents_simps [simp]:
  "contents (xs @ ys) = contents xs @ contents ys" "contents [] = []" "contents ((n, f) # xs) = (cstr n, f) # contents xs"
  "contents (xs[i := (n, f)]) = (contents xs)[i := (cstr n, f)]" "length (contents xs) = length xs"
  "map fst (contents xs) = map (cstr \<circ> fst) xs" "contents (take i xs) = take i (contents xs)" "contents (drop i xs) = drop i (contents xs)"
  by (auto simp: contents_def map_update take_map drop_map)

lemma distinct_take_drop_map: "distinct (map g xs) \<Longrightarrow> distinct (map g (take i xs @ drop (Suc i) xs))"
  using distinct_remove_at [of "map g xs" i] by (simp only: take_map drop_map map_append)

lemma contents_nth: "i < length xs \<Longrightarrow> contents xs ! i = (cstr (fst (xs ! i)), snd (xs ! i))"
  by (simp add: contents_def split_beta)

lemma add_entry_ok:
  assumes ok: "prop_ok p" and room: "prop_room (Suc n) p" and name: "name_ok name" and f: "field_ok f" and fresh: "cstr name \<notin> set (map (cstr \<circ> fst) (pr_props p))"
  shows "\<exists>p'. (new_entry alloc_ok name p \<bind> (\<lambda>(which, p). set_entry alloc_ok which f p)) = Some (0, p') \<and> prop_ok p' \<and> prop_room n p' \<and>
    prop_get p' = (prop_get p)(cstr name \<mapsto> stored_field f)"
proof -
  obtain subs ac where new: "new_entry alloc_ok name p = Some (length (pr_props p),
      p\<lparr>pr_suballoc := subs, pr_alloccount := ac, pr_props := pr_props p @ [(cstr name @ [0], VT_Null)]\<rparr>)" (is "_ = Some (_, ?p1)")
    and subs: "subs_ok subs" "length (pr_props p) < ac" using new_entry_ok [OF ok name room] by blast
  have ok1: "prop_ok ?p1" using ok subs fresh by (auto simp: prop_ok_def)
  obtain subs' where set: "set_entry alloc_ok (length (pr_props p)) f ?p1 =
      Some (0, ?p1\<lparr>pr_suballoc := subs', pr_props := pr_props p @ [(cstr name @ [0], stored_field f)]\<rparr>)" (is "_ = Some (0, ?p2)")
    and subs': "subs_ok subs'" using set_entry_ok [OF ok1 _ f, of "length (pr_props p)"] by auto
  have "prop_ok ?p2 \<and> prop_room n ?p2" using ok1 subs' room by (auto simp: prop_ok_def prop_room_def)
  moreover have "prop_get ?p2 = (prop_get p)(cstr name \<mapsto> stored_field f)"
    using map_of_insert_at [of "cstr name" "contents (pr_props p)" "length (pr_props p)" "stored_field f"] fresh
    by (simp add: prop_get_def image_image contents_def split_beta)
  ultimately show ?thesis using new set by auto
qed

lemma set_ok:
  assumes ok: "prop_ok p" and room: "prop_room (Suc n) p" and name_ok: "name_ok name" and f: "field_ok f"
  shows "\<exists>p'. ism_common_setProperty alloc_ok (Some name) (Some f) p = Some (0, p') \<and> prop_ok p' \<and> prop_room n p' \<and>
    prop_get p' = (prop_get p)(cstr name \<mapsto> stored_field f)"
proof -
  have name: "0 \<in> set name" using name_ok by (simp add: name_ok_def)
  have names: "\<forall>(name, f) \<in> set (pr_props p). 0 \<in> set name" and dist: "distinct (map (cstr \<circ> fst) (pr_props p))"
    using ok by (auto simp: prop_ok_def)
  from findField_spec [OF names name] show ?thesis
  proof (elim disjE exE conjE)
    assume find: "findField (pr_props p) name = Some None" "cstr name \<notin> set (map (cstr \<circ> fst) (pr_props p))"
    from add_entry_ok [OF ok room name_ok f find(2)] show ?thesis using find(1) by (auto simp: ism_common_setProperty_def)
  next
    fix i
    assume i: "i < length (pr_props p)" and find: "findField (pr_props p) name = Some (Some i)" "cstr (fst (pr_props p ! i)) = cstr name"
    obtain subs where set: "set_entry alloc_ok i f p =
        Some (0, p\<lparr>pr_suballoc := subs, pr_props := (pr_props p)[i := (fst (pr_props p ! i), stored_field f)]\<rparr>)" (is "_ = Some (0, ?p2)")
      and subs: "subs_ok subs" using set_entry_ok [OF ok i f] by blast
    have "map (cstr \<circ> fst) ((pr_props p)[i := (fst (pr_props p ! i), stored_field f)]) = map (cstr \<circ> fst) (pr_props p)"
      using i by (simp add: map_update list_update_same_conv)
    moreover have "0 \<in> set (fst (pr_props p ! i))" using names nth_mem [OF i] by (auto simp: split_beta)
    ultimately have "prop_ok ?p2 \<and> prop_room n ?p2" using ok room subs i
      by (auto simp: prop_ok_def prop_room_def dest!: set_update_subset_insert [THEN subsetD])
    moreover have "prop_get ?p2 = (prop_get p)(cstr name \<mapsto> stored_field f)"
      using map_of_update_at [of i "contents (pr_props p)" "cstr name"] i find dist by (simp add: prop_get_def contents_nth)
    ultimately show ?thesis using find(1) set by (auto simp: ism_common_setProperty_def)
  qed
qed

lemma remove_ok:
  assumes ok: "prop_ok p" and name: "0 \<in> set name"
  shows "\<exists>p'. ism_common_setProperty alloc (Some name) None p = Some (0, p') \<and> prop_ok p' \<and>
    prop_get p' = (prop_get p)(cstr name := None)"
proof -
  have names: "\<forall>(name, f) \<in> set (pr_props p). 0 \<in> set name" and dist: "distinct (map (cstr \<circ> fst) (pr_props p))"
    using ok by (auto simp: prop_ok_def)
  from findField_spec [OF names name] show ?thesis
  proof (elim disjE exE conjE)
    fix i
    assume i: "i < length (pr_props p)" and find: "findField (pr_props p) name = Some (Some i)" "cstr (fst (pr_props p ! i)) = cstr name"
    let ?ps = "take i (pr_props p) @ drop (Suc i) (pr_props p)"
    have "distinct (map (cstr \<circ> fst) ?ps)" using dist distinct_take_drop_map [OF dist] by simp
    moreover have "set ?ps \<subseteq> set (pr_props p)" by (auto dest: in_set_takeD in_set_dropD)
    ultimately have "prop_ok (p\<lparr>pr_props := ?ps\<rparr>)" using ok by (auto simp: prop_ok_def)
    moreover have "prop_get (p\<lparr>pr_props := ?ps\<rparr>) = (prop_get p)(cstr name := None)"
      using map_of_remove_at [of i "contents (pr_props p)" "cstr name"] i find dist by (simp add: prop_get_def contents_nth)
    ultimately show ?thesis using find(1) by (auto simp: ism_common_setProperty_def)
  qed (use ok in \<open>auto simp: ism_common_setProperty_def prop_get_def\<close>)
qed

interpretation pr: kv_store prop_ok prop_room "\<lambda>k. 0 \<notin> set k \<and> len_ok (length k + 1)" field_ok stored_field prop_get
  "\<lambda>k f p. snd (the (ism_common_setProperty alloc_ok (Some (k @ [0])) (Some f) p))"
  "\<lambda>k p. snd (the (ism_common_setProperty alloc_ok (Some (k @ [0])) None p))"
proof unfold_locales
  fix p and k :: mem and f n
  assume p: "prop_ok p" "0 \<notin> set k \<and> len_ok (length k + 1)"
  then show "prop_ok (snd (the (ism_common_setProperty alloc_ok (Some (k @ [0])) None p)))"
    using remove_ok [of p "k @ [0]" alloc_ok] by auto
  show "prop_get (snd (the (ism_common_setProperty alloc_ok (Some (k @ [0])) None p))) k' = (if k' = k then None else prop_get p k')" for k'
    using p remove_ok [of p "k @ [0]" alloc_ok] by auto
  assume f: "prop_room (Suc n) p" "field_ok f"
  have "name_ok (k @ [0])" using p(2) by (simp add: name_ok_def)
  from set_ok [OF p(1) f(1) this f(2)] obtain p' where p': "ism_common_setProperty alloc_ok (Some (k @ [0])) (Some f) p = Some (0, p')"
    "prop_ok p'" "prop_room n p'" "prop_get p' = (prop_get p)(k \<mapsto> stored_field f)" using p(2) by auto
  then show "prop_ok (snd (the (ism_common_setProperty alloc_ok (Some (k @ [0])) (Some f) p)))"
    "prop_room n (snd (the (ism_common_setProperty alloc_ok (Some (k @ [0])) (Some f) p)))" by simp_all
  show "prop_get (snd (the (ism_common_setProperty alloc_ok (Some (k @ [0])) (Some f) p))) k' = (if k' = k then Some (stored_field f) else prop_get p k')" for k'
    using p' by simp
qed

lemma getProperty_spec:
  assumes "prop_ok p" and "0 \<in> set name"
  shows "ism_common_getProperty (Some p) (Some name) =
    Some (case prop_get p (cstr name) of Some f \<Rightarrow> (0, f) | None \<Rightarrow> (1, VT_Null))"
proof -
  have "\<forall>(name, f) \<in> set (pr_props p). 0 \<in> set name" using assms(1) by (simp add: prop_ok_def)
  from findField_spec [OF this assms(2)] show ?thesis
    by (auto simp: ism_common_getProperty_def prop_get_def)
qed

lemma new_ok:
  assumes "count < 2 ^ 25 - 1"
  shows "\<exists>p. ism_common_newProperties alloc_ok count = Some p \<and> prop_ok p \<and> prop_get p = (\<lambda>_. None) \<and> pr_props p = []"
proof -
  let ?c = "if count < 20 then 20 else count" and ?b = "if (if count < 20 then 20 else count) * 40 < 1000 then 1000 else (if count < 20 then 20 else count) * 40"
  have "?c * 24 + ?b + 48 < 2 ^ 31" using assms by simp
  then have "(of_nat (?c * 24) :: u32) \<le> of_nat (?c * 24 + ?b)" unfolding word_le_nat_alt by (subst (1 2) unat_of_nat32) simp_all
  then show ?thesis using assms
    by (simp add: ism_common_newProperties_def Let_def prop_ok_def subs_ok_def prop_get_def sizeof_propent_def sizeof_prop_def)
qed


lemma dec_no_nul: "0 \<notin> set (dec n)"
  using dec_digits [of 0 n] digit_char_props(1) by fastforce

lemma cstr_dec_int: "0 \<in> set (dec_int i)" "cstr (dec_int i) @ [0] = dec_int i"
  using cstr_append [of "(if i < 0 then [45] else []) @ dec (nat \<bar>i\<bar>)" "[]"] dec_no_nul [of "nat \<bar>i\<bar>"]
  by (auto simp: dec_int_def)

lemma dec_int_name_ok: "\<bar>i\<bar> < 10 ^ 20 \<Longrightarrow> name_ok (dec_int i)"
proof -
  assume "\<bar>i\<bar> < 10 ^ 20"
  then have "length (dec (nat \<bar>i\<bar>)) \<le> 20" by (intro dec_length) (simp_all add: nat_less_iff)
  then have "length (dec_int i) \<le> 22" by (auto simp: dec_int_def)
  moreover have "length (cstr (dec_int i)) + 1 = length (dec_int i)" using arg_cong [OF cstr_dec_int(2), of length] by simp
  ultimately show ?thesis using cstr_dec_int(1) by (simp add: name_ok_def len_ok_def)
qed

lemma text_name_ok: "name_ok (dec_int (sint (i :: u32)))" "name_ok (dec_int (uint i))" "name_ok (dec_int (sint (l :: u64)))"
  using sint_greater_eq [of i] sint_less [of i] unsigned_less [of i, where ?'a = int] sint_greater_eq [of l] sint_less [of l]
  by (intro dec_int_name_ok; simp add: abs_if)+

lemma tolower_eq_0 [simp]: "tolower c = 0 \<longleftrightarrow> c = 0"
  by (auto simp: tolower_def word_le_nat_alt word_unat_eq_iff unat_word_ariths)

lemma strcasecmp0_defined: "0 \<in> set s \<Longrightarrow> 0 \<in> set t \<Longrightarrow> strcasecmp0 s t \<noteq> None"
proof (induction s t rule: strcasecmp0.induct)
  case (1 a as b bs)
  have "tolower a = tolower b \<Longrightarrow> a = 0 \<longleftrightarrow> b = 0" by (metis tolower_eq_0)
  then show ?case using 1 by auto
qed auto

lemma not_both_texts: "strcasecmp0 s text_false = Some True \<Longrightarrow> strcasecmp0 s text_true = Some False"
  by (cases s) (auto simp: text_false_def text_true_def tolower_def split: if_splits)

lemma set_string_get:
  assumes "prop_ok p" and "prop_room 1 p" and "name_ok name" and "name_ok s"
  shows "\<exists>p'. ism_common_setProperty alloc_ok (Some name) (Some (VT_String (Some s))) p = Some (0, p') \<and>
    ism_common_getProperty (Some p') (Some name) = Some (0, VT_String (Some (cstr s @ [0])))"
  using set_ok [of p 0 name "VT_String (Some s)"] assms
  by (auto simp: field_ok_def stored_field_def getProperty_spec name_ok_def)

section \<open>Properties\<close>

text \<open>
  C18: The allocator of a properties object, asked for a length up to \<open>2 ^ 31 - 1201\<close>, always finds room, if memory can be had. The block it returns is inside
  one chunk, after everything handed out there before, and aligned to 8 when asked; all other chunks are unchanged. For a greater length a chunk with room is
  used if there is one, and otherwise there is no result: the size of a new chunk overflows.
\<close>

theorem alloc_block:
  assumes "subs_ok subs" and "\<forall>n. alloc n"
  shows "(len + 1200 < 2 ^ 31 \<longrightarrow> (\<exists>i off subs'. allocPropertyBytes alloc len align subs = Some (i, off, subs') \<and> subs_ok subs' \<and> i < length subs' \<and>
      pos_of subs i \<le> off \<and> off + len = pos_of subs' i \<and> off + len < unat (sa_size (subs' ! i)) \<and>
      (\<forall>j. j \<noteq> i \<longrightarrow> pos_of subs' j = pos_of subs j) \<and> (align \<longrightarrow> 8 dvd off))) \<and>
    (2 ^ 31 \<le> len + 1200 \<and> (\<forall>suba \<in> set subs. \<not> sub_fits len align suba) \<longrightarrow> allocPropertyBytes alloc len align subs = None)"
  using allocPropertyBytes_spec [OF assms(1) _ assms(2)] allocPropertyBytes_too_long unfolding len_ok_def by blast

theorem alloc_block_witness:
  "\<exists>i off subs'. allocPropertyBytes (\<lambda>_. True) 100 True [\<lparr>sa_size = 100, sa_pos = 3\<rparr>] = Some (i, off, subs') \<and> 8 dvd off \<and> off + 100 = pos_of subs' i"
proof -
  have "subs_ok [\<lparr>sa_size = 100, sa_pos = 3\<rparr>]" by (simp add: subs_ok_def)
  moreover have "(100 :: nat) + 1200 < 2 ^ 31" by simp
  ultimately show ?thesis using alloc_block [THEN conjunct1, THEN mp, of "[\<lparr>sa_size = 100, sa_pos = 3\<rparr>]" "\<lambda>_. True" 100 True] by blast
qed

text \<open>
  C13: A properties object is a finite map from names to fields: a set property is found under its name with a copy of its
  value and no other lookup changes, and after the property is removed every lookup is as before but that of the name. After a
  sequence of properties is set, each name has the last value set for it. This holds up to the limits that the 32-bit arithmetic of the
  allocator sets: names and values of at most about \<open>2 ^ 31\<close> bytes and 44 million properties.
\<close>

theorem property_map:
  assumes "prop_ok p" and "name_ok name" and "name_ok name'" and "field_ok f" and "\<forall>(k, g) \<in> set kvs. name_ok (k @ [0]) \<and> 0 \<notin> set k \<and> field_ok g"
    and "length (pr_props p) + length kvs < 44000000"
  shows "\<exists>p1 p2. ism_common_setProperty (\<lambda>_. True) (Some name) (Some f) p = Some (0, p1) \<and> prop_ok p1 \<and>
    ism_common_setProperty (\<lambda>_. True) (Some name) None p1 = Some (0, p2) \<and> prop_ok p2 \<and>
    ism_common_getProperty (Some p1) (Some name') =
      (if cstr name' = cstr name then Some (0, stored_field f) else ism_common_getProperty (Some p) (Some name')) \<and>
    ism_common_getProperty (Some p2) (Some name') =
      (if cstr name' = cstr name then Some (1, VT_Null) else ism_common_getProperty (Some p) (Some name')) \<and>
    ism_common_getProperty (Some (fold (\<lambda>(k, g) p. snd (the (ism_common_setProperty (\<lambda>_. True) (Some (k @ [0])) (Some g) p))) kvs p)) (Some name') =
      (case map_of (rev kvs) (cstr name') of Some g \<Rightarrow> Some (0, stored_field g) | None \<Rightarrow> ism_common_getProperty (Some p) (Some name'))"
proof -
  obtain p1 where p1: "ism_common_setProperty (\<lambda>_. True) (Some name) (Some f) p = Some (0, p1)" "prop_ok p1"
    "prop_get p1 = (prop_get p)(cstr name \<mapsto> stored_field f)" using set_ok [OF assms(1) _ assms(2,4), of 0] assms(6) by (auto simp: prop_room_def)
  obtain p2 where p2: "ism_common_setProperty (\<lambda>_. True) (Some name) None p1 = Some (0, p2)" "prop_ok p2"
    "prop_get p2 = (prop_get p1)(cstr name := None)" using remove_ok [OF p1(2)] assms(2) by (auto simp: name_ok_def)
  have name': "0 \<notin> set (cstr name') \<and> len_ok (length (cstr name') + 1)" "0 \<in> set name'" using assms(3) by (simp_all add: name_ok_def)
  have room: "prop_room (length kvs) p" using assms(6) by (simp add: prop_room_def)
  have "\<forall>(k, g) \<in> set kvs. (0 \<notin> set k \<and> len_ok (length k + 1)) \<and> field_ok g" using assms(5) by (auto simp: name_ok_def)
  note kvs = pr.inv_puts [OF assms(1) room this] pr.get_puts [OF assms(1) room this name'(1)]
  show ?thesis using p1 p2 kvs assms(1) name'(2) by (intro exI [of _ p1] exI [of _ p2]) (simp add: getProperty_spec split: option.split)
qed

theorem property_map_witness:
  "\<exists>p p1 p2. ism_common_newProperties (\<lambda>_. True) 5 = Some p \<and>
    ism_common_setProperty (\<lambda>_. True) (Some [65, 0]) (Some (VT_Integer 7)) p = Some (0, p1) \<and>
    ism_common_setProperty (\<lambda>_. True) (Some [65, 0]) None p1 = Some (0, p2) \<and>
    ism_common_getProperty (Some p1) (Some [65, 0, 66]) = Some (0, VT_Integer 7)"
proof -
  obtain p where p: "ism_common_newProperties (\<lambda>_. True) 5 = Some p" "prop_ok p" "pr_props p = []" using new_ok [of 5] by auto
  have "name_ok [65, 0]" "name_ok [65, 0, 66]" by (simp_all add: name_ok_def len_ok_def cstr_def)
  moreover have "field_ok (VT_Integer 7)" "stored_field (VT_Integer 7) = VT_Integer 7" by (simp_all add: field_ok_def stored_field_def)
  moreover have "cstr [65, 0, 66] = cstr [65, 0]" by (simp add: cstr_def)
  ultimately show ?thesis using property_map [OF p(2), of "[65, 0]" "[65, 0, 66]" "VT_Integer 7" "[]"] p by auto
qed



text \<open>
  C21: The text of an integer, set as a string property, is read back as that integer, for the signed, the unsigned and
  the 64-bit reader (in an object with less than 44 million properties).
\<close>

theorem int_property_roundtrip:
  assumes "prop_ok p" and "prop_room 1 p" and "name_ok name"
  shows "(\<exists>t p'. ism_common_itoa i = Some t \<and> ism_common_setProperty (\<lambda>_. True) (Some name) (Some (VT_String (Some t))) p = Some (0, p') \<and>
      ism_common_getIntProperty (Some p') (Some name) d = Some i) \<and>
    (\<exists>t p'. ism_common_uitoa i = Some t \<and> ism_common_setProperty (\<lambda>_. True) (Some name) (Some (VT_String (Some t))) p = Some (0, p') \<and>
      ism_common_getUintProperty (Some p') (Some name) d = Some i) \<and>
    (\<exists>t p'. ism_common_ltoa l = Some t \<and> ism_common_setProperty (\<lambda>_. True) (Some name) (Some (VT_String (Some t))) p = Some (0, p') \<and>
      ism_common_getLongProperty (Some p') (Some name) dl = Some l)"
proof (intro conjI)
  note get = set_string_get [OF assms]
  show "\<exists>t p'. ism_common_itoa i = Some t \<and> ism_common_setProperty (\<lambda>_. True) (Some name) (Some (VT_String (Some t))) p = Some (0, p') \<and>
      ism_common_getIntProperty (Some p') (Some name) d = Some i"
    using get [OF text_name_ok(1) [of i], unfolded cstr_dec_int(2)] str2l_itoa [of i] by (auto simp: itoa_dec ism_common_getIntProperty_def str_int_def)
  show "\<exists>t p'. ism_common_uitoa i = Some t \<and> ism_common_setProperty (\<lambda>_. True) (Some name) (Some (VT_String (Some t))) p = Some (0, p') \<and>
      ism_common_getUintProperty (Some p') (Some name) d = Some i"
    using get [OF text_name_ok(2) [of i], unfolded cstr_dec_int(2)] str2ul_uitoa [of i] by (auto simp: uitoa_dec ism_common_getUintProperty_def str_int_def)
  show "\<exists>t p'. ism_common_ltoa l = Some t \<and> ism_common_setProperty (\<lambda>_. True) (Some name) (Some (VT_String (Some t))) p = Some (0, p') \<and>
      ism_common_getLongProperty (Some p') (Some name) dl = Some l"
    using get [OF text_name_ok(3) [of l], unfolded cstr_dec_int(2)] str2ll_ltoa [of l] by (auto simp: ltoa_dec ism_common_getLongProperty_def str_long_def)
qed

theorem int_property_witness:
  "\<exists>p t p'. ism_common_newProperties (\<lambda>_. True) 5 = Some p \<and> ism_common_itoa (- 12) = Some t \<and>
    ism_common_setProperty (\<lambda>_. True) (Some [65, 0]) (Some (VT_String (Some t))) p = Some (0, p') \<and>
    ism_common_getIntProperty (Some p') (Some [65, 0]) 0 = Some (- 12)"
proof -
  obtain p where p: "ism_common_newProperties (\<lambda>_. True) 5 = Some p" "prop_ok p" "pr_props p = []" using new_ok [of 5] by auto
  have "prop_room 1 p" "name_ok [65, 0]" by (simp_all add: prop_room_def p name_ok_def len_ok_def cstr_def)
  then show ?thesis using int_property_roundtrip [OF p(2), of "[65, 0]" "- 12" 0 0 0] p(1) by auto
qed

text \<open>
  C35: For a string that is not a number, the 64-bit reader never returns the default: it gives 1 for \<open>false\<close> and 0 for every
  other text, \<open>true\<close> included, because it lacks the negations of \<^verbatim>\<open>strcmpi\<close> that the 32-bit readers have.
\<close>

theorem long_text_inverted:
  assumes "prop_ok p" and "prop_room 1 p" and "name_ok name" and "name_ok s" and "str2ll (cstr s @ [0]) = Some (v, e # r)" and "e \<noteq> 0"
  shows "\<exists>p'. ism_common_setProperty (\<lambda>_. True) (Some name) (Some (VT_String (Some s))) p = Some (0, p') \<and>
    ism_common_getLongProperty (Some p') (Some name) d =
      Some (if strcasecmp0 (cstr s @ [0]) text_false = Some True then 1 else 0)"
proof -
  let ?t = "cstr s @ [0]"
  obtain p' where p': "ism_common_setProperty (\<lambda>_. True) (Some name) (Some (VT_String (Some s))) p = Some (0, p')"
    "ism_common_getProperty (Some p') (Some name) = Some (0, VT_String (Some ?t))" using set_string_get [OF assms(1-4)] by blast
  obtain b where b: "strcasecmp0 ?t text_false = Some b"
    using strcasecmp0_defined [of ?t text_false] by (auto simp: text_false_def)
  show ?thesis using p' b assms(5,6) not_both_texts [of ?t]
    by (intro exI [of _ p']) (auto simp: ism_common_getLongProperty_def str_long_def)
qed

theorem long_text_witness:
  "\<exists>p p'. ism_common_newProperties (\<lambda>_. True) 5 = Some p \<and>
    ism_common_setProperty (\<lambda>_. True) (Some [65, 0]) (Some (VT_String (Some text_true))) p = Some (0, p') \<and>
    ism_common_getLongProperty (Some p') (Some [65, 0]) 5 = Some 0"
proof -
  obtain p where p: "ism_common_newProperties (\<lambda>_. True) 5 = Some p" "prop_ok p" "pr_props p = []" using new_ok [of 5] by auto
  have "prop_room 1 p" "name_ok [65, 0]" "name_ok text_true" by (simp_all add: prop_room_def p name_ok_def len_ok_def cstr_def text_true_def)
  moreover have t: "0 \<in> set text_true" "str2ll (cstr text_true @ [0]) = Some (0, 116 # [114, 117, 101, 0])"
    "strcasecmp0 (cstr text_true @ [0]) text_false \<noteq> Some True" by code_simp+
  ultimately show ?thesis using long_text_inverted [OF p(2) _ _ _ t(2), of "[65, 0]" 5] t(3) p(1) by auto
qed

end
