(* ===== verification/Xid.thy ===== *)
theory Xid
  imports Properties
begin

text \<open>
  XA transaction identifiers, \<^verbatim>\<open>src/server_utils/src/properties.c\<close>: the conversion between the structure, its
  field in wire format and its printable text.

  \<^verbatim>\<open>data\<close> has 128 bytes; a store past them has no result. A pointer to characters is the list of
  the bytes that can be read from it on.
\<close>

definition ISM_FWD_XID :: u32 where "ISM_FWD_XID = 0x00667764"

definition XID_DATASIZE :: nat where "XID_DATASIZE = 128"

record ism_xid_t =
  xid_formatID :: u32
  xid_gtrid_length :: u32
  xid_bqual_length :: u32
  xid_data :: "u8 list"

section \<open>Wire format\<close>

text \<open>The four bytes of an integer, most significant first: \<^verbatim>\<open>endian_int32\<close> on a little-endian machine and a copy.\<close>

definition be32 :: "u32 \<Rightarrow> mem" where
  "be32 x = [ucast (drop_bit 24 x), ucast (drop_bit 16 x), ucast (drop_bit 8 x), ucast x]"

definition of_be32 :: "mem \<Rightarrow> u32" where
  "of_be32 m = foldl (\<lambda>v b. push_bit 8 v OR ucast b) 0 m"

text \<open>Store \<open>bytes\<close> into an array at an index.\<close>

definition poke :: "u8 list \<Rightarrow> nat \<Rightarrow> u8 list \<Rightarrow> u8 list option" where
  "poke arr i bytes = (if i + length bytes \<le> length arr then Some (take i arr @ bytes @ drop (i + length bytes) arr) else None)"

definition xid_len :: "ism_xid_t \<Rightarrow> int" where
  "xid_len xid = sint (xid_gtrid_length xid) + sint (xid_bqual_length xid) + 6"

text \<open>The structure is cleared up to \<^verbatim>\<open>data\<close> first; the lengths of its parts are read as \<^verbatim>\<open>char\<close>, which is signed.\<close>

definition ism_common_toXid :: "ism_field_t \<Rightarrow> ism_xid_t \<Rightarrow> (int \<times> ism_xid_t) option" where
  "ism_common_toXid f xid =
     (let xid = xid\<lparr>xid_formatID := 0, xid_gtrid_length := 0, xid_bqual_length := 0\<rparr> in
      case f of VT_Xid s len \<Rightarrow>
        if unat len < 6 then Some (ISMRC_Error, xid)
        else if length s < unat len then None
        else do {
          data \<leftarrow> poke (xid_data xid) 0 (take (unat len - 6) (drop 6 s));
          Some (0, xid\<lparr>xid_data := data, xid_formatID := of_be32 (take 4 s),
                  xid_gtrid_length := scast (s ! 4), xid_bqual_length := scast (s ! 5)\<rparr>) }
      | _ \<Rightarrow> Some (ISMRC_Error, xid))"

definition ism_common_xidFieldLen :: "ism_xid_t option \<Rightarrow> int" where
  "ism_common_xidFieldLen xid = (case xid of None \<Rightarrow> 0
     | Some xid \<Rightarrow> if xid_len xid > int XID_DATASIZE + 6 then 0 else xid_len xid)"

text \<open>The field points to the caller's buffer; a length below the header cannot be copied.\<close>

definition ism_common_fromXid :: "ism_xid_t \<Rightarrow> mem \<Rightarrow> (int \<times> ism_field_t option \<times> mem) option" where
  "ism_common_fromXid xid buf =
     (let len = xid_len xid in
      if len > int XID_DATASIZE + 6 then Some (ISMRC_Error, None, buf)
      else if len < 6 then None
      else do {
        buf \<leftarrow> poke buf 0 (be32 (xid_formatID xid) @ [ucast (xid_gtrid_length xid), ucast (xid_bqual_length xid)]
                 @ take (nat len - 6) (xid_data xid));
        Some (0, Some (VT_Xid buf (word_of_int len)), buf) })"

section \<open>Text\<close>

definition hexCharToInt :: "u8 \<Rightarrow> int" where
  "hexCharToInt c = (if 48 \<le> c \<and> c \<le> 57 then uint c - 48
     else if 65 \<le> c \<and> c \<le> 70 then uint c - 65 + 10
     else if 97 \<le> c \<and> c \<le> 102 then uint c - 97 + 10 else - 1)"

definition toupper :: "u8 \<Rightarrow> u8" where
  "toupper c = (if 97 \<le> c \<and> c \<le> 122 then c - 32 else c)"

text \<open>\<^verbatim>\<open>strchr\<close> for a colon: the text before it and after it.\<close>

fun split_colon :: "mem \<Rightarrow> (mem \<times> mem) option" where
  "split_colon [] = None"
| "split_colon (c # cs) = (if c = 58 then Some ([], cs) else map_option (\<lambda>(a, b). (c # a, b)) (split_colon cs))"

text \<open>Whether all characters are hexadecimal digits, and the number up to there.\<close>

fun parse_format :: "u32 \<Rightarrow> mem \<Rightarrow> bool \<times> u32" where
  "parse_format fid [] = (True, fid)"
| "parse_format fid (c # cs) =
     (let d = hexCharToInt (toupper c) in
      if d < 0 then (False, fid) else parse_format (push_bit 4 fid OR word_of_int d) cs)"

text \<open>
  A string of pairs of hexadecimal digits stored in \<^verbatim>\<open>data\<close> from \<open>j\<close> on. The result is
  whether all were digits, the index after the last byte and the data.
\<close>

fun parse_bytes :: "mem \<Rightarrow> nat \<Rightarrow> u8 list \<Rightarrow> (bool \<times> nat \<times> u8 list) option" where
  "parse_bytes (a # b # cs) j data =
     (let c1 = hexCharToInt (toupper a); c2 = hexCharToInt (toupper b) in
      if c1 < 0 \<or> c2 < 0 then Some (False, j, data)
      else if length data \<le> j then None
      else parse_bytes cs (Suc j) (data[j := word_of_int (c1 * 16 + c2)]))"
| "parse_bytes _ j data = Some (True, j, data)"

definition parse_hex_xid :: "mem \<Rightarrow> mem \<Rightarrow> mem \<Rightarrow> ism_xid_t \<Rightarrow> (int \<times> ism_xid_t) option" where
  "parse_hex_xid fmt bq gt xid = (case parse_format 0 fmt of (ok, fid) \<Rightarrow>
         let xid = xid\<lparr>xid_formatID := fid\<rparr> in
         if \<not> ok then Some (ISMRC_InvalidParameter, xid)
         else if length bq = 0 \<or> odd (length bq) then Some (ISMRC_InvalidParameter, xid)
         else do {
           (ok, j, data) \<leftarrow> parse_bytes bq 0 (xid_data xid);
           let xid = xid\<lparr>xid_data := data\<rparr>;
           if \<not> ok then Some (ISMRC_InvalidParameter, xid)
           else let xid = xid\<lparr>xid_bqual_length := of_nat j\<rparr> in
             if length gt = 0 \<or> odd (length gt) then Some (ISMRC_InvalidParameter, xid)
             else do {
               (ok, j2, data) \<leftarrow> parse_bytes gt j (xid_data xid);
               let xid = xid\<lparr>xid_data := data\<rparr>;
               if \<not> ok then Some (ISMRC_InvalidParameter, xid)
               else Some (0, xid\<lparr>xid_gtrid_length := of_nat j2 - xid_bqual_length xid\<rparr>) } })"

definition parse_fwd_xid :: "mem \<Rightarrow> mem \<Rightarrow> ism_xid_t \<Rightarrow> ism_xid_t option" where
  "parse_fwd_xid bq gt xid = do {
     data \<leftarrow> poke (xid_data xid) 0 bq;
     data \<leftarrow> poke data (length bq) gt;
     Some (xid\<lparr>xid_formatID := ISM_FWD_XID, xid_bqual_length := of_nat (length bq), xid_gtrid_length := of_nat (length gt), xid_data := data\<rparr>) }"

text \<open>A failed conversion may leave the structure partly filled. The case of a forwarder goes on to the error return.\<close>

definition ism_common_StringToXid :: "mem option \<Rightarrow> ism_xid_t \<Rightarrow> (int \<times> ism_xid_t) option" where
  "ism_common_StringToXid xidStr xid = (case xidStr of None \<Rightarrow> Some (ISMRC_InvalidParameter, xid)
     | Some s \<Rightarrow>
         if 0 \<notin> set s then None
         else case split_colon (cstr s) of None \<Rightarrow> Some (ISMRC_InvalidParameter, xid)
           | Some (fmt, rest) \<Rightarrow> (case split_colon rest of None \<Rightarrow> Some (ISMRC_InvalidParameter, xid)
               | Some (bq, gt) \<Rightarrow>
                   if fmt = [102, 119, 100] then map_option (Pair ISMRC_InvalidParameter) (parse_fwd_xid bq gt xid)
                   else parse_hex_xid fmt bq gt xid))"

definition nibble :: "u32 \<Rightarrow> nat \<Rightarrow> nat" where
  "nibble fid i = unat (drop_bit (4 * i) fid AND 0xF)"

definition format_text :: "u32 \<Rightarrow> mem" where
  "format_text fid = map hex_char (dropWhile (\<lambda>d. d = 0) (map (nibble fid) [7, 6, 5, 4, 3, 2, 1]) @ [nibble fid 0])"

definition hex_bytes :: "u8 list \<Rightarrow> mem" where
  "hex_bytes bs = concat (map (\<lambda>b. [hex_char (unat b div 16), hex_char (unat b mod 16)]) bs)"

text \<open>The text in \<^verbatim>\<open>out\<close>, which has 278 bytes.\<close>

definition xid_text :: "ism_xid_t \<Rightarrow> mem option" where
  "xid_text xid =
     (let bq = take (unat (xid_bqual_length xid)) (xid_data xid);
          gt = take (unat (xid_gtrid_length xid)) (drop (unat (xid_bqual_length xid)) (xid_data xid));
          out = if xid_formatID xid = ISM_FWD_XID
                then [102, 119, 100, 58] @ bq @ 58 # gt @ [0]
                else format_text (xid_formatID xid) @ 58 # hex_bytes bq @ 58 # hex_bytes gt @ [0]
      in if length out \<le> 278 then Some out else None)"

text \<open>The bytes that \<^verbatim>\<open>ism_common_strlcpy\<close> stores at its destination.\<close>

definition ism_common_strlcpy :: "mem \<Rightarrow> nat \<Rightarrow> mem option" where
  "ism_common_strlcpy src n = do {
     len \<leftarrow> strlen src;
     Some (if len < n then take (len + 1) src else if n > 0 then take (n - 1) src @ [0] else []) }"

text \<open>\<open>None\<close> as the first result is the return value \<^verbatim>\<open>NULL\<close>.\<close>

definition ism_common_xidToString :: "ism_xid_t option \<Rightarrow> nat \<Rightarrow> mem option option" where
  "ism_common_xidToString xid len = (case xid of
       None \<Rightarrow> Some None
     | Some xid \<Rightarrow> if xid_bqual_length xid > 64 \<or> xid_gtrid_length xid > 64 then Some None
         else do {
           out \<leftarrow> xid_text xid;
           buf \<leftarrow> ism_common_strlcpy out len;
           Some (Some buf) })"

section \<open>Hexadecimal text\<close>

lemma hex_char_facts:
  assumes "d < 16"
  shows "hexCharToInt (toupper (hex_char d)) = int d \<and> hex_char d \<noteq> 58 \<and> hex_char d \<noteq> 0 \<and> hex_char d \<noteq> 119"
proof -
  have "\<forall>d \<in> set [0..<16]. hexCharToInt (toupper (hex_char d)) = int d \<and> hex_char d \<noteq> 58 \<and> hex_char d \<noteq> 0 \<and> hex_char d \<noteq> 119"
    by code_simp
  then show ?thesis using assms by simp
qed

lemmas hex_char_read = hex_char_facts [THEN conjunct1]

lemma split_colon_append: "58 \<notin> set a \<Longrightarrow> split_colon (a @ 58 # b) = Some (a, b)"
  by (induction a) auto

lemma shift_or: "d < 16 \<Longrightarrow> push_bit 4 v OR word_of_int (int d) = v * 16 + of_nat d" for v :: u32
proof -
  assume d: "d < 16"
  have "push_bit 4 v AND word_of_int (int d) = 0"
  proof (rule bit_word_eqI)
    fix n
    have "\<not> bit (int d) n" if "4 \<le> n"
    proof -
      have "(16 :: int) \<le> 2 ^ n" using power_increasing [OF that, of "2 :: int"] by simp
      then have "int d < 2 ^ n" using d by linarith
      then show ?thesis by (simp add: bit_iff_odd)
    qed
    then show "bit (push_bit 4 v AND word_of_int (int d)) n = bit 0 n" by (auto simp: bit_simps)
  qed
  then have "push_bit 4 v OR word_of_int (int d) = push_bit 4 v + word_of_int (int d)" by (rule disjunctive_add_eq_or [symmetric])
  then show ?thesis by (simp add: push_bit_eq_mult)
qed

lemma parse_format_digits:
  "\<forall>d \<in> set ds. d < 16 \<Longrightarrow> parse_format (of_nat a) (map hex_char ds) = (True, of_nat (foldl (\<lambda>a d. a * 16 + d) a ds))"
proof (induction ds arbitrary: a)
  case (Cons d ds)
  then have "parse_format (of_nat a) (map hex_char (d # ds)) = parse_format (of_nat (a * 16 + d)) (map hex_char ds)"
    using shift_or [of d "of_nat a"] by (simp add: hex_char_read)
  also have "\<dots> = (True, of_nat (foldl (\<lambda>a d. a * 16 + d) (a * 16 + d) ds))" using Cons.prems by (intro Cons.IH) simp
  finally show ?case by (simp only: foldl_Cons)
qed simp

lemma horner_nibbles:
  "foldl (\<lambda>a d. a * 16 + d) a (map (\<lambda>i. n div 16 ^ i mod 16) (rev [0..<k])) = a * 16 ^ k + n mod (16 ^ k :: nat)"
proof (induction k arbitrary: a)
  case (Suc k)
  have "n mod 16 ^ Suc k = 16 ^ k * (n div 16 ^ k mod 16) + n mod 16 ^ k"
    using mod_mult2_eq [of n "16 ^ k" 16] by (simp add: mult.commute)
  then show ?case using Suc by (simp add: algebra_simps)
qed simp

lemma foldl_dropWhile_0: "foldl (\<lambda>a d. a * 16 + d) (0 :: nat) (dropWhile (\<lambda>d. d = 0) ds) = foldl (\<lambda>a d. a * 16 + d) 0 ds"
  by (induction ds) auto

lemma nibble_eq: "nibble fid i = unat fid div 16 ^ i mod 16"
  by (simp add: nibble_def unat_and_15 unat_drop_bit power_mult)

lemma parse_format_text: "parse_format 0 (format_text fid) = (True, fid)"
proof -
  define ns where "ns = map (nibble fid) [7, 6, 5, 4, 3, 2, 1]"
  let ?ds = "dropWhile (\<lambda>d. d = 0) ns @ [nibble fid 0]"
  have "\<forall>d \<in> set ns. d < 16" by (simp add: ns_def nibble_eq)
  then have lt: "\<forall>d \<in> set ?ds. d < 16" using set_dropWhileD [of _ "\<lambda>d. d = 0" ns] by (auto simp: nibble_eq)
  have "ns @ [nibble fid 0] = map (\<lambda>i. unat fid div 16 ^ i mod 16) (rev [0..<8])"
    by (simp add: ns_def nibble_eq upt_rec)
  then have "foldl (\<lambda>a d. a * 16 + d) 0 (ns @ [nibble fid 0]) = unat fid mod 16 ^ 8"
    using horner_nibbles [of 0 "unat fid" 8] by simp
  moreover have "unat fid < 16 ^ 8" using unsigned_less [of fid, where ?'a = nat] by simp
  ultimately have "foldl (\<lambda>a d. a * 16 + d) 0 ?ds = unat fid"
    by (simp only: foldl_append foldl_dropWhile_0 mod_less)
  then show ?thesis using parse_format_digits [OF lt, of 0] unfolding format_text_def ns_def [symmetric] by simp
qed

lemma parse_hex_bytes:
  "j + length bs \<le> length data \<Longrightarrow>
    parse_bytes (hex_bytes bs) j data = Some (True, j + length bs, take j data @ bs @ drop (j + length bs) data)"
proof (induction bs arbitrary: j data)
  case (Cons b bs)
  have lt: "unat b div 16 < 16" "unat b mod 16 < 16" using unat_byte_less [of b] by (simp_all add: div_less_iff_less_mult)
  have "int (unat b div 16) * 16 + int (unat b mod 16) = int (unat b)"
    by (metis div_mult_mod_eq of_nat_add of_nat_mult of_nat_numeral)
  then have "parse_bytes (hex_bytes (b # bs)) j data = parse_bytes (hex_bytes bs) (Suc j) (data[j := b])"
    using lt Cons.prems by (simp add: hex_bytes_def hex_char_read)
  then show ?case using Cons by (simp add: take_Suc_conv_app_nth upd_conv_take_nth_drop add.commute)
qed (simp add: hex_bytes_def)

lemma hex_bytes_chars: "b \<in> set (hex_bytes bs) \<Longrightarrow> b \<noteq> 58 \<and> b \<noteq> 0"
proof -
  assume "b \<in> set (hex_bytes bs)"
  then obtain x where "b = hex_char (unat (x :: u8) div 16) \<or> b = hex_char (unat x mod 16)" by (auto simp: hex_bytes_def)
  moreover have "unat x div 16 < 16" "unat x mod 16 < 16" using unat_byte_less [of x] by (simp_all add: div_less_iff_less_mult)
  ultimately show ?thesis using hex_char_facts by metis
qed

lemma length_hex_bytes [simp]: "length (hex_bytes bs) = 2 * length bs"
  by (induction bs) (auto simp: hex_bytes_def)

lemma format_text_chars: "b \<in> set (format_text fid) \<Longrightarrow> b \<noteq> 58 \<and> b \<noteq> 0 \<and> b \<noteq> 119"
proof -
  assume "b \<in> set (format_text fid)"
  then have "b \<in> hex_char ` (nibble fid ` UNIV)"
    by (fastforce simp: format_text_def simp del: dropWhile.simps list.map dest: set_dropWhileD)
  then obtain i where "b = hex_char (nibble fid i)" by blast
  moreover have "nibble fid i < 16" by (simp add: nibble_eq)
  ultimately show ?thesis using hex_char_facts by metis
qed

lemma length_format_text: "length (format_text fid) \<le> 8"
proof -
  have "length (dropWhile (\<lambda>d. d = 0) (map (nibble fid) [7, 6, 5, 4, 3, 2, 1])) \<le> length (map (nibble fid) [7, 6, 5, 4, 3, 2, 1])"
    by (rule length_dropWhile_le)
  also have "\<dots> = 7" by simp
  finally show ?thesis unfolding format_text_def by (simp only: length_map length_append) simp
qed

lemma cstr_hex_text:
  assumes "0 \<notin> set a"
  shows "cstr (a @ [0]) = a" and "ism_common_strlcpy (a @ [0]) n = Some (if length a < n then a @ [0] else if n > 0 then take (n - 1) (a @ [0]) @ [0] else [])"
  using assms cstr_append [of a "[]"] by (simp_all add: ism_common_strlcpy_def strlen_cstr)

lemma be32_roundtrip: "of_be32 (be32 x) = x"
proof (rule bit_word_eqI)
  fix n
  assume "n < LENGTH(32)"
  then consider "n < 8" | "8 \<le> n" "n < 16" | "16 \<le> n" "n < 24" | "24 \<le> n" "n < 32" by fastforce
  then show "bit (of_be32 (be32 x)) n = bit x n" by cases (auto simp: of_be32_def be32_def bit_simps)
qed

lemma length_be32 [simp]: "length (be32 x) = 4"
  by (simp add: be32_def)

lemma parse_hex_xid_ok:
  assumes "unat (xid_bqual_length xid) = bq" and "unat (xid_gtrid_length xid) = gt" and "0 < bq" and "0 < gt"
    and "bq + gt \<le> length (xid_data xid)" and "bq + gt \<le> length (xid_data x0)"
  shows "parse_hex_xid (format_text (xid_formatID xid)) (hex_bytes (take bq (xid_data xid))) (hex_bytes (take gt (drop bq (xid_data xid)))) x0 =
    Some (0, xid\<lparr>xid_data := take (bq + gt) (xid_data xid) @ drop (bq + gt) (xid_data x0)\<rparr>)"
proof -
  let ?bq = "take bq (xid_data xid)" and ?gt = "take gt (drop bq (xid_data xid))"
  let ?d = "?bq @ drop bq (xid_data x0)"
  have len: "length ?bq = bq" "length ?gt = gt" using assms by simp_all
  have p1: "parse_bytes (hex_bytes ?bq) 0 (xid_data x0) = Some (True, bq, ?d)"
    using parse_hex_bytes [of 0 ?bq "xid_data x0"] len assms by simp
  have p2: "parse_bytes (hex_bytes ?gt) bq ?d = Some (True, bq + gt, take (bq + gt) (xid_data xid) @ drop (bq + gt) (xid_data x0))"
    using parse_hex_bytes [of bq ?gt ?d] len assms by (simp add: take_add add.commute)
  have w: "of_nat bq = xid_bqual_length xid" "of_nat (bq + gt) - xid_bqual_length xid = xid_gtrid_length xid"
    using assms(1,2) by (auto simp: word_unat_eq_iff)
  have "parse_hex_xid (format_text (xid_formatID xid)) (hex_bytes ?bq) (hex_bytes ?gt) x0 =
    Some (0, x0\<lparr>xid_formatID := xid_formatID xid, xid_data := take (bq + gt) (xid_data xid) @ drop (bq + gt) (xid_data x0),
      xid_bqual_length := xid_bqual_length xid, xid_gtrid_length := xid_gtrid_length xid\<rparr>)"
    using p1 p2 w len assms(3,4) by (simp add: parse_hex_xid_def parse_format_text Let_def)
  then show ?thesis by (cases x0, cases xid) simp
qed

lemma xid_hex_text:
  fixes bq gt :: nat
  assumes "length (xid_data xid) = XID_DATASIZE" and "length (xid_data x0) = XID_DATASIZE"
    and "unat (xid_bqual_length xid) = bq" and "unat (xid_gtrid_length xid) = gt"
    and "0 < bq" and "bq \<le> 64" and "0 < gt" and "gt \<le> 64" and "xid_formatID xid \<noteq> ISM_FWD_XID"
  shows "\<exists>t. ism_common_xidToString (Some xid) 278 = Some (Some t) \<and>
    ism_common_StringToXid (Some t) x0 = Some (0, xid\<lparr>xid_data := take (bq + gt) (xid_data xid) @ drop (bq + gt) (xid_data x0)\<rparr>)"
proof -
  let ?bq = "take bq (xid_data xid)" and ?gt = "take gt (drop bq (xid_data xid))"
  let ?fmt = "format_text (xid_formatID xid)"
  let ?out = "?fmt @ 58 # hex_bytes ?bq @ 58 # hex_bytes ?gt"
  have len: "length ?bq = bq" "length ?gt = gt" using assms by (simp_all add: XID_DATASIZE_def)
  have no0: "0 \<notin> set ?out" using format_text_chars hex_bytes_chars by fastforce
  have lo: "length ?out < 278" using length_format_text [of "xid_formatID xid"] len assms by simp
  have "xid_text xid = Some (?out @ [0])" using lo assms by (simp add: xid_text_def Let_def)
  moreover have "xid_bqual_length xid \<le> 64" "xid_gtrid_length xid \<le> 64" using assms by (simp_all add: word_le_nat_alt)
  ultimately have to: "ism_common_xidToString (Some xid) 278 = Some (Some (?out @ [0]))"
    using cstr_hex_text(2) [OF no0, of 278] lo by (simp add: ism_common_xidToString_def not_less)
  have split: "split_colon ?out = Some (?fmt, hex_bytes ?bq @ 58 # hex_bytes ?gt)"
    "split_colon (hex_bytes ?bq @ 58 # hex_bytes ?gt) = Some (hex_bytes ?bq, hex_bytes ?gt)"
    using format_text_chars hex_bytes_chars by (intro split_colon_append; fastforce)+
  have "119 \<notin> set ?fmt" using format_text_chars by blast
  then have nf: "?fmt \<noteq> [102, 119, 100]" by auto
  have "parse_hex_xid ?fmt (hex_bytes ?bq) (hex_bytes ?gt) x0 =
      Some (0, xid\<lparr>xid_data := take (bq + gt) (xid_data xid) @ drop (bq + gt) (xid_data x0)\<rparr>)"
    using parse_hex_xid_ok [OF assms(3,4,5,7)] assms by (simp add: XID_DATASIZE_def)
  then show ?thesis using to split nf no0 cstr_hex_text(1) [OF no0]
    by (intro exI [of _ "?out @ [0]"]) (simp add: ism_common_StringToXid_def)
qed

text \<open>
  A text in the format of the forwarder is never accepted: whatever follows \<open>fwd:\<close>, the conversion does not
  return 0, even after it filled the structure.
\<close>

lemma fwd_text_rejected:
  assumes "ism_common_StringToXid (Some ([102, 119, 100, 58] @ rest)) xid = Some (rc, xid')"
  shows "rc = ISMRC_InvalidParameter"
  using assms by (auto simp: ism_common_StringToXid_def cstr_def split: option.splits if_splits prod.splits)

lemma xid_fwd_text:
  fixes bq gt :: nat
  assumes "unat (xid_bqual_length xid) \<le> 64" and "unat (xid_gtrid_length xid) \<le> 64" and "xid_formatID xid = ISM_FWD_XID"
  shows "\<exists>rest. ism_common_xidToString (Some xid) 278 = Some (Some ([102, 119, 100, 58] @ rest))"
proof -
  let ?bq = "take (unat (xid_bqual_length xid)) (xid_data xid)"
  let ?gt = "take (unat (xid_gtrid_length xid)) (drop (unat (xid_bqual_length xid)) (xid_data xid))"
  let ?r = "?bq @ 58 # ?gt @ [0]"
  let ?out = "[102, 119, 100, 58] @ ?r"
  have lo: "length ?out \<le> 278" using assms(1,2) by simp
  then have "xid_text xid = Some ?out" using assms(3) by (simp add: xid_text_def Let_def)
  moreover have "xid_bqual_length xid \<le> 64" "xid_gtrid_length xid \<le> 64" using assms(1,2) by (simp_all add: word_le_nat_alt)
  moreover have "ism_common_strlcpy ?out 278 = Some ([102, 119, 100, 58] @ cstr ?r @ [0])"
  proof -
    have r: "0 \<in> set ?r" "0 \<in> set ?out" by simp_all
    have "cstr ?out = [102, 119, 100, 58] @ cstr ?r" by (simp add: cstr_def)
    moreover have "length (cstr ?out) < length ?out" using r(2) by (rule length_cstr)
    ultimately show ?thesis using lo take_cstr [OF r(2)] strlen_cstr [OF r(2)] by (simp add: ism_common_strlcpy_def)
  qed
  ultimately show ?thesis by (simp add: ism_common_xidToString_def not_less)
qed

section \<open>Properties\<close>

text \<open>
  C22: The text of a transaction identifier with both lengths from 1 to 64. In any format but that of the forwarder it is parsed back as the same identifier, whatever
  the structure held before. In the format of the forwarder a text is written too, but when it is parsed, the result is never
  a success.
\<close>

theorem xid_text_roundtrip:
  fixes bq gt :: nat
  assumes "length (xid_data xid) = XID_DATASIZE" and "length (xid_data x0) = XID_DATASIZE"
    and "unat (xid_bqual_length xid) = bq" and "unat (xid_gtrid_length xid) = gt"
    and "0 < bq" and "bq \<le> 64" and "0 < gt" and "gt \<le> 64"
  shows "\<exists>t. ism_common_xidToString (Some xid) 278 = Some (Some t) \<and>
    (if xid_formatID xid \<noteq> ISM_FWD_XID
     then ism_common_StringToXid (Some t) x0 = Some (0, xid\<lparr>xid_data := take (bq + gt) (xid_data xid) @ drop (bq + gt) (xid_data x0)\<rparr>)
     else \<forall>rc x'. ism_common_StringToXid (Some t) x0 = Some (rc, x') \<longrightarrow> rc = ISMRC_InvalidParameter)"
proof (cases "xid_formatID xid = ISM_FWD_XID")
  case True
  then obtain rest where "ism_common_xidToString (Some xid) 278 = Some (Some ([102, 119, 100, 58] @ rest))"
    using xid_fwd_text [of xid] assms(3,4,6,8) by blast
  then show ?thesis using True fwd_text_rejected [of rest x0] by (intro exI [of _ "[102, 119, 100, 58] @ rest"]) auto
next
  case False
  then show ?thesis using xid_hex_text [OF assms] by simp
qed

theorem xid_text_witness:
  "\<exists>t. ism_common_xidToString (Some \<lparr>xid_formatID = 0x1F, xid_gtrid_length = 2, xid_bqual_length = 1, xid_data = replicate 128 7\<rparr>) 278 = Some (Some t) \<and>
    ism_common_StringToXid (Some t) \<lparr>xid_formatID = 0, xid_gtrid_length = 0, xid_bqual_length = 0, xid_data = replicate 128 7\<rparr> =
      Some (0, \<lparr>xid_formatID = 0x1F, xid_gtrid_length = 2, xid_bqual_length = 1, xid_data = replicate 128 7\<rparr>)"
proof -
  define d where "d = replicate 128 (7 :: u8)"
  then have len: "length d = 128" by simp
  show ?thesis using xid_text_roundtrip [of "\<lparr>xid_formatID = 0x1F, xid_gtrid_length = 2, xid_bqual_length = 1, xid_data = d\<rparr>"
      "\<lparr>xid_formatID = 0, xid_gtrid_length = 0, xid_bqual_length = 0, xid_data = d\<rparr>" 1 2] len
    unfolding d_def [symmetric] by (simp add: XID_DATASIZE_def ISM_FWD_XID_def)
qed

text \<open>
  C23: The wire format of a transaction identifier is converted back to the same identifier, for lengths that fit a signed
  character and together fit the data.
\<close>

theorem xid_field_roundtrip:
  fixes bq gt :: nat
  assumes "length (xid_data xid) = XID_DATASIZE" and "length (xid_data x0) = XID_DATASIZE"
    and "unat (xid_bqual_length xid) = bq" and "unat (xid_gtrid_length xid) = gt"
    and "bq < 128" and "gt < 128" and "bq + gt \<le> XID_DATASIZE" and "int (length buf) \<ge> ism_common_xidFieldLen (Some xid)"
  shows "\<exists>f buf'. ism_common_fromXid xid buf = Some (0, Some f, buf') \<and>
    ism_common_toXid f x0 = Some (0, xid\<lparr>xid_data := take (bq + gt) (xid_data xid) @ drop (bq + gt) (xid_data x0)\<rparr>)"
proof -
  let ?d = "take (bq + gt) (xid_data xid)" and ?x = "xid\<lparr>xid_data := take (bq + gt) (xid_data xid) @ drop (bq + gt) (xid_data x0)\<rparr>"
  define m where "m = be32 (xid_formatID xid) @ [ucast (xid_gtrid_length xid), ucast (xid_bqual_length xid)] @ ?d"
  define b where "b = m @ drop (bq + gt + 6) buf"
  have m: "length m = bq + gt + 6" using assms by (simp add: m_def XID_DATASIZE_def)
  have "sint (xid_bqual_length xid) = int bq" "sint (xid_gtrid_length xid) = int gt"
    using sint_small [of "xid_bqual_length xid", unfolded assms(3)] sint_small [of "xid_gtrid_length xid", unfolded assms(4)] assms(5,6) by simp_all
  then have xl: "xid_len xid = int (bq + gt + 6)" by (simp add: xid_len_def)
  then have "poke buf 0 m = Some b" using m assms(7,8) by (simp add: poke_def b_def ism_common_xidFieldLen_def XID_DATASIZE_def)
  then have from_xid: "ism_common_fromXid xid buf = Some (0, Some (VT_Xid b (of_nat (bq + gt + 6))), b)"
    using xl assms(7) by (simp add: ism_common_fromXid_def Let_def nat_add_distrib m_def)
  have parts: "take 4 b = be32 (xid_formatID xid)" "b ! 4 = ucast (xid_gtrid_length xid)" "b ! 5 = ucast (xid_bqual_length xid)"
    "take (bq + gt) (drop 6 b) = ?d" "bq + gt + 6 \<le> length b"
    using m assms by (simp_all add: b_def m_def be32_def nth_append XID_DATASIZE_def)
  have wl: "unat (of_nat (bq + gt + 6) :: u32) = bq + gt + 6"
    using assms by (simp only: unat_of_nat) (simp add: XID_DATASIZE_def)
  have pk: "poke (xid_data x0) 0 ?d = Some (?d @ drop (bq + gt) (xid_data x0))" using assms by (simp add: poke_def XID_DATASIZE_def)
  have "ism_common_toXid (VT_Xid b (of_nat (bq + gt + 6))) x0 = Some (0, x0\<lparr>xid_data := ?d @ drop (bq + gt) (xid_data x0),
      xid_formatID := xid_formatID xid, xid_gtrid_length := xid_gtrid_length xid, xid_bqual_length := xid_bqual_length xid\<rparr>)"
    unfolding ism_common_toXid_def Let_def ism_field_t.case wl
    using parts pk assms(3-6) by (simp add: be32_roundtrip scast_ucast_small)
  moreover have "\<dots> = Some (0, ?x)" by (cases xid, cases x0) simp
  ultimately show ?thesis using from_xid by metis
qed

theorem xid_field_witness:
  "\<exists>f buf' x. ism_common_fromXid \<lparr>xid_formatID = 5, xid_gtrid_length = 2, xid_bqual_length = 1, xid_data = replicate 128 7\<rparr> (replicate 20 0) = Some (0, Some f, buf') \<and>
    ism_common_toXid f \<lparr>xid_formatID = 0, xid_gtrid_length = 0, xid_bqual_length = 0, xid_data = replicate 128 7\<rparr> = Some (0, x) \<and> xid_formatID x = 5"
proof -
  define d where "d = replicate 128 (7 :: u8)"
  then have len: "length d = 128" by simp
  show ?thesis using xid_field_roundtrip [of "\<lparr>xid_formatID = 5, xid_gtrid_length = 2, xid_bqual_length = 1, xid_data = d\<rparr>"
      "\<lparr>xid_formatID = 0, xid_gtrid_length = 0, xid_bqual_length = 0, xid_data = d\<rparr>" 1 2 "replicate 20 0"] len
    unfolding d_def [symmetric] by (auto simp: XID_DATASIZE_def ism_common_xidFieldLen_def xid_len_def)
qed

lemma fwd_text_example:
  "ism_common_StringToXid (Some [102, 119, 100, 58, 65, 58, 66, 0]) \<lparr>xid_formatID = 0, xid_gtrid_length = 0, xid_bqual_length = 0, xid_data = [0, 0]\<rparr>
    = Some (ISMRC_InvalidParameter, \<lparr>xid_formatID = ISM_FWD_XID, xid_gtrid_length = 1, xid_bqual_length = 1, xid_data = [65, 66]\<rparr>)"
proof -
  let ?x = "\<lparr>xid_formatID = 0, xid_gtrid_length = 0, xid_bqual_length = 0, xid_data = [0, 0]\<rparr>"
  have "ism_common_StringToXid (Some ([102, 119, 100, 58] @ [65, 58, 66, 0])) ?x =
    Some (207, \<lparr>xid_formatID = ISM_FWD_XID, xid_gtrid_length = 1, xid_bqual_length = 1, xid_data = [65, 66]\<rparr>)" by code_simp
  then show ?thesis using fwd_text_rejected [of "[65, 58, 66, 0]" ?x] by (simp add: ISMRC_InvalidParameter_def)
qed

end
