(* ===== verification/Buffer.thy ===== *)
theory Buffer
  imports Xid
begin

text \<open>
  The expanding buffer that content is written to and read from: \<^verbatim>\<open>concat_alloc_t\<close> of
  \<^verbatim>\<open>src/server_utils/include/ismutil.h\<close> and its growth in \<^verbatim>\<open>src/server_utils/src/content.c\<close>.

  \<open>ca_buf\<close> is the allocated memory; an access outside it has no result. The allocator is a
  parameter: \<open>alloc n\<close> is the new block of \<open>n\<close> bytes with whatever it contains, or
  \<open>None\<close> for \<^verbatim>\<open>NULL\<close>, which the code does not check. The position is signed, since lengths read from the
  content can move it backwards.

  The lemmas describe each write as appending bytes to \<open>written\<close>, and each read as consuming
  bytes of \<open>view\<close>.
\<close>

type_synonym allocator = "nat \<Rightarrow> mem option"

record concat_alloc_t =
  ca_buf :: mem
  ca_len :: nat
  ca_used :: nat
  ca_pos :: int
  ca_inheap :: bool

definition INT_MAX :: int where "INT_MAX = 2 ^ 31 - 1"

section \<open>Growth\<close>

text \<open>The doubling of \<^verbatim>\<open>newsize\<close>, undefined when it leaves the range of \<^verbatim>\<open>int\<close>. It starts at 32768, never at 0.\<close>

function grow_size :: "nat \<Rightarrow> nat \<Rightarrow> nat option" where
  "grow_size newsize need =
     (if newsize < need \<and> 0 < newsize
      then if INT_MAX < int (newsize * 2) then None else grow_size (newsize * 2) need
      else Some newsize)"
  by pat_completeness auto

termination
  by (relation "measure (\<lambda>(newsize, need). need - newsize)") auto

declare grow_size.simps [simp del]

definition ensureBuffer :: "allocator \<Rightarrow> nat \<Rightarrow> concat_alloc_t \<Rightarrow> concat_alloc_t option" where
  "ensureBuffer alloc len buf =
     (if INT_MAX < int (ca_used buf + len + 7) then None
      else if ca_used buf + len + 7 > ca_len buf then do {
        newsize \<leftarrow> grow_size (32 * 1024) (ca_used buf + len + 7);
        block \<leftarrow> alloc newsize;
        let keep = (if ca_inheap buf then length (ca_buf buf)
                    else if ca_used buf > ca_len buf then ca_len buf else ca_used buf);
        if length (ca_buf buf) < keep \<or> length block < keep then None
        else Some (buf\<lparr>ca_buf := take keep (ca_buf buf) @ drop keep block, ca_inheap := True, ca_len := newsize\<rparr>) }
      else Some buf)"

definition ism_protocol_ensureBuffer :: "allocator \<Rightarrow> nat \<Rightarrow> concat_alloc_t \<Rightarrow> concat_alloc_t option" where
  "ism_protocol_ensureBuffer = ensureBuffer"

definition ism_protocol_reserveBuffer :: "allocator \<Rightarrow> nat \<Rightarrow> concat_alloc_t \<Rightarrow> (nat \<times> concat_alloc_t) option" where
  "ism_protocol_reserveBuffer alloc len buf = do {
     let pos = ca_used buf;
     buf \<leftarrow> ensureBuffer alloc len buf;
     Some (pos, buf\<lparr>ca_used := ca_used buf + len\<rparr>) }"

section \<open>Stores and loads\<close>

text \<open>\<^verbatim>\<open>map->buf[map->used++] = b\<close>, and \<^verbatim>\<open>memcpy\<close> to the used position with \<^verbatim>\<open>used += len\<close>.\<close>

definition put_byte :: "u8 \<Rightarrow> concat_alloc_t \<Rightarrow> concat_alloc_t option" where
  "put_byte b a = (if ca_used a < length (ca_buf a)
     then Some (a\<lparr>ca_buf := (ca_buf a)[ca_used a := b], ca_used := ca_used a + 1\<rparr>) else None)"

definition put_bytes :: "mem \<Rightarrow> concat_alloc_t \<Rightarrow> concat_alloc_t option" where
  "put_bytes bs a = map_option (\<lambda>buf. a\<lparr>ca_buf := buf, ca_used := ca_used a + length bs\<rparr>) (poke (ca_buf a) (ca_used a) bs)"

text \<open>A store at an index, and \<^verbatim>\<open>memcpy\<close> from a pointer that must have the bytes.\<close>

definition set_bytes :: "nat \<Rightarrow> mem \<Rightarrow> concat_alloc_t \<Rightarrow> concat_alloc_t option" where
  "set_bytes i bs a = map_option (\<lambda>buf. a\<lparr>ca_buf := buf\<rparr>) (poke (ca_buf a) i bs)"

definition read_mem :: "mem \<Rightarrow> nat \<Rightarrow> mem option" where
  "read_mem s n = (if n \<le> length s then Some (take n s) else None)"

definition get_byte :: "concat_alloc_t \<Rightarrow> int \<Rightarrow> u8 option" where
  "get_byte a i = (if 0 \<le> i \<and> i < int (length (ca_buf a)) then Some (ca_buf a ! nat i) else None)"

text \<open>The pointer \<^verbatim>\<open>buf + i\<close>; nothing can be read from one before the buffer.\<close>

definition buf_ptr :: "concat_alloc_t \<Rightarrow> int \<Rightarrow> mem" where
  "buf_ptr a i = (if 0 \<le> i then drop (nat i) (ca_buf a) else [])"

section \<open>Writing appends\<close>

definition buf_ok :: "concat_alloc_t \<Rightarrow> bool" where
  "buf_ok a \<longleftrightarrow> length (ca_buf a) = ca_len a \<and> ca_used a \<le> ca_len a"

definition written :: "concat_alloc_t \<Rightarrow> mem" where
  "written a = take (ca_used a) (ca_buf a)"

text \<open>\<open>a'\<close> is \<open>a\<close> with \<open>bs\<close> appended; \<open>room\<close> is the space left in the allocation.\<close>

definition appended :: "concat_alloc_t \<Rightarrow> mem \<Rightarrow> concat_alloc_t \<Rightarrow> bool" where
  "appended a bs a' \<longleftrightarrow> buf_ok a' \<and> written a' = written a @ bs \<and> ca_used a' = ca_used a + length bs \<and> ca_pos a' = ca_pos a"

definition room :: "concat_alloc_t \<Rightarrow> nat" where
  "room a = ca_len a - ca_used a"

definition allocator_ok :: "allocator \<Rightarrow> bool" where
  "allocator_ok alloc \<longleftrightarrow> (\<forall>n. \<exists>m. alloc n = Some m \<and> length m = n)"

lemma grow_size_ok:
  assumes "0 < newsize" and "newsize \<le> 2 ^ 30" and "need \<le> 2 ^ 30"
  shows "\<exists>n. grow_size newsize need = Some n \<and> need \<le> n \<and> newsize \<le> n"
  using assms
proof (induction newsize need rule: grow_size.induct)
  case (1 newsize need)
  show ?case
  proof (cases "newsize < need")
    case True
    then have "newsize * 2 \<le> 2 ^ 30 \<or> need \<le> newsize * 2 \<and> int (newsize * 2) \<le> INT_MAX"
      using 1(4) by (auto simp: INT_MAX_def)
    then show ?thesis
    proof
      assume le: "newsize * 2 \<le> 2 ^ 30"
      then have nm: "\<not> INT_MAX < int (newsize * 2)" by (simp add: INT_MAX_def)
      have "\<exists>n. grow_size (newsize * 2) need = Some n \<and> need \<le> n \<and> newsize * 2 \<le> n"
        using 1(1) [OF _ nm] True 1(2) le 1(4) by simp
      then show ?thesis using True 1(2) nm by (auto simp: grow_size.simps [of newsize])
    next
      assume "need \<le> newsize * 2 \<and> int (newsize * 2) \<le> INT_MAX"
      then show ?thesis using True 1(2)
        by (auto simp: grow_size.simps [of newsize] grow_size.simps [of "newsize * 2"])
    qed
  qed (simp add: grow_size.simps [of newsize])
qed

text \<open>After a request for \<open>len\<close> bytes there is room for seven more, and what was written is unchanged.\<close>

lemma ensureBuffer_ok:
  assumes ok: "buf_ok a" and al: "allocator_ok alloc" and size: "ca_used a + len + 7 \<le> 2 ^ 30"
  shows "\<exists>a'. ensureBuffer alloc len a = Some a' \<and> appended a [] a' \<and> len + 7 \<le> room a'"
proof (cases "ca_used a + len + 7 > ca_len a")
  case True
  have nm: "\<not> INT_MAX < int (ca_used a + len + 7)" using size by (simp add: INT_MAX_def)
  obtain n where n: "grow_size (32 * 1024) (ca_used a + len + 7) = Some n" "ca_used a + len + 7 \<le> n" "32 * 1024 \<le> n"
    using grow_size_ok [of "32 * 1024" "ca_used a + len + 7"] size by auto
  obtain m where m: "alloc n = Some m" "length m = n" using al by (auto simp: allocator_ok_def)
  define keep where "keep = (if ca_inheap a then length (ca_buf a) else if ca_used a > ca_len a then ca_len a else ca_used a)"
  have keep: "ca_used a \<le> keep" "keep \<le> length (ca_buf a)" "keep \<le> n"
    using ok True n by (auto simp: keep_def buf_ok_def)
  let ?a = "a\<lparr>ca_buf := take keep (ca_buf a) @ drop keep m, ca_inheap := True, ca_len := n\<rparr>"
  have "ensureBuffer alloc len a = Some ?a"
    unfolding ensureBuffer_def using True nm n(1) m keep by (simp add: keep_def [symmetric] Let_def)
  moreover have "appended a [] ?a" using keep m n ok by (simp add: appended_def buf_ok_def written_def)
  ultimately show ?thesis using n by (auto simp: room_def)
next
  case False
  then show ?thesis using ok size by (auto simp: ensureBuffer_def appended_def room_def INT_MAX_def)
qed

lemma appended_trans: "appended a xs b \<Longrightarrow> appended b ys c \<Longrightarrow> appended a (xs @ ys) c"
  by (simp add: appended_def)

lemma appended_ok: "appended a xs b \<Longrightarrow> buf_ok b"
  by (simp add: appended_def)

text \<open>The buffer after a write that fits the allocation.\<close>

definition app :: "mem \<Rightarrow> concat_alloc_t \<Rightarrow> concat_alloc_t" where
  "app bs a = a\<lparr>ca_buf := take (ca_used a) (ca_buf a) @ bs @ drop (ca_used a + length bs) (ca_buf a), ca_used := ca_used a + length bs\<rparr>"

lemma app_simps [simp]:
  "ca_len (app bs a) = ca_len a" "ca_used (app bs a) = ca_used a + length bs" "ca_pos (app bs a) = ca_pos a"
  "ca_inheap (app bs a) = ca_inheap a" "app [] a = a"
  by (simp_all add: app_def)

lemma app_ok:
  assumes "buf_ok a" and "length bs \<le> room a"
  shows "buf_ok (app bs a)" and "room (app bs a) = room a - length bs" and "appended a bs (app bs a)"
proof -
  show ok: "buf_ok (app bs a)" using assms by (auto simp: buf_ok_def app_def room_def)
  show "room (app bs a) = room a - length bs" using assms by (simp add: room_def)
  show "appended a bs (app bs a)" using ok assms by (simp add: appended_def written_def app_def buf_ok_def)
qed

lemma app_app:
  assumes "buf_ok a" and "length xs + length ys \<le> room a"
  shows "app ys (app xs a) = app (xs @ ys) a"
  using assms by (auto simp: app_def buf_ok_def room_def ac_simps)

lemma put_byte_app: "buf_ok a \<Longrightarrow> 1 \<le> room a \<Longrightarrow> put_byte b a = Some (app [b] a)"
  by (simp add: put_byte_def app_def buf_ok_def room_def upd_conv_take_nth_drop)

lemma put_bytes_app: "buf_ok a \<Longrightarrow> length bs \<le> room a \<Longrightarrow> put_bytes bs a = Some (app bs a)"
  by (auto simp: put_bytes_def poke_def app_def buf_ok_def room_def)

text \<open>A byte left out and stored after what follows it.\<close>

lemma set_bytes_app:
  assumes "buf_ok a" and "Suc (length bs) \<le> room a"
  shows "set_bytes (ca_used a) [c] (app bs (a\<lparr>ca_used := ca_used a + 1\<rparr>)) = Some (app (c # bs) a)"
  using assms by (simp add: set_bytes_def poke_def app_def buf_ok_def room_def take_Suc_conv_app_nth)

lemma buf_ok_skip: "buf_ok a \<Longrightarrow> 1 \<le> room a \<Longrightarrow> buf_ok (a\<lparr>ca_used := ca_used a + 1\<rparr>) \<and> room (a\<lparr>ca_used := ca_used a + 1\<rparr>) = room a - 1"
  by (auto simp: buf_ok_def room_def)

section \<open>Reading consumes\<close>

definition rd_ok :: "concat_alloc_t \<Rightarrow> bool" where
  "rd_ok a \<longleftrightarrow> buf_ok a \<and> 0 \<le> ca_pos a \<and> ca_pos a \<le> int (ca_used a)"

text \<open>What is left to read, and the memory after it.\<close>

definition view :: "concat_alloc_t \<Rightarrow> mem" where
  "view a = drop (nat (ca_pos a)) (written a)"

definition slack :: "concat_alloc_t \<Rightarrow> mem" where
  "slack a = drop (ca_used a) (ca_buf a)"

definition adv :: "nat \<Rightarrow> concat_alloc_t \<Rightarrow> concat_alloc_t" where
  "adv n a = a\<lparr>ca_pos := ca_pos a + int n\<rparr>"

lemma adv_simps [simp]:
  "ca_pos (adv n a) = ca_pos a + int n" "ca_used (adv n a) = ca_used a" "ca_buf (adv n a) = ca_buf a" "adv m (adv n a) = adv (n + m) a" "adv 0 a = a"
  "written (adv n a) = written a" "slack (adv n a) = slack a" "a\<lparr>ca_pos := ca_pos a + 1\<rparr> = adv 1 a" "buf_ok (adv n a) = buf_ok a"
  by (simp_all add: adv_def written_def slack_def buf_ok_def)

lemma length_view: "rd_ok a \<Longrightarrow> int (length (view a)) = int (ca_used a) - ca_pos a"
  by (auto simp: rd_ok_def view_def written_def buf_ok_def)

lemma view_adv: "rd_ok a \<Longrightarrow> view (adv n a) = drop n (view a)"
  by (simp add: view_def rd_ok_def nat_add_distrib add.commute)

lemma rd_ok_adv: "rd_ok a \<Longrightarrow> n \<le> length (view a) \<Longrightarrow> rd_ok (adv n a)"
  using length_view [of a] by (simp add: rd_ok_def)

lemma get_byte_view: "rd_ok a \<Longrightarrow> view a = b # bs \<Longrightarrow> get_byte a (ca_pos a) = Some b"
proof -
  assume a: "rd_ok a" "view a = b # bs"
  then have lt: "nat (ca_pos a) < ca_used a" using length_view [of a] by (auto simp: rd_ok_def)
  have "written a ! nat (ca_pos a) = b" using a(2) unfolding view_def by (metis nth_via_drop)
  then show ?thesis using a(1) lt by (auto simp: get_byte_def rd_ok_def buf_ok_def written_def)
qed

lemma buf_ptr_view: "rd_ok a \<Longrightarrow> buf_ptr a (ca_pos a) = view a @ slack a"
  by (auto simp: buf_ptr_def rd_ok_def view_def written_def slack_def buf_ok_def drop_take min_def)
    (metis append_take_drop_id drop_drop le_add_diff_inverse2 nat_int nat_mono)

lemma pos_less_iff: "rd_ok a \<Longrightarrow> ca_pos a < int (ca_used a) \<longleftrightarrow> view a \<noteq> []"
  using length_view [of a] by (cases "view a") auto

lemma pos_len_iff: "rd_ok a \<Longrightarrow> ca_pos a + int n > int (ca_used a) \<longleftrightarrow> n > length (view a)"
  using length_view [of a] by auto

end
