(* ===== verification/Content.thy ===== *)
theory Content
  imports Buffer
begin

text \<open>
  The concise encoding of typed values, \<^verbatim>\<open>src/server_utils/src/content.c\<close>: the tables of type bytes,
  the readers, the writers, the search in serialized properties, and the serialization of
  properties objects.

  A type byte is a natural number below 256; its bit masks are written with \<open>mod\<close>. An object
  can be an array of objects, so the reader of objects has fuel; searches through a buffer have
  fuel too, because a length in the content can move the position backwards. \<open>None\<close> stands for running out of
  fuel, for an access outside the buffer and for arithmetic outside the range of \<^verbatim>\<open>int\<close>.
\<close>

section \<open>Types\<close>

datatype S_Type =
    STYPE_Bad | STYPE_Null | STYPE_String | STYPE_StrLen | STYPE_Boolean | STYPE_Byte | STYPE_UByte | STYPE_Short | STYPE_UShort
  | STYPE_Char | STYPE_Int | STYPE_UInt | STYPE_Long | STYPE_ULong | STYPE_Float | STYPE_Double | STYPE_BArray | STYPE_Name
  | STYPE_NameLen | STYPE_ID | STYPE_Array | STYPE_Time | STYPE_User | STYPE_Map | STYPE_Xid

definition FieldTypes :: "S_Type list" where
  "FieldTypes = [
   STYPE_Bad, STYPE_Null, STYPE_Boolean, STYPE_Boolean, STYPE_Float, STYPE_Float, STYPE_Double, STYPE_Double,
   STYPE_Time, STYPE_Time, STYPE_Bad, STYPE_Bad, STYPE_Bad, STYPE_Bad, STYPE_Bad, STYPE_Bad,
   STYPE_Byte, STYPE_UByte, STYPE_Bad, STYPE_Bad, STYPE_ID, STYPE_ID, STYPE_ID, STYPE_ID,
   STYPE_Bad, STYPE_Bad, STYPE_Bad, STYPE_Bad, STYPE_Char, STYPE_Char, STYPE_Char, STYPE_Char,
   STYPE_Bad, STYPE_User, STYPE_User, STYPE_User, STYPE_User, STYPE_Bad, STYPE_Bad, STYPE_Bad,
   STYPE_StrLen, STYPE_StrLen, STYPE_StrLen, STYPE_StrLen, STYPE_StrLen, STYPE_Bad, STYPE_Bad, STYPE_Bad,
   STYPE_Byte, STYPE_Byte, STYPE_Byte, STYPE_Byte, STYPE_Byte, STYPE_Byte, STYPE_Byte, STYPE_Byte,
   STYPE_Byte, STYPE_Byte, STYPE_Byte, STYPE_Byte, STYPE_Byte, STYPE_Byte, STYPE_Byte, STYPE_Byte,
   STYPE_Byte, STYPE_Byte, STYPE_Byte, STYPE_Byte, STYPE_Byte, STYPE_Bad, STYPE_Bad, STYPE_Bad,
   STYPE_Map, STYPE_Map, STYPE_Map, STYPE_Map, STYPE_Map, STYPE_Bad, STYPE_Bad, STYPE_Bad,
   STYPE_Short, STYPE_Short, STYPE_Short, STYPE_Bad, STYPE_UShort, STYPE_UShort, STYPE_UShort, STYPE_Bad,
   STYPE_NameLen, STYPE_NameLen, STYPE_NameLen, STYPE_NameLen, STYPE_NameLen, STYPE_Bad, STYPE_Xid, STYPE_Bad,
   STYPE_Int, STYPE_Int, STYPE_Int, STYPE_Int, STYPE_Int, STYPE_Bad, STYPE_Bad, STYPE_Bad,
   STYPE_UInt, STYPE_UInt, STYPE_UInt, STYPE_UInt, STYPE_UInt, STYPE_Bad, STYPE_Bad, STYPE_Bad,
   STYPE_Long, STYPE_Long, STYPE_Long, STYPE_Long, STYPE_Long, STYPE_Long, STYPE_Long, STYPE_Long,
   STYPE_Long, STYPE_Bad, STYPE_Bad, STYPE_Bad, STYPE_Bad, STYPE_Bad, STYPE_Bad, STYPE_Bad,
   STYPE_ULong, STYPE_ULong, STYPE_ULong, STYPE_ULong, STYPE_ULong, STYPE_ULong, STYPE_ULong, STYPE_ULong,
   STYPE_ULong, STYPE_Bad, STYPE_Bad, STYPE_Bad, STYPE_Bad, STYPE_Bad, STYPE_Bad, STYPE_Bad,
   STYPE_BArray, STYPE_BArray, STYPE_BArray, STYPE_BArray, STYPE_BArray, STYPE_Bad, STYPE_Bad, STYPE_Bad,
   STYPE_Array, STYPE_Array, STYPE_Array, STYPE_Array, STYPE_Array, STYPE_Bad, STYPE_Bad, STYPE_Bad,
   STYPE_Name, STYPE_Name, STYPE_Name, STYPE_Name, STYPE_Name, STYPE_Name, STYPE_Name, STYPE_Name,
   STYPE_Name, STYPE_Name, STYPE_Name, STYPE_Name, STYPE_Name, STYPE_Name, STYPE_Name, STYPE_Name,
   STYPE_Name, STYPE_Name, STYPE_Name, STYPE_Name, STYPE_Name, STYPE_Name, STYPE_Name, STYPE_Name,
   STYPE_Name, STYPE_Name, STYPE_Name, STYPE_Name, STYPE_Name, STYPE_Name, STYPE_Name, STYPE_Bad,
   STYPE_String, STYPE_String, STYPE_String, STYPE_String, STYPE_String, STYPE_String, STYPE_String, STYPE_String,
   STYPE_String, STYPE_String, STYPE_String, STYPE_String, STYPE_String, STYPE_String, STYPE_String, STYPE_String,
   STYPE_String, STYPE_String, STYPE_String, STYPE_String, STYPE_String, STYPE_String, STYPE_String, STYPE_String,
   STYPE_String, STYPE_String, STYPE_String, STYPE_String, STYPE_String, STYPE_String, STYPE_String, STYPE_String,
   STYPE_String, STYPE_String, STYPE_String, STYPE_String, STYPE_String, STYPE_String, STYPE_String, STYPE_String,
   STYPE_String, STYPE_String, STYPE_String, STYPE_String, STYPE_String, STYPE_String, STYPE_String, STYPE_String,
   STYPE_String, STYPE_String, STYPE_String, STYPE_String, STYPE_String, STYPE_String, STYPE_String, STYPE_String,
   STYPE_String, STYPE_String, STYPE_String, STYPE_String, STYPE_String, STYPE_Bad, STYPE_Bad, STYPE_Bad]"

definition FieldLen :: "nat list" where
  "FieldLen = [
   0, 1, 1, 1, 1, 5, 1, 9, 1, 9, 0, 0, 0, 0, 0, 0,
   2, 2, 0, 0, 0, 2, 3, 3, 0, 0, 0, 0, 0, 0, 0, 0,
   0, 2, 3, 4, 5, 0, 0, 0, 1, 2, 3, 4, 5, 0, 0, 0,
   1, 1, 1, 1, 1, 1, 1, 1, 1, 1, 1, 1, 1, 1, 1, 1,
   1, 1, 1, 1, 1, 0, 0, 0, 1, 2, 3, 4, 5, 0, 0, 0,
   1, 2, 3, 0, 1, 2, 3, 0, 1, 2, 3, 4, 5, 0, 2, 0,
   1, 2, 3, 4, 5, 0, 0, 0, 0, 1, 2, 3, 4, 5, 0, 0,
   1, 2, 3, 4, 5, 6, 7, 8, 9, 0, 0, 0, 0, 0, 0, 0,
   1, 2, 3, 4, 5, 6, 7, 8, 9, 0, 0, 0, 0, 0, 0, 0,
   1, 2, 3, 4, 5, 0, 0, 0, 1, 2, 3, 4, 5, 0, 0, 0,
   1, 2, 3, 4, 5, 6, 7, 8, 9, 10, 11, 12, 13, 14, 15, 16,
   17, 18, 19, 20, 21, 22, 23, 24, 25, 26, 27, 28, 29, 30, 31, 0,
   1, 2, 3, 4, 5, 6, 7, 8, 9, 10, 11, 12, 13, 14, 15, 16,
   17, 18, 19, 20, 21, 22, 23, 24, 25, 26, 27, 28, 29, 30, 31, 32,
   33, 34, 35, 36, 37, 38, 39, 40, 41, 42, 43, 44, 45, 46, 47, 48,
   49, 50, 51, 52, 53, 54, 55, 56, 57, 58, 59, 60, 61, 0, 0, 0]"

definition field_type :: "nat \<Rightarrow> S_Type" where
  "field_type otype = FieldTypes ! otype"

definition field_len :: "nat \<Rightarrow> nat" where
  "field_len otype = FieldLen ! otype"

text \<open>The starter bytes of \<^verbatim>\<open>src/server_utils/include/imacontent.h\<close>.\<close>

definition S_NullString :: nat where "S_NullString = 0x01"
definition S_Boolean :: nat where "S_Boolean = 0x02"
definition S_Float :: nat where "S_Float = 0x04"
definition S_Double :: nat where "S_Double = 0x06"
definition S_ByteLen :: nat where "S_ByteLen = 0x10"
definition S_UByteLen :: nat where "S_UByteLen = 0x11"
definition S_ID :: nat where "S_ID = 0x14"
definition S_Char :: nat where "S_Char = 0x1C"
definition S_StrLen :: nat where "S_StrLen = 0x28"
definition S_Byte :: nat where "S_Byte = 0x30"
definition S_Map :: nat where "S_Map = 0x48"
definition S_Short :: nat where "S_Short = 0x50"
definition S_UShort :: nat where "S_UShort = 0x54"
definition S_NameLen :: nat where "S_NameLen = 0x58"
definition S_Xid :: nat where "S_Xid = 0x5E"
definition S_Int :: nat where "S_Int = 0x60"
definition S_UInt :: nat where "S_UInt = 0x68"
definition S_Long :: nat where "S_Long = 0x70"
definition S_ByteArray :: nat where "S_ByteArray = 0x90"
definition S_Name :: nat where "S_Name = 0xA0"
definition S_String :: nat where "S_String = 0xC0"

lemmas S_defs = S_NullString_def S_Boolean_def S_Float_def S_Double_def S_ByteLen_def S_UByteLen_def S_ID_def S_Char_def
  S_StrLen_def S_Byte_def S_Map_def S_Short_def S_UShort_def S_NameLen_def S_Xid_def S_Int_def S_UInt_def S_Long_def
  S_ByteArray_def S_Name_def S_String_def

definition S_NameMax :: nat where "S_NameMax = 30"

definition S_StringMax :: nat where "S_StringMax = 60"

definition S_ByteMax :: int where "S_ByteMax = 20"

section \<open>Reading\<close>

definition ism_protocol_getByteValue :: "nat \<Rightarrow> concat_alloc_t \<Rightarrow> (u32 \<times> concat_alloc_t) option" where
  "ism_protocol_getByteValue otype a =
     (if S_Byte \<le> otype then Some (of_nat (otype - S_Byte), a)
      else if ca_pos a \<ge> int (ca_used a) then Some (0, a\<lparr>ca_pos := int (ca_used a)\<rparr>)
      else do {
        b \<leftarrow> get_byte a (ca_pos a);
        Some (scast b, a\<lparr>ca_pos := ca_pos a + 1\<rparr>) })"

text \<open>\<^verbatim>\<open>while (len-- > 0) val = (val<<8) + (uint8_t)buf[pos++]\<close>, at the width of the result.\<close>

fun read_be :: "nat \<Rightarrow> 'a::len word \<Rightarrow> concat_alloc_t \<Rightarrow> ('a word \<times> concat_alloc_t) option" where
  "read_be 0 val a = Some (val, a)"
| "read_be (Suc len) val a = do {
     b \<leftarrow> get_byte a (ca_pos a);
     read_be len (push_bit 8 val + ucast b) (a\<lparr>ca_pos := ca_pos a + 1\<rparr>) }"

definition get_number :: "nat \<Rightarrow> concat_alloc_t \<Rightarrow> ('a::len word \<times> concat_alloc_t) option" where
  "get_number len a =
     (if ca_pos a + int len > int (ca_used a) then Some (0, a\<lparr>ca_pos := int (ca_used a)\<rparr>) else read_be len 0 a)"

definition ism_protocol_getShortValue :: "nat \<Rightarrow> concat_alloc_t \<Rightarrow> (u32 \<times> concat_alloc_t) option" where
  "ism_protocol_getShortValue otype a = get_number (otype mod 4) a"

definition ism_protocol_getIntValue :: "nat \<Rightarrow> concat_alloc_t \<Rightarrow> (u32 \<times> concat_alloc_t) option" where
  "ism_protocol_getIntValue otype a = get_number (otype mod 8) a"

definition ism_protocol_getLongValue :: "nat \<Rightarrow> concat_alloc_t \<Rightarrow> (u64 \<times> concat_alloc_t) option" where
  "ism_protocol_getLongValue otype a = get_number (otype mod 16) a"

definition ism_protocol_getInteger :: "nat \<Rightarrow> concat_alloc_t \<Rightarrow> (u32 \<times> concat_alloc_t) option" where
  "ism_protocol_getInteger otype a = (case field_type otype of
       STYPE_Boolean \<Rightarrow> Some (of_nat (otype mod 2), a)
     | STYPE_Byte \<Rightarrow> ism_protocol_getByteValue otype a
     | STYPE_UByte \<Rightarrow> map_option (\<lambda>(v, a). (v AND 0xFF, a)) (ism_protocol_getByteValue otype a)
     | STYPE_Short \<Rightarrow> ism_protocol_getShortValue otype a
     | STYPE_UShort \<Rightarrow> map_option (\<lambda>(v, a). (v AND 0xFFFF, a)) (ism_protocol_getShortValue otype a)
     | STYPE_Char \<Rightarrow> ism_protocol_getShortValue otype a
     | STYPE_UInt \<Rightarrow> ism_protocol_getIntValue otype a
     | STYPE_Int \<Rightarrow> ism_protocol_getIntValue otype a
     | _ \<Rightarrow> Some (- 1, a))"

definition ism_protocol_getFloatValue :: "nat \<Rightarrow> concat_alloc_t \<Rightarrow> (u32 \<times> concat_alloc_t) option" where
  "ism_protocol_getFloatValue otype a = (if otype mod 2 = 0 then Some (0, a) else ism_protocol_getIntValue 4 a)"

definition ism_protocol_getDoubleValue :: "nat \<Rightarrow> concat_alloc_t \<Rightarrow> (u64 \<times> concat_alloc_t) option" where
  "ism_protocol_getDoubleValue otype a = (if otype mod 2 = 0 then Some (0, a) else ism_protocol_getLongValue 8 a)"

text \<open>\<^verbatim>\<open>if (pos + len > used) pos = used\<close> and a failure, else the pointer to the data, past which the position is moved.\<close>

definition take_data :: "int \<Rightarrow> concat_alloc_t \<Rightarrow> (mem option \<times> concat_alloc_t) option" where
  "take_data len a =
     (if INT_MAX < ca_pos a + len then None
      else if ca_pos a + len > int (ca_used a) then Some (None, a\<lparr>ca_pos := int (ca_used a)\<rparr>)
      else Some (Some (buf_ptr a (ca_pos a)), a\<lparr>ca_pos := ca_pos a + len\<rparr>))"

definition ism_protocol_getStringValue :: "nat \<Rightarrow> concat_alloc_t \<Rightarrow> (mem option \<times> concat_alloc_t) option" where
  "ism_protocol_getStringValue otype a = (case field_type otype of
       STYPE_StrLen \<Rightarrow> do {
         (len, a) \<leftarrow> ism_protocol_getIntValue (otype - S_StrLen) a;
         take_data (sint len) a }
     | STYPE_String \<Rightarrow> take_data (int (otype mod 64)) a
     | _ \<Rightarrow> Some (None, a))"

definition ism_protocol_getByteArrayValue :: "nat \<Rightarrow> concat_alloc_t \<Rightarrow> (int \<times> ism_field_t \<times> concat_alloc_t) option" where
  "ism_protocol_getByteArrayValue otype a = (case field_type otype of
       STYPE_BArray \<Rightarrow> do {
         (len, a) \<leftarrow> ism_protocol_getIntValue (otype - S_ByteArray) a;
         (p, a) \<leftarrow> take_data (sint len) a;
         Some (case p of None \<Rightarrow> (2, VT_Null, a) | Some s \<Rightarrow> (0, VT_ByteArray s len, a)) }
     | STYPE_Null \<Rightarrow> Some (0, VT_Null, a)
     | _ \<Rightarrow> Some (1, VT_Null, a))"

text \<open>\<^verbatim>\<open>pos += len\<close> with no check against the end of the content.\<close>

definition skip_data :: "int \<Rightarrow> concat_alloc_t \<Rightarrow> concat_alloc_t option" where
  "skip_data len a = (if INT_MAX < ca_pos a + len then None else Some (a\<lparr>ca_pos := ca_pos a + len\<rparr>))"

definition ism_protocol_getUserValue :: "nat \<Rightarrow> concat_alloc_t \<Rightarrow> (int \<times> ism_field_t \<times> concat_alloc_t) option" where
  "ism_protocol_getUserValue otype a =
     (if field_type otype \<noteq> STYPE_User then Some (1, VT_Null, a)
      else do {
        (len, a) \<leftarrow> ism_protocol_getIntValue (otype mod 8) a;
        a' \<leftarrow> skip_data (sint len) a;
        Some (0, VT_ByteArray (buf_ptr a (ca_pos a + 1)) (len - 1), a') })"

definition ism_protocol_getMapValue :: "nat \<Rightarrow> concat_alloc_t \<Rightarrow> (int \<times> ism_field_t \<times> concat_alloc_t) option" where
  "ism_protocol_getMapValue otype a =
     (if field_type otype \<noteq> STYPE_Map then Some (1, VT_Null, a)
      else do {
        (len, a) \<leftarrow> ism_protocol_getIntValue (otype mod 8) a;
        a' \<leftarrow> skip_data (sint len) a;
        Some (0, VT_Map (buf_ptr a (ca_pos a)) len, a') })"

definition ism_protocol_getXidValue :: "concat_alloc_t \<Rightarrow> (int \<times> ism_field_t \<times> concat_alloc_t) option" where
  "ism_protocol_getXidValue a = do {
     b \<leftarrow> get_byte a (ca_pos a);
     let a = a\<lparr>ca_pos := ca_pos a + 1\<rparr>;
     a' \<leftarrow> skip_data (sint b) a;
     Some (0, VT_Xid (buf_ptr a (ca_pos a)) (scast b), a') }"

definition ism_protocol_getNameValue :: "nat \<Rightarrow> concat_alloc_t \<Rightarrow> (mem option \<times> concat_alloc_t) option" where
  "ism_protocol_getNameValue otype a = (case field_type otype of
       STYPE_NameLen \<Rightarrow> do {
         (len, a) \<leftarrow> ism_protocol_getIntValue (otype - S_StrLen) a;
         take_data (sint len) a }
     | STYPE_Name \<Rightarrow> take_data (int (otype mod 32)) a
     | _ \<Rightarrow> Some (None, a))"

text \<open>The loop that skips the elements of an array.\<close>

fun skip_objects :: "(concat_alloc_t \<Rightarrow> concat_alloc_t option) \<Rightarrow> nat \<Rightarrow> concat_alloc_t \<Rightarrow> concat_alloc_t option" where
  "skip_objects get 0 a = Some a"
| "skip_objects get (Suc n) a = do { a \<leftarrow> get a; skip_objects get n a }"

text \<open>A value by its type; \<open>skip\<close> reads one object and drops it. The first result is whether the type is known.\<close>

definition get_typed :: "(concat_alloc_t \<Rightarrow> concat_alloc_t option) \<Rightarrow> nat \<Rightarrow> concat_alloc_t \<Rightarrow> (bool \<times> ism_field_t \<times> concat_alloc_t) option" where
  "get_typed skip otype a = (case field_type otype of
       STYPE_Null \<Rightarrow> Some (True, VT_Null, a)
     | STYPE_Boolean \<Rightarrow> Some (True, VT_Boolean (of_nat (otype mod 2)), a)
     | STYPE_Byte \<Rightarrow> map_option (\<lambda>(v, a). (True, VT_Byte v, a)) (ism_protocol_getByteValue otype a)
     | STYPE_UByte \<Rightarrow> map_option (\<lambda>(v, a). (True, VT_UByte (v AND 0xFF), a)) (ism_protocol_getByteValue otype a)
     | STYPE_Short \<Rightarrow> map_option (\<lambda>(v, a). (True, VT_Short v, a)) (ism_protocol_getShortValue otype a)
     | STYPE_UShort \<Rightarrow> map_option (\<lambda>(v, a). (True, VT_UShort (v AND 0xFFFF), a)) (ism_protocol_getShortValue otype a)
     | STYPE_Char \<Rightarrow> map_option (\<lambda>(v, a). (True, VT_Char v, a)) (ism_protocol_getShortValue otype a)
     | STYPE_UInt \<Rightarrow> map_option (\<lambda>(v, a). (True, VT_UInt v, a)) (ism_protocol_getIntValue otype a)
     | STYPE_Int \<Rightarrow> map_option (\<lambda>(v, a). (True, VT_Integer v, a)) (ism_protocol_getIntValue otype a)
     | STYPE_Time \<Rightarrow> map_option (\<lambda>(v, a). (True, VT_ULong v, a)) (ism_protocol_getLongValue otype a)
     | STYPE_ULong \<Rightarrow> map_option (\<lambda>(v, a). (True, VT_ULong v, a)) (ism_protocol_getLongValue otype a)
     | STYPE_Long \<Rightarrow> map_option (\<lambda>(v, a). (True, VT_Long v, a)) (ism_protocol_getLongValue otype a)
     | STYPE_Float \<Rightarrow> map_option (\<lambda>(v, a). (True, VT_Float v, a)) (ism_protocol_getFloatValue otype a)
     | STYPE_Double \<Rightarrow> map_option (\<lambda>(v, a). (True, VT_Double v, a)) (ism_protocol_getDoubleValue otype a)
     | STYPE_StrLen \<Rightarrow> map_option (\<lambda>(s, a). (True, VT_String s, a)) (ism_protocol_getStringValue otype a)
     | STYPE_String \<Rightarrow> map_option (\<lambda>(s, a). (True, VT_String s, a)) (ism_protocol_getStringValue otype a)
     | STYPE_BArray \<Rightarrow> map_option (\<lambda>(rc, f, a). (True, f, a)) (ism_protocol_getByteArrayValue otype a)
     | STYPE_NameLen \<Rightarrow> map_option (\<lambda>(s, a). (True, VT_Name s, a)) (ism_protocol_getNameValue otype a)
     | STYPE_Name \<Rightarrow> map_option (\<lambda>(s, a). (True, VT_Name s, a)) (ism_protocol_getNameValue otype a)
     | STYPE_ID \<Rightarrow> map_option (\<lambda>(v, a). (True, VT_NameIndex v, a)) (ism_protocol_getShortValue otype a)
     | STYPE_User \<Rightarrow> map_option (\<lambda>(rc, f, a). (True, f, a)) (ism_protocol_getUserValue otype a)
     | STYPE_Map \<Rightarrow> map_option (\<lambda>(rc, f, a). (True, f, a)) (ism_protocol_getMapValue otype a)
     | STYPE_Xid \<Rightarrow> map_option (\<lambda>(rc, f, a). (True, f, a)) (ism_protocol_getXidValue a)
     | STYPE_Array \<Rightarrow> do {
         (alen, a) \<leftarrow> ism_protocol_getIntValue otype a;
         a \<leftarrow> skip_objects skip (nat (sint alen)) a;
         Some (True, VT_Null, a) }
     | STYPE_Bad \<Rightarrow> Some (False, VT_Null, a))"

fun ism_protocol_getObjectValue :: "nat \<Rightarrow> concat_alloc_t \<Rightarrow> (int \<times> ism_field_t \<times> concat_alloc_t) option" where
  "ism_protocol_getObjectValue 0 a = None"
| "ism_protocol_getObjectValue (Suc fuel) a =
     (if ca_pos a \<ge> int (ca_used a) then Some (- 1, VT_Null, a)
      else do {
        b \<leftarrow> get_byte a (ca_pos a);
        (known, f, a) \<leftarrow> get_typed (\<lambda>a. map_option (\<lambda>(rc, f, a). a) (ism_protocol_getObjectValue fuel a))
                             (unat b) (a\<lparr>ca_pos := ca_pos a + 1\<rparr>);
        Some (if \<not> known then - 2 else if ca_pos a < 0 then - 3 else 0, f, a) })"

section \<open>Searching serialized properties\<close>

text \<open>The types that both searches skip: those with data after a length, and all others by the table of lengths.\<close>

definition skip_value :: "nat \<Rightarrow> concat_alloc_t \<Rightarrow> concat_alloc_t option" where
  "skip_value otype a = (case field_type otype of
       STYPE_StrLen \<Rightarrow> map_option snd (ism_protocol_getStringValue otype a)
     | STYPE_BArray \<Rightarrow> map_option (\<lambda>(rc, f, a). a) (ism_protocol_getByteArrayValue otype a)
     | STYPE_Map \<Rightarrow> map_option (\<lambda>(rc, f, a). a) (ism_protocol_getMapValue otype a)
     | STYPE_Xid \<Rightarrow> map_option (\<lambda>(rc, f, a). a) (ism_protocol_getXidValue a)
     | STYPE_User \<Rightarrow> map_option (\<lambda>(rc, f, a). a) (ism_protocol_getUserValue otype a)
     | _ \<Rightarrow> Some (a\<lparr>ca_pos := ca_pos a + (int (field_len otype) - 1)\<rparr>))"

text \<open>The search for a name; comparing with a \<^verbatim>\<open>NULL\<close> name has no result.\<close>

fun find_name_loop :: "nat \<Rightarrow> mem \<Rightarrow> concat_alloc_t \<Rightarrow> (int \<times> ism_field_t) option" where
  "find_name_loop 0 name a = None"
| "find_name_loop (Suc fuel) name a =
     (if ca_pos a < int (ca_used a) then do {
        b \<leftarrow> get_byte a (ca_pos a);
        let a = a\<lparr>ca_pos := ca_pos a + 1\<rparr>;
        let otype = unat b;
        let xtype = field_type otype;
        if xtype = STYPE_Bad then Some (1, VT_Null)
        else if xtype = STYPE_Name \<or> xtype = STYPE_NameLen then do {
          (fname, a) \<leftarrow> ism_protocol_getNameValue otype a;
          fname \<leftarrow> fname;
          eq \<leftarrow> strcmp0 name fname;
          if eq then map_option (\<lambda>(rc, f, a). (0, f)) (ism_protocol_getObjectValue (Suc fuel) a)
          else find_name_loop fuel name a }
        else do {
          a \<leftarrow> skip_value otype a;
          find_name_loop fuel name a } }
      else Some (1, VT_Null))"

fun find_index_loop :: "nat \<Rightarrow> u32 \<Rightarrow> concat_alloc_t \<Rightarrow> (int \<times> ism_field_t) option" where
  "find_index_loop 0 index a = None"
| "find_index_loop (Suc fuel) index a =
     (if ca_pos a < int (ca_used a) then do {
        b \<leftarrow> get_byte a (ca_pos a);
        let a = a\<lparr>ca_pos := ca_pos a + 1\<rparr>;
        let otype = unat b;
        let xtype = field_type otype;
        if xtype = STYPE_Bad then Some (1, VT_Null)
        else if xtype = STYPE_ID then do {
          (findex, a) \<leftarrow> ism_protocol_getShortValue otype a;
          if findex = index then map_option (\<lambda>(rc, f, a). (0, f)) (ism_protocol_getObjectValue (Suc fuel) a)
          else find_index_loop fuel index a }
        else do {
          a \<leftarrow> skip_value otype a;
          find_index_loop fuel index a } }
      else Some (1, VT_Null))"

text \<open>
  A name argument is a string, or an index below 65536 passed as a pointer. The result has no field when
  there are no properties, as then the caller's field is not set.
\<close>

datatype name_arg = Name_Index u32 | Name_Str mem

definition ism_findPropertyNameIndex :: "nat \<Rightarrow> concat_alloc_t option \<Rightarrow> u32 \<Rightarrow> (int \<times> ism_field_t option) option" where
  "ism_findPropertyNameIndex fuel props index = (case props of None \<Rightarrow> Some (1, None)
     | Some a \<Rightarrow> map_option (\<lambda>(rc, f). (rc, Some f)) (find_index_loop fuel index (a\<lparr>ca_pos := 0\<rparr>)))"

definition ism_findPropertyName :: "nat \<Rightarrow> concat_alloc_t option \<Rightarrow> name_arg \<Rightarrow> (int \<times> ism_field_t option) option" where
  "ism_findPropertyName fuel props name = (case name of
       Name_Index index \<Rightarrow> ism_findPropertyNameIndex fuel props index
     | Name_Str name \<Rightarrow> (case props of None \<Rightarrow> Some (1, None)
         | Some a \<Rightarrow> map_option (\<lambda>(rc, f). (rc, Some f)) (find_name_loop fuel name (a\<lparr>ca_pos := 0\<rparr>))))"

section \<open>Writing\<close>

definition put_code :: "nat \<Rightarrow> concat_alloc_t \<Rightarrow> concat_alloc_t option" where
  "put_code otype a = put_byte (of_nat otype) a"

definition ism_protocol_putNullValue :: "concat_alloc_t \<Rightarrow> concat_alloc_t option" where
  "ism_protocol_putNullValue a = put_code S_NullString a"

definition ism_protocol_putBooleanValue :: "u32 \<Rightarrow> concat_alloc_t \<Rightarrow> concat_alloc_t option" where
  "ism_protocol_putBooleanValue val a = put_code (if val \<noteq> 0 then S_Boolean + 1 else S_Boolean) a"

definition ism_protocol_putByteValue :: "u32 \<Rightarrow> concat_alloc_t \<Rightarrow> concat_alloc_t option" where
  "ism_protocol_putByteValue val a =
     (if 0 \<le> sint val \<and> sint val \<le> S_ByteMax then put_code (S_Byte + unat val) a
      else do { a \<leftarrow> put_code S_ByteLen a; put_byte (ucast val) a })"

definition ism_protocol_putUByteValue :: "u32 \<Rightarrow> concat_alloc_t \<Rightarrow> concat_alloc_t option" where
  "ism_protocol_putUByteValue val a = do { a \<leftarrow> put_code S_UByteLen a; put_byte (ucast val) a }"

text \<open>
  The loop over the bytes of a number from the most significant one, which skips leading zero
  bytes. \<open>bval shift\<close> is \<^verbatim>\<open>(int)(val >> shift)\<close>, with the arithmetic shift of signed values.
\<close>

fun put_shifts :: "(nat \<Rightarrow> u32) \<Rightarrow> nat list \<Rightarrow> nat \<Rightarrow> concat_alloc_t \<Rightarrow> (nat \<times> concat_alloc_t) option" where
  "put_shifts bval [] count a = Some (count, a)"
| "put_shifts bval (shift # shifts) count a =
     (let count = if count = 0 \<and> bval shift \<noteq> 0 then shift div 8 + 1 else count in
      if count > 0 then do { a \<leftarrow> put_byte (ucast (bval shift)) a; put_shifts bval shifts count a }
      else put_shifts bval shifts count a)"

definition put_number :: "bool \<Rightarrow> (nat \<Rightarrow> u32) \<Rightarrow> nat list \<Rightarrow> nat \<Rightarrow> concat_alloc_t \<Rightarrow> concat_alloc_t option" where
  "put_number nonzero bval shifts otype a = do {
     let savepos = ca_used a;
     let a = a\<lparr>ca_used := ca_used a + 1\<rparr>;
     (count, a) \<leftarrow> (if nonzero then put_shifts bval shifts 0 a else Some (0, a));
     set_bytes savepos [of_nat (otype + count)] a }"

definition ism_protocol_putSmallValue :: "u32 \<Rightarrow> nat \<Rightarrow> concat_alloc_t \<Rightarrow> concat_alloc_t option" where
  "ism_protocol_putSmallValue val otype a = put_number (val \<noteq> 0) (\<lambda>shift. signed_drop_bit shift val) [24, 16, 8, 0] otype a"

definition ism_protocol_putShortValue :: "u32 \<Rightarrow> concat_alloc_t \<Rightarrow> concat_alloc_t option" where
  "ism_protocol_putShortValue val a = ism_protocol_putSmallValue (val AND 0xFFFF) S_Short a"

definition ism_protocol_putIntValue :: "u32 \<Rightarrow> concat_alloc_t \<Rightarrow> concat_alloc_t option" where
  "ism_protocol_putIntValue val a = put_number (val \<noteq> 0) (\<lambda>shift. signed_drop_bit shift val) [24, 16, 8, 0] S_Int a"

definition ism_protocol_putLongValue :: "u64 \<Rightarrow> concat_alloc_t \<Rightarrow> concat_alloc_t option" where
  "ism_protocol_putLongValue val a =
     put_number (val \<noteq> 0) (\<lambda>shift. ucast (signed_drop_bit shift val)) [56, 48, 40, 32, 24, 16, 8, 0] S_Long a"

text \<open>A floating point number is 0.0 if all its bits but the sign are 0.\<close>

definition ism_protocol_putFloatValue :: "u32 \<Rightarrow> concat_alloc_t \<Rightarrow> concat_alloc_t option" where
  "ism_protocol_putFloatValue val a = do {
     a \<leftarrow> put_code (if val AND 0x7FFFFFFF = 0 then S_Float else S_Float + 1) a;
     put_bytes [ucast (drop_bit 24 val), ucast (drop_bit 16 val), ucast (drop_bit 8 val), ucast val] a }"

definition ism_protocol_putDoubleValue :: "u64 \<Rightarrow> concat_alloc_t \<Rightarrow> concat_alloc_t option" where
  "ism_protocol_putDoubleValue val a = do {
     a \<leftarrow> put_code (if val AND 0x7FFFFFFFFFFFFFFF = 0 then S_Double else S_Double + 1) a;
     put_bytes [ucast (drop_bit 56 val), ucast (drop_bit 48 val), ucast (drop_bit 40 val), ucast (drop_bit 32 val),
       ucast (drop_bit 24 val), ucast (drop_bit 16 val), ucast (drop_bit 8 val), ucast val] a }"

definition ism_protocol_putStringValue :: "allocator \<Rightarrow> mem option \<Rightarrow> concat_alloc_t \<Rightarrow> concat_alloc_t option" where
  "ism_protocol_putStringValue alloc str a = (case str of None \<Rightarrow> ism_protocol_putNullValue a
     | Some str \<Rightarrow> do {
         n \<leftarrow> strlen str;
         let len = n + 1;
         a \<leftarrow> ensureBuffer alloc (len + 2) a;
         a \<leftarrow> (if len \<le> S_StringMax then put_code (S_String + len) a else ism_protocol_putSmallValue (of_nat len) S_StrLen a);
         bs \<leftarrow> read_mem str len;
         put_bytes bs a })"

definition ism_protocol_putStringLenValue :: "allocator \<Rightarrow> mem option \<Rightarrow> int \<Rightarrow> concat_alloc_t \<Rightarrow> concat_alloc_t option" where
  "ism_protocol_putStringLenValue alloc str len a = (case str of None \<Rightarrow> ism_protocol_putNullValue a
     | Some str \<Rightarrow>
         if len < 0 then ism_protocol_putNullValue a
         else do {
           let n = nat len;
           a \<leftarrow> ensureBuffer alloc (n + 1) a;
           a \<leftarrow> (if n < S_StringMax then put_code (S_String + n + 1) a else ism_protocol_putSmallValue (of_nat (n + 1)) S_StrLen a);
           bs \<leftarrow> read_mem str n;
           a \<leftarrow> put_bytes bs a;
           put_byte 0 a })"

definition ism_protocol_putNameValue :: "allocator \<Rightarrow> mem \<Rightarrow> concat_alloc_t \<Rightarrow> concat_alloc_t option" where
  "ism_protocol_putNameValue alloc str a = do {
     n \<leftarrow> strlen str;
     let len = n + 1;
     a \<leftarrow> ensureBuffer alloc (len + 3) a;
     a \<leftarrow> (if len \<le> S_NameMax then put_code (S_Name + len) a else ism_protocol_putSmallValue (of_nat len) S_NameLen a);
     bs \<leftarrow> read_mem str len;
     put_bytes bs a }"

definition ism_protocol_putNameLenValue :: "allocator \<Rightarrow> mem \<Rightarrow> nat \<Rightarrow> concat_alloc_t \<Rightarrow> concat_alloc_t option" where
  "ism_protocol_putNameLenValue alloc str len a = do {
     let flen = len + 1;
     a \<leftarrow> ensureBuffer alloc (len + 4) a;
     a \<leftarrow> (if flen \<le> S_NameMax then put_code (S_Name + flen) a else ism_protocol_putSmallValue (of_nat flen) S_NameLen a);
     bs \<leftarrow> read_mem str len;
     put_bytes (bs @ [0]) a }"

definition ism_protocol_putNameIndex :: "u32 \<Rightarrow> concat_alloc_t \<Rightarrow> concat_alloc_t option" where
  "ism_protocol_putNameIndex i a = do { a \<leftarrow> put_code (S_ID + 1) a; put_byte (ucast i) a }"

text \<open>Byte arrays and maps: a length, which the caller passes as \<^verbatim>\<open>int\<close>, and the data. A negative one cannot be copied.\<close>

definition put_block :: "allocator \<Rightarrow> nat \<Rightarrow> mem \<Rightarrow> u32 \<Rightarrow> concat_alloc_t \<Rightarrow> concat_alloc_t option" where
  "put_block alloc otype str len a =
     (if sint len < 0 then None
      else do {
        a \<leftarrow> ensureBuffer alloc (unat len) a;
        a \<leftarrow> ism_protocol_putSmallValue len otype a;
        bs \<leftarrow> read_mem str (unat len);
        put_bytes bs a })"

definition ism_protocol_putByteArrayValue :: "allocator \<Rightarrow> mem \<Rightarrow> u32 \<Rightarrow> concat_alloc_t \<Rightarrow> concat_alloc_t option" where
  "ism_protocol_putByteArrayValue alloc str len a = put_block alloc S_ByteArray str len a"

definition ism_protocol_putMapValue :: "allocator \<Rightarrow> mem \<Rightarrow> u32 \<Rightarrow> concat_alloc_t \<Rightarrow> concat_alloc_t option" where
  "ism_protocol_putMapValue alloc str len a = put_block alloc S_Map str len a"

definition ism_protocol_putXidValueF :: "allocator \<Rightarrow> mem \<Rightarrow> u32 \<Rightarrow> concat_alloc_t \<Rightarrow> concat_alloc_t option" where
  "ism_protocol_putXidValueF alloc str len a =
     (if sint len < 0 then None
      else do {
        a \<leftarrow> ensureBuffer alloc (unat len + 2) a;
        a \<leftarrow> put_code S_Xid a;
        a \<leftarrow> put_byte (ucast len) a;
        bs \<leftarrow> read_mem str (unat len);
        put_bytes bs a })"

definition ism_protocol_putXidValue :: "allocator \<Rightarrow> ism_xid_t \<Rightarrow> concat_alloc_t \<Rightarrow> concat_alloc_t option" where
  "ism_protocol_putXidValue alloc xid a =
     (if xid_len xid > 256 then ism_protocol_putNullValue a
      else if xid_len xid < 6 then None
      else do {
        let len = nat (xid_len xid);
        a \<leftarrow> ensureBuffer alloc (len + 2) a;
        a \<leftarrow> put_code S_Xid a;
        a \<leftarrow> put_byte (of_nat len) a;
        bs \<leftarrow> read_mem (xid_data xid) (len - 6);
        put_bytes (be32 (xid_formatID xid) @ [ucast (xid_gtrid_length xid), ucast (xid_bqual_length xid)] @ bs) a })"

definition ism_protocol_putObjectValue :: "allocator \<Rightarrow> ism_field_t \<Rightarrow> concat_alloc_t \<Rightarrow> concat_alloc_t option" where
  "ism_protocol_putObjectValue alloc var a = do {
     a \<leftarrow> ensureBuffer alloc 8 a;
     case var of
       VT_Null \<Rightarrow> ism_protocol_putNullValue a
     | VT_String s \<Rightarrow> ism_protocol_putStringValue alloc s a
     | VT_ByteArray s len \<Rightarrow> ism_protocol_putByteArrayValue alloc s len a
     | VT_Boolean i \<Rightarrow> ism_protocol_putBooleanValue i a
     | VT_Byte i \<Rightarrow> ism_protocol_putByteValue i a
     | VT_UByte i \<Rightarrow> ism_protocol_putUByteValue (i AND 0xFF) a
     | VT_Short i \<Rightarrow> ism_protocol_putShortValue i a
     | VT_UShort i \<Rightarrow> ism_protocol_putSmallValue (i AND 0xFFFF) S_UShort a
     | VT_Integer i \<Rightarrow> ism_protocol_putIntValue i a
     | VT_UInt i \<Rightarrow> ism_protocol_putSmallValue i S_UInt a
     | VT_Long l \<Rightarrow> ism_protocol_putLongValue l a
     | VT_ULong l \<Rightarrow> ism_protocol_putLongValue l a
     | VT_Float w \<Rightarrow> ism_protocol_putFloatValue w a
     | VT_Double w \<Rightarrow> ism_protocol_putDoubleValue w a
     | VT_Name s \<Rightarrow> (case s of None \<Rightarrow> None | Some s \<Rightarrow> ism_protocol_putNameValue alloc s a)
     | VT_NameIndex i \<Rightarrow> ism_protocol_putSmallValue (i AND 0xFFFF) S_ID a
     | VT_Char i \<Rightarrow> ism_protocol_putSmallValue (i AND 0x1FFFF) S_Char a
     | VT_Map s len \<Rightarrow> ism_protocol_putMapValue alloc s len a
     | VT_Xid s len \<Rightarrow> ism_protocol_putXidValueF alloc s len a
     | VT_Unset \<Rightarrow> Some a }"

definition ism_protocol_putPropertyValue :: "allocator \<Rightarrow> name_arg \<Rightarrow> ism_field_t \<Rightarrow> concat_alloc_t \<Rightarrow> concat_alloc_t option" where
  "ism_protocol_putPropertyValue alloc name var a = do {
     a \<leftarrow> (case name of
            Name_Index i \<Rightarrow> if i = 0 then Some a else ism_protocol_putNameIndex i a
          | Name_Str s \<Rightarrow> ism_protocol_putNameValue alloc s a);
     ism_protocol_putObjectValue alloc var a }"

section \<open>Serialization of properties objects\<close>

text \<open>The loop over the properties by index; each value is looked up by the name at the index.\<close>

function put_properties :: "allocator \<Rightarrow> ism_prop_t \<Rightarrow> nat \<Rightarrow> concat_alloc_t \<Rightarrow> concat_alloc_t option" where
  "put_properties alloc props i a = (case ism_common_getPropertyIndex props (int i) of
       (rc, Some name) \<Rightarrow> do {
         (rc, field) \<leftarrow> ism_common_getProperty (Some props) (Some name);
         a \<leftarrow> ism_protocol_putNameValue alloc name a;
         a \<leftarrow> ism_protocol_putObjectValue alloc field a;
         put_properties alloc props (i + 1) a }
     | (rc, None) \<Rightarrow> Some a)"
  by pat_completeness auto

termination
  by (relation "measure (\<lambda>(alloc, props, i, a). length (pr_props props) - i)")
    (auto simp: ism_common_getPropertyIndex_def split: if_splits)

declare put_properties.simps [simp del]

definition ism_protocol_serializeProperties :: "allocator \<Rightarrow> ism_prop_t \<Rightarrow> concat_alloc_t \<Rightarrow> (int \<times> concat_alloc_t) option" where
  "ism_protocol_serializeProperties alloc props mapbuf = map_option (Pair 0) (put_properties alloc props 0 mapbuf)"

definition ism_protocol_putMapProperties :: "allocator \<Rightarrow> ism_prop_t \<Rightarrow> concat_alloc_t \<Rightarrow> concat_alloc_t option" where
  "ism_protocol_putMapProperties alloc props a = do {
     let sizepos = ca_used a;
     a \<leftarrow> ism_protocol_ensureBuffer alloc 16 a;
     a \<leftarrow> set_bytes sizepos [of_nat (S_Map + 3)] a;
     a \<leftarrow> put_properties alloc props 0 (a\<lparr>ca_used := ca_used a + 4\<rparr>);
     let len = ca_used a - sizepos - 4;
     set_bytes (sizepos + 1) [of_nat (len div 65536), of_nat (len div 256 mod 256), of_nat (len mod 256)] a }"

definition ISMRC_PropertiesNotValid :: int where "ISMRC_PropertiesNotValid = 118"

fun get_properties :: "nat \<Rightarrow> (nat \<Rightarrow> bool) \<Rightarrow> concat_alloc_t \<Rightarrow> ism_prop_t \<Rightarrow> (concat_alloc_t \<times> ism_prop_t) option" where
  "get_properties 0 alloc mapbuf props = None"
| "get_properties (Suc fuel) alloc mapbuf props =
     (if ca_pos mapbuf < int (ca_used mapbuf) then do {
        (rc, obj, mapbuf) \<leftarrow> ism_protocol_getObjectValue (Suc fuel) mapbuf;
        case obj of
          VT_Name key \<Rightarrow>
            if rc = 0 then do {
              (rc, obj, mapbuf) \<leftarrow> ism_protocol_getObjectValue (Suc fuel) mapbuf;
              (rc, props) \<leftarrow> ism_common_setProperty alloc key (Some obj) props;
              get_properties fuel alloc mapbuf props }
            else get_properties fuel alloc mapbuf props
        | _ \<Rightarrow> get_properties fuel alloc mapbuf props }
      else Some (mapbuf, props))"

definition ism_protocol_deserializeProperties ::
    "nat \<Rightarrow> (nat \<Rightarrow> bool) \<Rightarrow> concat_alloc_t \<Rightarrow> ism_prop_t \<Rightarrow> (int \<times> concat_alloc_t \<times> ism_prop_t) option" where
  "ism_protocol_deserializeProperties fuel alloc mapbuf props = do {
     (mapbuf, props) \<leftarrow> get_properties fuel alloc mapbuf props;
     Some (if ca_pos mapbuf \<noteq> int (ca_used mapbuf) then ISMRC_PropertiesNotValid else 0, mapbuf, props) }"

end
