(* ===== verification/Encoding.thy ===== *)
theory Encoding
  imports Content
begin

text \<open>
  The wire format of \<^verbatim>\<open>src/server_utils/src/content.c\<close> and its round trip. \<open>enc f\<close> is the encoding of the value \<open>f\<close>,
  written down without a buffer; the writers of \<^verbatim>\<open>Content\<close> append it, and the reader of objects takes it
  apart again and gives \<open>wire\<close>, which is \<open>f\<close> up to the narrowing that the encoding makes.
\<close>

section \<open>Numbers without leading zero bytes\<close>

fun be :: "nat \<Rightarrow> mem" where
  "be n = (if n = 0 then [] else be (n div 256) @ [of_nat (n mod 256)])"

declare be.simps [simp del]

lemma be_0 [simp]: "be 0 = []"
  by (simp add: be.simps)

text \<open>The low \<open>k\<close> bytes of \<open>n\<close>, most significant first.\<close>

definition be_fixed :: "nat \<Rightarrow> nat \<Rightarrow> mem" where
  "be_fixed k n = map (\<lambda>i. of_nat (n div 256 ^ i mod 256)) (rev [0..<k])"

lemma length_be_fixed [simp]: "length (be_fixed k n) = k"
  by (simp add: be_fixed_def)

lemma be_fixed_Suc: "be_fixed (Suc k) n = of_nat (n div 256 ^ k mod 256) # be_fixed k n"
  by (simp add: be_fixed_def)

lemma be_fixed_Suc': "be_fixed (Suc k) n = be_fixed k (n div 256) @ [of_nat (n mod 256)]"
  by (induction k) (simp_all add: be_fixed_def div_mult2_eq)

lemma be_eq_fixed: "256 ^ k \<le> n \<Longrightarrow> n < 256 ^ Suc k \<Longrightarrow> be n = be_fixed (Suc k) n"
proof (induction k arbitrary: n)
  case 0
  then show ?case by (simp add: be.simps [of n] be_fixed_def)
next
  case (Suc k)
  have "256 ^ k \<le> n div 256" "n div 256 < 256 ^ Suc k" "n \<noteq> 0"
    using Suc.prems by (auto simp: less_eq_div_iff_mult_less_eq div_less_iff_less_mult mult.commute)
  then have "be n = be_fixed (Suc k) (n div 256) @ [of_nat (n mod 256)]" using Suc.IH by (simp add: be.simps [of n])
  then show ?case by (simp only: be_fixed_Suc' [of "Suc k" n])
qed

lemma length_be: "n < 256 ^ k \<Longrightarrow> length (be n) \<le> k"
proof (induction k arbitrary: n)
  case (Suc k)
  then have "n div 256 < 256 ^ k" by (simp add: div_less_iff_less_mult mult.commute)
  then show ?case using Suc.IH by (simp add: be.simps [of n])
qed simp

text \<open>What the loop of the readers computes.\<close>

definition of_be :: "'a::len word \<Rightarrow> mem \<Rightarrow> 'a word" where
  "of_be v bs = foldl (\<lambda>v b. push_bit 8 v + ucast b) v bs"

lemma of_be_simps [simp]: "of_be v [] = v" "of_be v (b # bs) = of_be (push_bit 8 v + ucast b) bs" "of_be v (xs @ ys) = of_be (of_be v xs) ys"
  by (simp_all add: of_be_def)

lemma ucast_of_nat_byte: "(ucast (of_nat (n mod 256) :: u8) :: 'a::len word) = of_nat (n mod 256)"
proof -
  have "unat (of_nat (n mod 256) :: u8) = n mod 256" by (simp add: unat_of_nat)
  then show ?thesis by (metis of_nat_unat)
qed

lemma of_be_be: "of_be 0 (be n) = (of_nat n :: 'a::len word)"
proof (induction n rule: be.induct)
  case (1 n)
  show ?case
  proof (cases "n = 0")
    case False
    then have "of_be 0 (be n) = push_bit 8 (of_nat (n div 256) :: 'a word) + ucast (of_nat (n mod 256) :: u8)"
      using 1 by (simp add: be.simps [of n])
    also have "\<dots> = of_nat (n div 256 * 256 + n mod 256)"
      by (simp only: of_nat_add of_nat_mult of_nat_numeral ucast_of_nat_byte push_bit_eq_mult) simp
    finally show ?thesis by (simp only: div_mult_mod_eq)
  qed simp
qed

lemma put_shifts_all:
  assumes "\<forall>i<k. ucast (bval (8 * i)) = (of_nat (n div 256 ^ i mod 256) :: u8)" and "buf_ok a" and "k \<le> room a" and "0 < c"
  shows "put_shifts bval (map ((*) 8) (rev [0..<k])) c a = Some (c, app (be_fixed k n) a)"
  using assms
proof (induction k arbitrary: a)
  case (Suc k)
  let ?b = "of_nat (n div 256 ^ k mod 256) :: u8"
  have "put_byte (ucast (bval (8 * k))) a = Some (app [?b] a)" using Suc.prems by (simp add: put_byte_app)
  moreover have "put_shifts bval (map ((*) 8) (rev [0..<k])) c (app [?b] a) = Some (c, app (be_fixed k n) (app [?b] a))"
    using Suc.prems app_ok [of a "[?b]"] by (intro Suc.IH) auto
  moreover have "app (be_fixed k n) (app [?b] a) = app (be_fixed (Suc k) n) a"
    using Suc.prems app_app [of a "[?b]" "be_fixed k n"] by (simp add: be_fixed_Suc)
  ultimately show ?case using Suc.prems(4) by simp
qed (simp add: be_fixed_def)

lemma put_shifts_be:
  assumes "\<forall>i<k. ucast (bval (8 * i)) = (of_nat (n div 256 ^ i mod 256) :: u8)" and "\<forall>i<k. n < 256 ^ Suc i \<longrightarrow> (bval (8 * i) \<noteq> 0 \<longleftrightarrow> 256 ^ i \<le> n)"
    and "n < 256 ^ k" and "buf_ok a" and "k \<le> room a"
  shows "put_shifts bval (map ((*) 8) (rev [0..<k])) 0 a = Some (length (be n), app (be n) a)"
  using assms
proof (induction k)
  case (Suc k)
  show ?case
  proof (cases "256 ^ k \<le> n")
    case True
    let ?b = "of_nat (n div 256 ^ k mod 256) :: u8"
    have be: "be n = ?b # be_fixed k n" using be_eq_fixed [OF True Suc.prems(3)] by (simp add: be_fixed_Suc)
    have "put_byte (ucast (bval (8 * k))) a = Some (app [?b] a)" using Suc.prems by (simp add: put_byte_app)
    moreover have "put_shifts bval (map ((*) 8) (rev [0..<k])) (Suc k) (app [?b] a) = Some (Suc k, app (be_fixed k n) (app [?b] a))"
      using Suc.prems app_ok [of a "[?b]"] by (intro put_shifts_all) auto
    moreover have "app (be_fixed k n) (app [?b] a) = app (be n) a"
      using Suc.prems app_app [of a "[?b]" "be_fixed k n"] by (simp add: be)
    moreover have "bval (8 * k) \<noteq> 0" using Suc.prems(2,3) True by blast
    ultimately show ?thesis using be by simp
  next
    case False
    then have "bval (8 * k) = 0" using Suc.prems(2,3) by blast
    then show ?thesis using Suc False by simp
  qed
qed simp

definition num_enc :: "nat \<Rightarrow> nat \<Rightarrow> mem" where
  "num_enc otype n = of_nat (otype + length (be n)) # be n"

lemma put_number_enc:
  assumes "\<forall>i<k. ucast (bval (8 * i)) = (of_nat (n div 256 ^ i mod 256) :: u8)" and "\<forall>i<k. n < 256 ^ Suc i \<longrightarrow> (bval (8 * i) \<noteq> 0 \<longleftrightarrow> 256 ^ i \<le> n)"
    and "n < 256 ^ k" and "buf_ok a" and "Suc k \<le> room a"
  shows "put_number (n \<noteq> 0) bval (map ((*) 8) (rev [0..<k])) otype a = Some (app (num_enc otype n) a)"
proof -
  let ?a = "a\<lparr>ca_used := ca_used a + 1\<rparr>"
  have skip: "buf_ok ?a" "room ?a = room a - 1" using buf_ok_skip [of a] assms by simp_all
  have "(if n \<noteq> 0 then put_shifts bval (map ((*) 8) (rev [0..<k])) 0 ?a else Some (0, ?a)) = Some (length (be n), app (be n) ?a)"
    using put_shifts_be [OF assms(1-3) skip(1)] skip assms(5) by (cases "n = 0") auto
  moreover have "set_bytes (ca_used a) [of_nat (otype + length (be n))] (app (be n) ?a) = Some (app (num_enc otype n) a)"
    unfolding num_enc_def using assms length_be [OF assms(3)] by (intro set_bytes_app) auto
  ultimately show ?thesis by (simp add: put_number_def Let_def split: if_splits)
qed

lemma drop_bit_byte: "(ucast (drop_bit (8 * i) v) :: u8) = of_nat (unat (v :: 'a::len word) div 256 ^ i mod 256)"
proof -
  have "(256 :: nat) ^ i = 2 ^ (8 * i)" by (simp add: power_mult)
  then have "unat (ucast (drop_bit (8 * i) v) :: u8) = unat v div 256 ^ i mod 256"
    by (simp add: unsigned_ucast_eq unat_drop_bit take_bit_eq_mod)
  then show ?thesis by (metis of_nat_unat ucast_id)
qed

lemma signed_drop_bit_byte: "8 * i + 8 \<le> LENGTH('a) \<Longrightarrow> (ucast (signed_drop_bit (8 * i) (v :: 'a::len word)) :: u8) = of_nat (unat v div 256 ^ i mod 256)"
  unfolding drop_bit_byte [symmetric] by (rule bit_word_eqI) (auto simp: bit_simps)

lemma signed_drop_bit_eq_0: "n < LENGTH('a) \<Longrightarrow> signed_drop_bit n (v :: 'a::len word) = 0 \<longleftrightarrow> unat v < 2 ^ n"
proof -
  assume n: "n < LENGTH('a)"
  have "signed_drop_bit n v = 0 \<longleftrightarrow> drop_bit n v = 0"
  proof
    assume z: "signed_drop_bit n v = 0"
    show "drop_bit n v = 0"
    proof (rule bit_word_eqI)
      fix m
      have "bit (signed_drop_bit n v) m \<longleftrightarrow> False" using z by simp
      then show "bit (drop_bit n v) m = bit 0 m" by (auto simp: bit_simps split: if_splits dest: bit_imp_le_length)
    qed
  next
    assume z: "drop_bit n v = 0"
    have hi: "\<not> bit v (n + m)" for m using z by (metis bit_drop_bit_eq bit_0_eq bot_apply comp_apply bot_bool_def)
    show "signed_drop_bit n v = 0"
    proof (rule bit_word_eqI)
      fix m
      show "bit (signed_drop_bit n v) m = bit 0 m"
        using hi [of m] hi [of "LENGTH('a) - 1 - n"] n by (auto simp: bit_simps)
    qed
  qed
  also have "\<dots> \<longleftrightarrow> unat v div 2 ^ n = 0" by (metis unat_drop_bit unat_eq_0)
  finally show ?thesis by (simp add: div_eq_0_iff)
qed

text \<open>Cut to 32 bits, the shifted value is still nonzero as long as it is a single byte.\<close>

lemma ucast_signed_drop_bit:
  assumes i: "i < 8" and lt: "unat (v :: u64) < 256 ^ Suc i"
  shows "(ucast (signed_drop_bit (8 * i) v) :: u32) \<noteq> 0 \<longleftrightarrow> 256 ^ i \<le> unat v"
proof -
  have pow: "(256 :: nat) ^ i = 2 ^ (8 * i)" by (simp add: power_mult)
  have byte: "unat (ucast (signed_drop_bit (8 * i) v) :: u8) = unat v div 256 ^ i"
  proof -
    have "unat v div 256 ^ i < 256" using lt by (simp add: div_less_iff_less_mult)
    then show ?thesis using i signed_drop_bit_byte [of i v] by (simp add: unat_of_nat)
  qed
  show ?thesis
  proof
    assume "(ucast (signed_drop_bit (8 * i) v) :: u32) \<noteq> 0"
    then have "signed_drop_bit (8 * i) v \<noteq> 0" by auto
    then show "256 ^ i \<le> unat v" using signed_drop_bit_eq_0 [of "8 * i" v] i pow by (simp add: not_less)
  next
    assume "256 ^ i \<le> unat v"
    then have "(ucast (signed_drop_bit (8 * i) v) :: u8) \<noteq> 0"
      using byte by (metis div_greater_zero_iff gr0I less_numeral_extra(3) unat_0 zero_less_numeral zero_less_power)
    moreover have "(ucast (signed_drop_bit (8 * i) v) :: u8) = ucast (ucast (signed_drop_bit (8 * i) v) :: u32)"
      by (rule bit_word_eqI) (auto simp: bit_simps)
    ultimately show "(ucast (signed_drop_bit (8 * i) v) :: u32) \<noteq> 0" by auto
  qed
qed

lemma putSmall_enc:
  assumes "buf_ok a" and "5 \<le> room a"
  shows "ism_protocol_putSmallValue v otype a = Some (app (num_enc otype (unat v)) a)"
proof -
  have sh: "[24, 16, 8, 0] = map ((*) 8) (rev [0..<4 :: nat])" by (simp add: upt_rec)
  have "\<forall>i<4. (ucast (signed_drop_bit (8 * i) v) :: u8) = of_nat (unat v div 256 ^ i mod 256)" by (auto intro!: signed_drop_bit_byte)
  moreover have "\<forall>i<4. unat v < 256 ^ Suc i \<longrightarrow> (signed_drop_bit (8 * i) v \<noteq> 0 \<longleftrightarrow> 256 ^ i \<le> unat v)"
    by (auto simp: signed_drop_bit_eq_0 power_mult not_less)
  moreover have "unat v < 256 ^ 4" using unsigned_less [of v, where ?'a = nat] by simp
  ultimately have "put_number (unat v \<noteq> 0) (\<lambda>shift. signed_drop_bit shift v) [24, 16, 8, 0] otype a = Some (app (num_enc otype (unat v)) a)"
    unfolding sh using assms by (intro put_number_enc) auto
  then show ?thesis by (simp add: ism_protocol_putSmallValue_def unat_eq_0)
qed

lemma putInt_enc: "buf_ok a \<Longrightarrow> 5 \<le> room a \<Longrightarrow> ism_protocol_putIntValue v a = Some (app (num_enc S_Int (unat v)) a)"
  using putSmall_enc [of a v S_Int] by (simp add: ism_protocol_putIntValue_def ism_protocol_putSmallValue_def)

lemma putLong_enc:
  assumes "buf_ok a" and "9 \<le> room a"
  shows "ism_protocol_putLongValue v a = Some (app (num_enc S_Long (unat v)) a)"
proof -
  have sh: "[56, 48, 40, 32, 24, 16, 8, 0] = map ((*) 8) (rev [0..<8 :: nat])" by (simp add: upt_rec)
  have "(ucast (ucast w :: u32) :: u8) = ucast w" for w :: u64 by (rule bit_word_eqI) (auto simp: bit_simps)
  then have "\<forall>i<8. (ucast (ucast (signed_drop_bit (8 * i) v) :: u32) :: u8) = of_nat (unat v div 256 ^ i mod 256)"
    using signed_drop_bit_byte [of _ v] by auto
  moreover have "(ucast (signed_drop_bit (8 * i) v) :: u32) \<noteq> 0 \<longleftrightarrow> 256 ^ i \<le> unat v" if i: "i < 8" and lt: "unat v < 256 ^ Suc i" for i
    using ucast_signed_drop_bit [OF i lt] .
  moreover have "unat v < 256 ^ 8" using unsigned_less [of v, where ?'a = nat] by simp
  ultimately have "put_number (unat v \<noteq> 0) (\<lambda>shift. ucast (signed_drop_bit shift v)) [56, 48, 40, 32, 24, 16, 8, 0] S_Long a = Some (app (num_enc S_Long (unat v)) a)"
    unfolding sh using assms by (intro put_number_enc) auto
  then show ?thesis by (simp add: ism_protocol_putLongValue_def unat_eq_0)
qed

section \<open>The encoding\<close>

text \<open>A string with its NUL: the length in the type byte if it is small, else as a number.\<close>

definition text_head :: "nat \<Rightarrow> nat \<Rightarrow> nat \<Rightarrow> nat \<Rightarrow> mem" where
  "text_head small limit base len = (if len \<le> limit then [of_nat (small + len)] else num_enc base len)"

definition text_enc :: "nat \<Rightarrow> nat \<Rightarrow> nat \<Rightarrow> mem \<Rightarrow> mem" where
  "text_enc small limit base s = text_head small limit base (length s + 1) @ s @ [0]"

definition enc :: "ism_field_t \<Rightarrow> mem" where
  "enc f = (case f of
       VT_Null \<Rightarrow> [1]
     | VT_String None \<Rightarrow> [1]
     | VT_String (Some s) \<Rightarrow> text_enc S_String S_StringMax S_StrLen (cstr s)
     | VT_ByteArray s len \<Rightarrow> num_enc S_ByteArray (unat len) @ take (unat len) s
     | VT_Boolean i \<Rightarrow> [if i \<noteq> 0 then 3 else 2]
     | VT_Byte i \<Rightarrow> if 0 \<le> sint i \<and> sint i \<le> S_ByteMax then [of_nat (S_Byte + unat i)] else [0x10, ucast i]
     | VT_UByte i \<Rightarrow> [0x11, ucast i]
     | VT_Short i \<Rightarrow> num_enc S_Short (unat (i AND 0xFFFF))
     | VT_UShort i \<Rightarrow> num_enc S_UShort (unat (i AND 0xFFFF))
     | VT_Integer i \<Rightarrow> num_enc S_Int (unat i)
     | VT_UInt i \<Rightarrow> num_enc S_UInt (unat i)
     | VT_Long l \<Rightarrow> num_enc S_Long (unat l)
     | VT_ULong l \<Rightarrow> num_enc S_Long (unat l)
     | VT_Float w \<Rightarrow> (if w AND 0x7FFFFFFF = 0 then 4 else 5) # be_fixed 4 (unat w)
     | VT_Double w \<Rightarrow> (if w AND 0x7FFFFFFFFFFFFFFF = 0 then 6 else 7) # be_fixed 8 (unat w)
     | VT_Name (Some s) \<Rightarrow> text_enc S_Name S_NameMax S_NameLen (cstr s)
     | VT_Name None \<Rightarrow> []
     | VT_NameIndex i \<Rightarrow> num_enc S_ID (unat (i AND 0xFFFF))
     | VT_Char i \<Rightarrow> num_enc S_Char (unat (i AND 0x1FFFF))
     | VT_Map s len \<Rightarrow> num_enc S_Map (unat len) @ take (unat len) s
     | VT_Xid s len \<Rightarrow> 0x5E # ucast len # take (unat len) s
     | VT_Unset \<Rightarrow> [])"

text \<open>The values that can be written: strings are terminated, names are there, data has its length.\<close>

definition enc_ok :: "ism_field_t \<Rightarrow> bool" where
  "enc_ok f \<longleftrightarrow> (case f of VT_String (Some s) \<Rightarrow> 0 \<in> set s | VT_Name (Some s) \<Rightarrow> 0 \<in> set s | VT_Name None \<Rightarrow> False
     | VT_ByteArray s len \<Rightarrow> bytes_ok s len | VT_Map s len \<Rightarrow> bytes_ok s len | VT_Xid s len \<Rightarrow> bytes_ok s len | _ \<Rightarrow> True)"

lemma length_num_enc32: "length (num_enc otype (unat (v :: u32))) \<le> 5"
  using length_be [of "unat v" 4] unsigned_less [of v, where ?'a = nat] by (simp add: num_enc_def)

lemma length_num_enc64: "length (num_enc otype (unat (v :: u64))) \<le> 9"
  using length_be [of "unat v" 8] unsigned_less [of v, where ?'a = nat] by (simp add: num_enc_def)

lemma length_text_head: "len < 2 ^ 32 \<Longrightarrow> length (text_head small limit base len) \<le> 5"
  using length_be [of len 4] by (simp add: text_head_def num_enc_def)

lemma put_code_app: "buf_ok a \<Longrightarrow> 1 \<le> room a \<Longrightarrow> put_code c a = Some (app [of_nat c] a)"
  by (simp add: put_code_def put_byte_app)

lemma put_two_app: "buf_ok a \<Longrightarrow> 2 \<le> room a \<Longrightarrow> (put_code c a \<bind> put_byte b) = Some (app [of_nat c, b] a)"
  using app_ok [of a "[of_nat c]"] app_app [of a "[of_nat c]" "[b]"] by (simp add: put_code_app put_byte_app)

lemma put_head_app:
  assumes "buf_ok a" and "5 \<le> room a" and "len < 2 ^ 32"
  shows "(if len \<le> limit then put_code (small + len) a else ism_protocol_putSmallValue (of_nat len) base a) = Some (app (text_head small limit base len) a)"
  using assms by (simp add: text_head_def put_code_app putSmall_enc unat_of_nat)

text \<open>A head followed by data.\<close>

lemma put_then_bytes:
  assumes "put a = Some (app pre a)" and "buf_ok a" and "length pre + length bs \<le> room a"
  shows "(put a \<bind> put_bytes bs) = Some (app (pre @ bs) a)"
  using assms app_ok [of a pre] app_app [of a pre bs] by (simp add: put_bytes_app)

lemma read_cstr: "0 \<in> set s \<Longrightarrow> read_mem s (Suc (length (cstr s))) = Some (cstr s @ [0])"
  using length_cstr [of s] by (simp add: read_mem_def take_cstr)

lemma put_text:
  assumes ok: "buf_ok a" "allocator_ok alloc" and s: "0 \<in> set s" and extra: "2 \<le> extra" "extra \<le> 10" and size: "ca_used a + length (cstr s) + 20 \<le> 2 ^ 30"
  shows "\<exists>a'. (do { n \<leftarrow> strlen s; let len = n + 1; a \<leftarrow> ensureBuffer alloc (len + extra) a;
      a \<leftarrow> (if len \<le> limit then put_code (small + len) a else ism_protocol_putSmallValue (of_nat len) base a);
      bs \<leftarrow> read_mem s len; put_bytes bs a }) = Some a' \<and> appended a (text_enc small limit base (cstr s)) a'"
proof -
  let ?len = "Suc (length (cstr s))"
  obtain a1 where a1: "ensureBuffer alloc (?len + extra) a = Some a1" "appended a [] a1" "?len + extra + 7 \<le> room a1"
    using ensureBuffer_ok [OF ok, of "?len + extra"] size extra by auto
  have ok1: "buf_ok a1" using a1(2) by (rule appended_ok)
  have hd: "length (text_head small limit base ?len) \<le> 5" using size by (intro length_text_head) simp
  have "(if ?len \<le> limit then put_code (small + ?len) a1 else ism_protocol_putSmallValue (of_nat ?len) base a1) = Some (app (text_head small limit base ?len) a1)"
    using a1(3) size by (intro put_head_app ok1) auto
  moreover have "put_bytes (cstr s @ [0]) (app (text_head small limit base ?len) a1) = Some (app (text_enc small limit base (cstr s)) a1)"
    using app_ok [OF ok1, of "text_head small limit base ?len"] app_app [OF ok1, of "text_head small limit base ?len" "cstr s @ [0]"] a1(3) hd extra
    by (simp add: put_bytes_app text_enc_def)
  moreover have "appended a (text_enc small limit base (cstr s)) (app (text_enc small limit base (cstr s)) a1)"
    using appended_trans [OF a1(2) app_ok(3) [OF ok1]] a1(3) hd by (simp add: text_enc_def)
  ultimately show ?thesis using a1(1) s by (auto simp: strlen_cstr read_cstr)
qed

lemma be_fixed_4: "be_fixed 4 (unat w) = [ucast (drop_bit 24 w), ucast (drop_bit 16 w), ucast (drop_bit 8 w), ucast (w :: u32)]"
  using drop_bit_byte [of 3 w] drop_bit_byte [of 2 w] drop_bit_byte [of 1 w] drop_bit_byte [of 0 w]
  by (simp add: be_fixed_def upt_rec)

lemma be_fixed_8:
  "be_fixed 8 (unat w) = [ucast (drop_bit 56 w), ucast (drop_bit 48 w), ucast (drop_bit 40 w), ucast (drop_bit 32 w),
     ucast (drop_bit 24 w), ucast (drop_bit 16 w), ucast (drop_bit 8 w), ucast (w :: u64)]"
  using drop_bit_byte [of 7 w] drop_bit_byte [of 6 w] drop_bit_byte [of 5 w] drop_bit_byte [of 4 w]
    drop_bit_byte [of 3 w] drop_bit_byte [of 2 w] drop_bit_byte [of 1 w] drop_bit_byte [of 0 w]
  by (simp add: be_fixed_def upt_rec)

lemma put_float:
  assumes "buf_ok a" and "9 \<le> room a"
  shows "ism_protocol_putFloatValue w a = Some (app ((if w AND 0x7FFFFFFF = 0 then 4 else 5) # be_fixed 4 (unat w)) a)"
    and "ism_protocol_putDoubleValue v a = Some (app ((if v AND 0x7FFFFFFFFFFFFFFF = 0 then 6 else 7) # be_fixed 8 (unat v)) a)"
proof -
  have "(put_code c a \<bind> put_bytes bs) = Some (app (of_nat c # bs) a)" if "length bs \<le> 8" for c bs
    using put_then_bytes [of "put_code c" a "[of_nat c]" bs] put_code_app [of a c] that assms by simp
  then show "ism_protocol_putFloatValue w a = Some (app ((if w AND 0x7FFFFFFF = 0 then 4 else 5) # be_fixed 4 (unat w)) a)"
    and "ism_protocol_putDoubleValue v a = Some (app ((if v AND 0x7FFFFFFFFFFFFFFF = 0 then 6 else 7) # be_fixed 8 (unat v)) a)"
    by (simp_all add: ism_protocol_putFloatValue_def ism_protocol_putDoubleValue_def be_fixed_4 be_fixed_8 S_defs)
qed

lemma sint_ge_0: "unat (len :: u32) < 2 ^ 31 \<Longrightarrow> sint len = int (unat len)"
  by (rule sint_small) simp

lemma put_block_enc:
  assumes ok: "buf_ok a" "allocator_ok alloc" and s: "bytes_ok s len" and size: "ca_used a + unat len + 20 \<le> 2 ^ 30"
  shows "\<exists>a'. put_block alloc otype s len a = Some a' \<and> appended a (num_enc otype (unat len) @ take (unat len) s) a'"
proof -
  obtain a1 where a1: "ensureBuffer alloc (unat len) a = Some a1" "appended a [] a1" "unat len + 7 \<le> room a1"
    using ensureBuffer_ok [OF ok, of "unat len"] size by auto
  have ok1: "buf_ok a1" using a1(2) by (rule appended_ok)
  let ?bs = "num_enc otype (unat len) @ take (unat len) s"
  have hd: "length (num_enc otype (unat len)) \<le> 5" by (rule length_num_enc32)
  have "(ism_protocol_putSmallValue len otype a1 \<bind> put_bytes (take (unat len) s)) = Some (app ?bs a1)"
    using a1(3) hd putSmall_enc [OF ok1] by (intro put_then_bytes ok1) auto
  moreover have "appended a ?bs (app ?bs a1)"
    using appended_trans [OF a1(2) app_ok(3) [OF ok1]] a1(3) hd by simp
  ultimately show ?thesis using a1(1) s by (auto simp: put_block_def bytes_ok_def read_mem_def sint_ge_0)
qed

lemma put_xid_enc:
  assumes ok: "buf_ok a" "allocator_ok alloc" and s: "bytes_ok s len" and size: "ca_used a + unat len + 20 \<le> 2 ^ 30"
  shows "\<exists>a'. ism_protocol_putXidValueF alloc s len a = Some a' \<and> appended a (0x5E # ucast len # take (unat len) s) a'"
proof -
  obtain a1 where a1: "ensureBuffer alloc (unat len + 2) a = Some a1" "appended a [] a1" "unat len + 9 \<le> room a1"
    using ensureBuffer_ok [OF ok, of "unat len + 2"] size by auto
  have ok1: "buf_ok a1" using a1(2) by (rule appended_ok)
  let ?bs = "[0x5E, ucast len] @ take (unat len) s"
  have "((put_code S_Xid a1 \<bind> put_byte (ucast len)) \<bind> put_bytes (take (unat len) s)) = Some (app ?bs a1)"
    using a1(3) put_two_app [OF ok1] by (intro put_then_bytes ok1) (auto simp: S_defs)
  moreover have "appended a ?bs (app ?bs a1)"
    using appended_trans [OF a1(2) app_ok(3) [OF ok1]] a1(3) by simp
  ultimately show ?thesis using a1(1) s by (auto simp: ism_protocol_putXidValueF_def bytes_ok_def read_mem_def sint_ge_0)
qed

text \<open>Every value is written as its encoding, behind what is in the buffer.\<close>

definition put_direct :: "ism_field_t \<Rightarrow> bool" where
  "put_direct f \<longleftrightarrow> (case f of VT_String (Some s) \<Rightarrow> False | VT_Name s \<Rightarrow> False | VT_ByteArray s len \<Rightarrow> False | VT_Map s len \<Rightarrow> False
     | VT_Xid s len \<Rightarrow> False | _ \<Rightarrow> True)"

lemma length_enc_direct: "put_direct f \<Longrightarrow> length (enc f) \<le> 9"
  using length_num_enc32 length_num_enc64
  by (auto simp: put_direct_def enc_def intro: order_trans [OF length_num_enc32] split: ism_field_t.splits option.splits)

lemma app_Nil: "buf_ok a \<Longrightarrow> app [] a = a"
  by (simp add: app_def written_def)

lemma putByte_enc:
  assumes "buf_ok a" and "2 \<le> room a"
  shows "ism_protocol_putByteValue i a = Some (app (enc (VT_Byte i)) a)"
    and "ism_protocol_putUByteValue (i AND 0xFF) a = Some (app (enc (VT_UByte i)) a)"
proof -
  have m: "(0xFF :: u32) = mask 8" by (simp add: mask_eq_exp_minus_1)
  have "(ucast (i AND 0xFF) :: u8) = ucast i" unfolding m by (rule bit_word_eqI) (auto simp: bit_simps)
  then show "ism_protocol_putByteValue i a = Some (app (enc (VT_Byte i)) a)" and "ism_protocol_putUByteValue (i AND 0xFF) a = Some (app (enc (VT_UByte i)) a)"
    using assms put_two_app [of a S_ByteLen "ucast i"] put_two_app [of a S_UByteLen "ucast i"]
    by (auto simp: ism_protocol_putByteValue_def ism_protocol_putUByteValue_def enc_def put_code_app S_defs)
qed

lemma put_direct_enc:
  assumes "buf_ok a" and "15 \<le> room a" and "put_direct f" and "ensureBuffer alloc 8 b = Some a"
  shows "ism_protocol_putObjectValue alloc f b = Some (app (enc f) a)"
  using assms putByte_enc [of a] put_float [of a]
  by (cases f) (auto simp: ism_protocol_putObjectValue_def put_direct_def enc_def ism_protocol_putNullValue_def ism_protocol_putStringValue_def
    ism_protocol_putBooleanValue_def ism_protocol_putShortValue_def
    put_code_app putSmall_enc putInt_enc putLong_enc app_Nil S_Boolean_def S_NullString_def split: option.splits)

lemma put_object_enc:
  assumes ok: "buf_ok a" "allocator_ok alloc" and f: "enc_ok f" and size: "ca_used a + length (enc f) + 40 \<le> 2 ^ 30"
  shows "\<exists>a'. ism_protocol_putObjectValue alloc f a = Some a' \<and> appended a (enc f) a'"
proof -
  obtain a1 where a1: "ensureBuffer alloc 8 a = Some a1" "appended a [] a1" "15 \<le> room a1"
    using ensureBuffer_ok [OF ok, of 8] size by auto
  have ok1: "buf_ok a1" and used: "ca_used a1 = ca_used a" using a1(2) by (auto simp: appended_def)
  have tr: "appended a1 (enc f) a' \<Longrightarrow> appended a (enc f) a'" for a' using appended_trans [OF a1(2)] by fastforce
  show ?thesis
  proof (cases "put_direct f")
    case True
    then show ?thesis using put_direct_enc [OF ok1 a1(3) True a1(1)] tr app_ok(3) [OF ok1, of "enc f"] length_enc_direct [OF True] a1(3) by simp
  next
    case False
    have "\<exists>a'. ism_protocol_putObjectValue alloc f a = Some a' \<and> appended a1 (enc f) a'"
      using False f size used
        put_text [OF ok1 ok(2), of _ 2 S_StringMax S_String S_StrLen] put_text [OF ok1 ok(2), of _ 3 S_NameMax S_Name S_NameLen]
        put_block_enc [OF ok1 ok(2), of _ _ S_ByteArray] put_block_enc [OF ok1 ok(2), of _ _ S_Map] put_xid_enc [OF ok1 ok(2)]
      by (cases f) (auto simp: put_direct_def enc_ok_def enc_def text_enc_def a1(1) ism_protocol_putObjectValue_def ism_protocol_putStringValue_def
        ism_protocol_putNameValue_def ism_protocol_putByteArrayValue_def ism_protocol_putMapValue_def bytes_ok_def split: option.splits)
    then show ?thesis using tr by blast
  qed
qed

section \<open>Reading what was written\<close>

lemma read_be_view:
  "rd_ok a \<Longrightarrow> view a = bs @ r \<Longrightarrow> read_be (length bs) v a = Some (of_be v bs, adv (length bs) a)"
proof (induction bs arbitrary: v a)
  case (Cons b bs)
  have "get_byte a (ca_pos a) = Some b" using Cons.prems by (intro get_byte_view) auto
  moreover have "rd_ok (adv 1 a)" "view (adv 1 a) = bs @ r" using Cons.prems rd_ok_adv [of a 1] by (simp_all add: view_adv)
  ultimately show ?case using Cons.IH by simp
qed simp

lemma get_number_view:
  assumes "rd_ok a" and "view a = bs @ r"
  shows "get_number (length bs) a = Some (of_be 0 bs, adv (length bs) a)"
  using assms read_be_view [OF assms] pos_len_iff [OF assms(1), of "length bs"] by (simp add: get_number_def)

lemma get_number_be:
  assumes "rd_ok a" and "view a = be n @ r" and "k = length (be n)"
  shows "get_number k a = Some (of_nat n, adv (length (be n)) a)"
  using get_number_view [OF assms(1,2)] by (simp add: assms(3) of_be_be)

lemma be_fixed_eq_be: "n < 256 ^ k \<Longrightarrow> of_be 0 (be_fixed k n) = (of_nat n :: 'a::len word)"
proof (induction k arbitrary: n)
  case 0
  then show ?case by (simp add: be_fixed_def)
next
  case (Suc k)
  then have "n div 256 < 256 ^ k" by (simp add: div_less_iff_less_mult mult.commute)
  then have "of_be 0 (be_fixed (Suc k) n) = push_bit 8 (of_nat (n div 256) :: 'a word) + ucast (of_nat (n mod 256) :: u8)"
    using Suc.IH by (simp add: be_fixed_Suc')
  also have "\<dots> = of_nat (n div 256) * 256 + of_nat (n mod 256)" by (simp only: ucast_of_nat_byte) (simp add: push_bit_eq_mult)
  also have "\<dots> = of_nat (n div 256 * 256 + n mod 256)" by (simp only: of_nat_add of_nat_mult of_nat_numeral)
  finally show ?case by simp
qed

lemma take_data_view:
  assumes "rd_ok a" and "view a = s @ r" and "int (ca_used a) \<le> INT_MAX" and "len = int (length s)"
  shows "take_data len a = Some (Some (s @ r @ slack a), adv (length s) a)"
  using assms buf_ptr_view [OF assms(1)] pos_len_iff [OF assms(1), of "length s"] length_view [OF assms(1)]
  by (auto simp: take_data_def adv_def)

lemma skip_data_view:
  assumes "rd_ok a" and "view a = s @ r" and "int (ca_used a) \<le> INT_MAX" and "len = int (length s)"
  shows "skip_data len a = Some (adv (length s) a)"
  using assms length_view [OF assms(1)] by (auto simp: skip_data_def adv_def)

text \<open>The type bytes with a count: their type in the table and what the readers make of the count.\<close>

lemma type_counts:
  "k \<le> 4 \<Longrightarrow> field_type (S_Int + k) = STYPE_Int \<and> (S_Int + k) mod 8 = k \<and> field_type (S_UInt + k) = STYPE_UInt \<and> (S_UInt + k) mod 8 = k \<and>
    field_type (S_StrLen + k) = STYPE_StrLen \<and> (S_StrLen + k - S_StrLen) mod 8 = k \<and> field_type (S_NameLen + k) = STYPE_NameLen \<and>
    (S_NameLen + k - S_StrLen) mod 8 = k \<and> field_type (S_ByteArray + k) = STYPE_BArray \<and> (S_ByteArray + k - S_ByteArray) mod 8 = k \<and>
    field_type (S_Map + k) = STYPE_Map \<and> (S_Map + k) mod 8 = k"
proof -
  have "\<forall>k \<in> set [0..<5]. field_type (S_Int + k) = STYPE_Int \<and> (S_Int + k) mod 8 = k \<and> field_type (S_UInt + k) = STYPE_UInt \<and> (S_UInt + k) mod 8 = k \<and>
    field_type (S_StrLen + k) = STYPE_StrLen \<and> (S_StrLen + k - S_StrLen) mod 8 = k \<and> field_type (S_NameLen + k) = STYPE_NameLen \<and>
    (S_NameLen + k - S_StrLen) mod 8 = k \<and> field_type (S_ByteArray + k) = STYPE_BArray \<and> (S_ByteArray + k - S_ByteArray) mod 8 = k \<and>
    field_type (S_Map + k) = STYPE_Map \<and> (S_Map + k) mod 8 = k" by code_simp
  moreover assume "k \<le> 4"
  then have "k \<in> set [0..<5]" by simp
  ultimately show ?thesis by blast
qed

lemma type_shorts:
  "k \<le> 3 \<Longrightarrow> (k \<le> 2 \<longrightarrow> field_type (S_Short + k) = STYPE_Short \<and> field_type (S_UShort + k) = STYPE_UShort) \<and> field_type (S_ID + k) = STYPE_ID \<and>
    field_type (S_Char + k) = STYPE_Char \<and> (S_Short + k) mod 4 = k \<and> (S_UShort + k) mod 4 = k \<and> (S_ID + k) mod 4 = k \<and> (S_Char + k) mod 4 = k"
proof -
  have "\<forall>k \<in> set [0..<4]. (k \<le> 2 \<longrightarrow> field_type (S_Short + k) = STYPE_Short \<and> field_type (S_UShort + k) = STYPE_UShort) \<and> field_type (S_ID + k) = STYPE_ID \<and>
    field_type (S_Char + k) = STYPE_Char \<and> (S_Short + k) mod 4 = k \<and> (S_UShort + k) mod 4 = k \<and> (S_ID + k) mod 4 = k \<and> (S_Char + k) mod 4 = k" by code_simp
  moreover assume "k \<le> 3"
  then have "k \<in> set [0..<4]" by simp
  ultimately show ?thesis by blast
qed

lemma type_longs: "k \<le> 8 \<Longrightarrow> field_type (S_Long + k) = STYPE_Long \<and> (S_Long + k) mod 16 = k"
proof -
  have "\<forall>k \<in> set [0..<9]. field_type (S_Long + k) = STYPE_Long \<and> (S_Long + k) mod 16 = k" by code_simp
  moreover assume "k \<le> 8"
  then have "k \<in> set [0..<9]" by simp
  ultimately show ?thesis by blast
qed

lemma type_texts:
  "k \<le> 60 \<Longrightarrow> field_type (S_String + k) = STYPE_String \<and> (S_String + k) mod 64 = k \<and>
    (k \<le> 30 \<longrightarrow> field_type (S_Name + k) = STYPE_Name \<and> (S_Name + k) mod 32 = k) \<and> (k \<le> 20 \<longrightarrow> field_type (S_Byte + k) = STYPE_Byte)"
proof -
  have "\<forall>k \<in> set [0..<61]. field_type (S_String + k) = STYPE_String \<and> (S_String + k) mod 64 = k \<and>
    (k \<le> 30 \<longrightarrow> field_type (S_Name + k) = STYPE_Name \<and> (S_Name + k) mod 32 = k) \<and> (k \<le> 20 \<longrightarrow> field_type (S_Byte + k) = STYPE_Byte)" by code_simp
  moreover assume "k \<le> 60"
  then have "k \<in> set [0..<61]" by simp
  ultimately show ?thesis by blast
qed

lemma type_singles:
  "field_type (Suc 0) = STYPE_Null" "field_type 2 = STYPE_Boolean" "field_type 3 = STYPE_Boolean" "field_type 4 = STYPE_Float" "field_type 5 = STYPE_Float"
  "field_type 6 = STYPE_Double" "field_type 7 = STYPE_Double" "field_type 16 = STYPE_Byte" "field_type 17 = STYPE_UByte" "field_type 94 = STYPE_Xid"
  by code_simp+

text \<open>
  What is read back: the value as the encoding keeps it, pointing into the buffer, where \<open>t\<close> follows its data.
  An unsigned long is read as a signed one.
\<close>

definition wire :: "mem \<Rightarrow> ism_field_t \<Rightarrow> ism_field_t" where
  "wire t f = (case f of
       VT_String (Some s) \<Rightarrow> VT_String (Some (cstr s @ [0] @ t))
     | VT_String None \<Rightarrow> VT_Null
     | VT_Name (Some s) \<Rightarrow> VT_Name (Some (cstr s @ [0] @ t))
     | VT_ByteArray s len \<Rightarrow> VT_ByteArray (take (unat len) s @ t) len
     | VT_Map s len \<Rightarrow> VT_Map (take (unat len) s @ t) len
     | VT_Xid s len \<Rightarrow> VT_Xid (take (unat len) s @ t) len
     | VT_Boolean i \<Rightarrow> VT_Boolean (if i \<noteq> 0 then 1 else 0)
     | VT_Byte i \<Rightarrow> VT_Byte (scast (ucast i :: u8))
     | VT_UByte i \<Rightarrow> VT_UByte (i AND 0xFF)
     | VT_Short i \<Rightarrow> VT_Short (i AND 0xFFFF)
     | VT_UShort i \<Rightarrow> VT_UShort (i AND 0xFFFF)
     | VT_NameIndex i \<Rightarrow> VT_NameIndex (i AND 0xFFFF)
     | VT_Char i \<Rightarrow> VT_Char (i AND 0x1FFFF)
     | VT_ULong l \<Rightarrow> VT_Long l
     | _ \<Rightarrow> f)"

text \<open>The values that can be read back: not 0.0, whose bytes the reader does not take, and no XID whose length is read as a negative number.\<close>

definition readable :: "ism_field_t \<Rightarrow> bool" where
  "readable f \<longleftrightarrow> enc_ok f \<and> (case f of VT_Unset \<Rightarrow> False | VT_Float w \<Rightarrow> w AND 0x7FFFFFFF \<noteq> 0 | VT_Double w \<Rightarrow> w AND 0x7FFFFFFFFFFFFFFF \<noteq> 0
     | VT_Xid s len \<Rightarrow> unat len < 128 | _ \<Rightarrow> True)"

lemma unat_code: "n < 256 \<Longrightarrow> unat (of_nat n :: u8) = n"
  by (simp add: unat_of_nat)

lemma unat_and_mask: "unat ((v :: u32) AND 0xFFFF) < 256 ^ 2" "unat (v AND 0x1FFFF) < 256 ^ 3"
proof -
  have "v AND 0xFFFF \<le> 0xFFFF" "v AND 0x1FFFF \<le> 0x1FFFF" by (simp_all add: word_and_le1)
  then show "unat (v AND 0xFFFF) < 256 ^ 2" "unat (v AND 0x1FFFF) < 256 ^ 3" by (simp_all add: word_le_nat_alt)
qed

lemma len_be:
  "length (be (unat (v :: u32))) \<le> 4" "length (be (unat (l :: u64))) \<le> 8" "length (be (unat (v AND 0xFFFF))) \<le> 2" "length (be (unat (v AND 0x1FFFF))) \<le> 3"
  using unat_and_mask [of v] unsigned_less [of v, where ?'a = nat] unsigned_less [of l, where ?'a = nat]
  by (auto intro!: length_be)

definition typed_ok :: "(concat_alloc_t \<Rightarrow> concat_alloc_t option) \<Rightarrow> ism_field_t \<Rightarrow> concat_alloc_t \<Rightarrow> mem \<Rightarrow> bool" where
  "typed_ok skip f a r \<longleftrightarrow> (\<forall>b v. enc f = b # v \<longrightarrow> view a = v @ r \<longrightarrow>
     get_typed skip (unat b) a = Some (True, wire (r @ slack a) f, adv (length v) a))"

lemma typed_num:
  assumes "enc f = num_enc t n" and "t + length (be n) < 256"
    and "view a = be n @ r \<Longrightarrow> get_typed skip (t + length (be n)) a = Some (True, wire (r @ slack a) f, adv (length (be n)) a)"
  shows "typed_ok skip f a r"
  using assms unat_code [OF assms(2)] by (simp add: typed_ok_def num_enc_def)

lemma get_number_word:
  "rd_ok a \<Longrightarrow> view a = be (unat (w :: 'a::len word)) @ r \<Longrightarrow> get_number (length (be (unat w))) a = Some (w, adv (length (be (unat w))) a)"
  using get_number_be [of a "unat w" r "length (be (unat w))", where ?'a = 'a] by simp

lemma get_numbers_enc:
  assumes "rd_ok a"
  shows "typed_ok skip (VT_Integer i) a r" and "typed_ok skip (VT_UInt i) a r" and "typed_ok skip (VT_Long l) a r" and "typed_ok skip (VT_ULong l) a r"
proof -
  note tab = type_counts [OF len_be(1) [of i]] type_longs [OF len_be(2) [of l]]
  note num = get_number_word [OF assms, of i r] get_number_word [OF assms, of l r]
  have lim: "S_Int + length (be (unat i)) < 256" "S_UInt + length (be (unat i)) < 256" "S_Long + length (be (unat l)) < 256"
    using len_be(1) [of i] len_be(2) [of l] by (simp_all add: S_Int_def S_UInt_def S_Long_def)
  show "typed_ok skip (VT_Integer i) a r"
    using tab num by (intro typed_num [OF _ lim(1)]) (auto simp: enc_def wire_def get_typed_def ism_protocol_getIntValue_def)
  show "typed_ok skip (VT_UInt i) a r"
    using tab num by (intro typed_num [OF _ lim(2)]) (auto simp: enc_def wire_def get_typed_def ism_protocol_getIntValue_def)
  show "typed_ok skip (VT_Long l) a r" "typed_ok skip (VT_ULong l) a r"
    using tab num by (intro typed_num [OF _ lim(3)]; auto simp: enc_def wire_def get_typed_def ism_protocol_getLongValue_def)+
qed

lemma get_shorts_enc:
  assumes "rd_ok a"
  shows "typed_ok skip (VT_Short i) a r" and "typed_ok skip (VT_UShort i) a r" and "typed_ok skip (VT_NameIndex i) a r" and "typed_ok skip (VT_Char i) a r"
proof -
  let ?k = "length (be (unat (i AND 0xFFFF)))" and ?m = "length (be (unat (i AND 0x1FFFF)))"
  have le: "?k \<le> 2" "?m \<le> 3" using len_be(3,4) [of i] .
  then have "?k \<le> 3" by simp
  note tab = type_shorts [OF this] type_shorts [OF le(2)]
  note num = get_number_word [OF assms, of "i AND 0xFFFF" r] get_number_word [OF assms, of "i AND 0x1FFFF" r]
  have lim: "S_Short + ?k < 256" "S_UShort + ?k < 256" "S_ID + ?k < 256" "S_Char + ?m < 256"
    using le by (simp_all add: S_Short_def S_UShort_def S_ID_def S_Char_def)
  show "typed_ok skip (VT_Short i) a r"
    using tab le num by (intro typed_num [OF _ lim(1)]) (auto simp: enc_def wire_def get_typed_def ism_protocol_getShortValue_def)
  show "typed_ok skip (VT_UShort i) a r"
    using tab le num by (intro typed_num [OF _ lim(2)]) (auto simp: enc_def wire_def get_typed_def ism_protocol_getShortValue_def and.assoc)
  show "typed_ok skip (VT_NameIndex i) a r"
    using tab le num by (intro typed_num [OF _ lim(3)]) (auto simp: enc_def wire_def get_typed_def ism_protocol_getShortValue_def)
  show "typed_ok skip (VT_Char i) a r"
    using tab le num by (intro typed_num [OF _ lim(4)]) (auto simp: enc_def wire_def get_typed_def ism_protocol_getShortValue_def)
qed

lemma get_byte_value_view:
  assumes "rd_ok a" and "view a = [b] @ r" and "otype < S_Byte"
  shows "ism_protocol_getByteValue otype a = Some (scast b, adv 1 a)"
  using assms get_byte_view [of a b r] pos_less_iff [of a] by (simp add: ism_protocol_getByteValue_def not_le)

lemma and_255_mask: "(0xFF :: u32) = mask 8"
  by (simp add: mask_eq_exp_minus_1)

lemma scast_and_255: "scast (ucast (i :: u32) :: u8) AND 0xFF = (i AND 0xFF :: u32)"
proof -
  have "bit (scast (ucast i :: u8) AND mask 8 :: u32) n = bit (i AND mask 8) n" for n
  proof (cases "n < 7")
    case True
    then show ?thesis by (simp add: bit_simps)
  next
    case False
    then have "n = 7 \<or> 8 \<le> n" by arith
    then show ?thesis by (auto simp: bit_simps)
  qed
  then show ?thesis unfolding and_255_mask by (intro bit_word_eqI) blast
qed

lemma small_byte:
  assumes "0 \<le> sint (i :: u32)" and "sint i \<le> 20"
  shows "unat i \<le> 20" and "scast (ucast i :: u8) = i"
proof -
  have "uint i = take_bit 32 (sint i)" using uint_sint [of i] by simp
  also have "\<dots> = sint i" using assms by (simp only: take_bit_int_eq_self_iff) simp
  finally have "unat i = nat (sint i)" by (simp only: unat_eq_nat_uint)
  then show le: "unat i \<le> 20" using assms by simp
  show "scast (ucast i :: u8) = i" using le by (intro scast_ucast_small) simp
qed

lemma typed_okI:
  assumes "enc f = b # v" and "view a = v @ r \<Longrightarrow> get_typed skip (unat b) a = Some (True, wire (r @ slack a) f, adv (length v) a)"
  shows "typed_ok skip f a r"
  using assms by (simp add: typed_ok_def)

lemma get_singles_enc:
  assumes "rd_ok a"
  shows "typed_ok skip VT_Null a r" and "typed_ok skip (VT_String None) a r" and "typed_ok skip (VT_Boolean i) a r"
  by (simp_all add: typed_ok_def enc_def wire_def get_typed_def type_singles)

lemma get_ubyte_enc:
  assumes "rd_ok a"
  shows "typed_ok skip (VT_UByte i) a r"
proof (rule typed_okI)
  show "enc (VT_UByte i) = 17 # [ucast i]" by (simp add: enc_def)
  assume "view a = [ucast i] @ r"
  then show "get_typed skip (unat (17 :: u8)) a = Some (True, wire (r @ slack a) (VT_UByte i), adv (length [ucast i :: u8]) a)"
    using get_byte_value_view [OF assms, of "ucast i" r 17] scast_and_255 [of i] by (simp add: get_typed_def type_singles wire_def S_Byte_def)
qed

lemma get_byte_enc:
  assumes "rd_ok a"
  shows "typed_ok skip (VT_Byte i) a r"
proof (cases "0 \<le> sint i \<and> sint i \<le> S_ByteMax")
  case True
  then have sm: "unat i \<le> 20" "scast (ucast i :: u8) = i" using small_byte [of i] by (auto simp: S_ByteMax_def)
  then have code: "unat (of_nat (S_Byte + unat i) :: u8) = S_Byte + unat i" by (intro unat_code) (simp add: S_Byte_def)
  have "get_typed skip (S_Byte + unat i) a = Some (True, VT_Byte i, a)"
    using sm type_texts [of "unat i"] by (simp add: get_typed_def ism_protocol_getByteValue_def)
  then have "get_typed skip (unat (of_nat (S_Byte + unat i) :: u8)) a = Some (True, wire (r @ slack a) (VT_Byte i), adv (length ([] :: mem)) a)"
    unfolding code using sm(2) by (simp add: wire_def)
  moreover have "enc (VT_Byte i) = [of_nat (S_Byte + unat i)]" using True by (simp only: enc_def ism_field_t.case if_True simp_thms)
  ultimately show ?thesis by (intro typed_okI)
next
  case False
  show ?thesis
  proof (rule typed_okI)
    show "enc (VT_Byte i) = 16 # [ucast i]" unfolding enc_def ism_field_t.case if_not_P [OF False] by (rule refl)
    assume "view a = [ucast i] @ r"
    then show "get_typed skip (unat (16 :: u8)) a = Some (True, wire (r @ slack a) (VT_Byte i), adv (length [ucast i :: u8]) a)"
      using get_byte_value_view [OF assms, of "ucast i" r 16] by (simp add: get_typed_def type_singles wire_def S_Byte_def)
  qed
qed

lemma get_float_enc:
  assumes "rd_ok a" and "w AND 0x7FFFFFFF \<noteq> 0"
  shows "typed_ok skip (VT_Float w) a r"
proof (rule typed_okI)
  show "enc (VT_Float w) = 5 # be_fixed 4 (unat w)" using assms(2) by (simp add: enc_def)
  have "unat w < 256 ^ 4" using unsigned_less [of w, where ?'a = nat] by simp
  then have "of_be 0 (be_fixed 4 (unat w)) = w" by (simp add: be_fixed_eq_be)
  moreover assume "view a = be_fixed 4 (unat w) @ r"
  ultimately show "get_typed skip (unat (5 :: u8)) a = Some (True, wire (r @ slack a) (VT_Float w), adv (length (be_fixed 4 (unat w))) a)"
    using get_number_view [OF assms(1), of "be_fixed 4 (unat w)" r, where ?'a = 32]
    by (simp add: get_typed_def type_singles wire_def ism_protocol_getFloatValue_def ism_protocol_getIntValue_def)
qed

lemma get_double_enc:
  assumes "rd_ok a" and "w AND 0x7FFFFFFFFFFFFFFF \<noteq> 0"
  shows "typed_ok skip (VT_Double w) a r"
proof (rule typed_okI)
  show "enc (VT_Double w) = 7 # be_fixed 8 (unat w)" using assms(2) by (simp add: enc_def)
  have "unat w < 256 ^ 8" using unsigned_less [of w, where ?'a = nat] by simp
  then have "of_be 0 (be_fixed 8 (unat w)) = w" by (simp add: be_fixed_eq_be)
  moreover assume "view a = be_fixed 8 (unat w) @ r"
  ultimately show "get_typed skip (unat (7 :: u8)) a = Some (True, wire (r @ slack a) (VT_Double w), adv (length (be_fixed 8 (unat w))) a)"
    using get_number_view [OF assms(1), of "be_fixed 8 (unat w)" r, where ?'a = 64]
    by (simp add: get_typed_def type_singles wire_def ism_protocol_getDoubleValue_def ism_protocol_getLongValue_def)
qed

text \<open>The data after a number, as the readers with a length see it.\<close>

lemma get_length_view:
  assumes "rd_ok a" and "view a = be (unat (len :: u32)) @ s @ r" and "unat len = length s" and "int (ca_used a) \<le> 2 ^ 30"
  defines "a1 \<equiv> adv (length (be (unat len))) a"
  shows "get_number (length (be (unat len))) a = Some (len, a1)" and "sint len = int (length s)" and "rd_ok a1" and "view a1 = s @ r"
proof -
  show "get_number (length (be (unat len))) a = Some (len, a1)" unfolding a1_def by (rule get_number_word [OF assms(1,2)])
  show "rd_ok a1" unfolding a1_def using assms(2) by (intro rd_ok_adv [OF assms(1)]) simp
  show "view a1 = s @ r" unfolding a1_def view_adv [OF assms(1)] by (simp add: assms(2))
  have "int (length s) \<le> 2 ^ 30" using length_view [OF assms(1)] assms(1,2,4) by (auto simp: rd_ok_def)
  then show "sint len = int (length s)" using assms(3) by (subst sint_small) simp_all
qed

lemma INT_MAX_30: "int n \<le> 2 ^ 30 \<Longrightarrow> int n \<le> INT_MAX"
  by (simp add: INT_MAX_def)

lemma get_blocks_enc:
  assumes "rd_ok a" and "bytes_ok s len" and "int (ca_used a) \<le> 2 ^ 30"
  shows "typed_ok skip (VT_ByteArray s len) a r" and "typed_ok skip (VT_Map s len) a r"
proof -
  let ?k = "length (be (unat len))" and ?s = "take (unat len) s" and ?a1 = "adv (length (be (unat len))) a"
  note tab = type_counts [OF len_be(1) [of len]]
  have lim: "S_ByteArray + ?k < 256" "S_Map + ?k < 256" using len_be(1) [of len] by (simp_all add: S_ByteArray_def S_Map_def)
  have l: "unat len = length ?s" using assms(2) by (simp add: bytes_ok_def)
  have ba: "get_typed skip (S_ByteArray + ?k) a = Some (True, wire (r @ slack a) (VT_ByteArray s len), adv (?k + unat len) a)"
    and map: "get_typed skip (S_Map + ?k) a = Some (True, wire (r @ slack a) (VT_Map s len), adv (?k + unat len) a)"
    if v: "view a = be (unat len) @ ?s @ r"
  proof -
    note g = get_length_view [OF assms(1) v l assms(3)]
    have "int (ca_used ?a1) \<le> INT_MAX" using INT_MAX_30 [OF assms(3)] by simp
    note d = take_data_view [OF g(3,4) this g(2)] skip_data_view [OF g(3,4) this g(2)] buf_ptr_view [OF g(3)]
    show "get_typed skip (S_ByteArray + ?k) a = Some (True, wire (r @ slack a) (VT_ByteArray s len), adv (?k + unat len) a)"
      and "get_typed skip (S_Map + ?k) a = Some (True, wire (r @ slack a) (VT_Map s len), adv (?k + unat len) a)"
      using tab g d l by (simp_all add: get_typed_def wire_def ism_protocol_getByteArrayValue_def ism_protocol_getMapValue_def ism_protocol_getIntValue_def)
  qed
  show "typed_ok skip (VT_ByteArray s len) a r" "typed_ok skip (VT_Map s len) a r"
    using ba map l unat_code [OF lim(1)] unat_code [OF lim(2)]
    by (simp_all add: typed_ok_def enc_def num_enc_def del: of_nat_add)
qed

lemma get_xid_enc:
  assumes "rd_ok a" and "bytes_ok s len" and "int (ca_used a) \<le> 2 ^ 30" and "unat len < 128"
  shows "typed_ok skip (VT_Xid s len) a r"
proof (rule typed_okI)
  show "enc (VT_Xid s len) = 94 # (ucast len # take (unat len) s)" by (simp add: enc_def)
  assume v: "view a = (ucast len # take (unat len) s) @ r"
  have a1: "rd_ok (adv 1 a)" "view (adv 1 a) = take (unat len) s @ r" using v rd_ok_adv [OF assms(1), of 1] view_adv [OF assms(1), of 1] by simp_all
  have l: "length (take (unat len) s) = unat len" using assms(2) by (simp add: bytes_ok_def)
  have "sint (ucast len :: u8) = int (length (take (unat len) s))" using assms(4) l by (simp add: sint_u8_small unat_ucast_small)
  then have "skip_data (sint (ucast len :: u8)) (adv 1 a) = Some (adv (length (take (unat len) s)) (adv 1 a))"
    using INT_MAX_30 [OF assms(3)] by (intro skip_data_view [OF a1]) simp_all
  then show "get_typed skip (unat (94 :: u8)) a = Some (True, wire (r @ slack a) (VT_Xid s len), adv (length (ucast len # take (unat len) s)) a)"
    using get_byte_view [OF assms(1), of "ucast len"] v l buf_ptr_view [OF a1(1)] a1(2) scast_ucast_small [OF assms(4)]
    by (simp add: get_typed_def type_singles wire_def ism_protocol_getXidValue_def)
qed

text \<open>Strings and names, with the small and the long form of the length.\<close>

lemma get_text_enc:
  assumes rd: "rd_ok a" and used: "int (ca_used a) \<le> 2 ^ 30" and lim: "base + 4 < 256" "small + limit < 256"
    and small: "\<And>k. k \<le> limit \<Longrightarrow> get (small + k) a = map_option wrap (take_data (int k) a)"
    and large: "\<And>k. k \<le> 4 \<Longrightarrow> get (base + k) a = map_option wrap (get_number k a \<bind> (\<lambda>(len :: u32, a). take_data (sint len) a))"
    and e: "text_enc small limit base s = b # v" and view: "view a = v @ r"
  shows "get (unat b) a = Some (wrap (Some (s @ [0] @ r @ slack a), adv (length v) a))"
proof (cases "Suc (length s) \<le> limit")
  case True
  then have b: "unat b = small + Suc (length s)" and v: "v = s @ [0]"
    using e lim unat_code [of "small + Suc (length s)"] by (auto simp: text_enc_def text_head_def)
  then have "take_data (int (Suc (length s))) a = Some (Some ((s @ [0]) @ r @ slack a), adv (length (s @ [0])) a)"
    using view INT_MAX_30 [OF used] by (intro take_data_view [OF rd]) auto
  then show ?thesis using small [OF True] b v by simp
next
  case False
  let ?n = "Suc (length s)"
  let ?len = "of_nat ?n :: u32"
  have v: "v = be ?n @ s @ [0]" and b: "b = of_nat (base + length (be ?n))" using e False by (auto simp: text_enc_def text_head_def num_enc_def)
  have "int ?n \<le> 2 ^ 30" using length_view [OF rd] rd view v used by (auto simp: rd_ok_def)
  then have n: "unat ?len = ?n" by (subst unat_of_nat) simp
  have k: "length (be ?n) \<le> 4" using len_be(1) [of ?len] unfolding n .
  have "view a = be (unat ?len) @ (s @ [0]) @ r" unfolding n using view v by simp
  note g = get_length_view [OF rd this _ used]
  have "take_data (int ?n) (adv (length (be ?n)) a) = Some (Some ((s @ [0]) @ r @ slack (adv (length (be ?n)) a)), adv (length (s @ [0])) (adv (length (be ?n)) a))"
    using g INT_MAX_30 [OF used] unfolding n by (intro take_data_view) auto
  moreover have "get_number (length (be ?n)) a = Some (?len, adv (length (be ?n)) a)" "sint ?len = int ?n" using g unfolding n by auto
  moreover have "unat b = base + length (be ?n)" unfolding b using k lim by (intro unat_code) simp
  ultimately show ?thesis using large [OF k] v by simp
qed

lemma get_texts_enc:
  assumes rd: "rd_ok a" and used: "int (ca_used a) \<le> 2 ^ 30"
  shows "typed_ok skip (VT_String (Some s)) a r" and "typed_ok skip (VT_Name (Some s)) a r"
proof -
  let ?str = "\<lambda>(s, a). (True, VT_String s, a)" and ?name = "\<lambda>(s, a). (True, VT_Name s, a)"
  have lims: "S_StrLen + 4 < 256" "S_String + S_StringMax < 256" "S_NameLen + 4 < 256" "S_Name + S_NameMax < 256"
    by (simp_all add: S_StrLen_def S_String_def S_StringMax_def S_NameLen_def S_Name_def S_NameMax_def)
  have "get_typed skip (S_String + k) a = map_option ?str (take_data (int k) a)" if "k \<le> S_StringMax" for k
    using type_texts [of k] that by (simp add: S_StringMax_def get_typed_def ism_protocol_getStringValue_def)
  moreover have "get_typed skip (S_StrLen + k) a = map_option ?str (get_number k a \<bind> (\<lambda>(len :: u32, a). take_data (sint len) a))" if "k \<le> 4" for k
    using type_counts [OF that] by (simp add: get_typed_def ism_protocol_getStringValue_def ism_protocol_getIntValue_def)
  ultimately show "typed_ok skip (VT_String (Some s)) a r"
    using get_text_enc [OF rd used lims(1,2), of "get_typed skip" ?str] by (auto simp: typed_ok_def enc_def wire_def)
  have "get_typed skip (S_Name + k) a = map_option ?name (take_data (int k) a)" if "k \<le> S_NameMax" for k
    using type_texts [of k] that by (simp add: S_NameMax_def get_typed_def ism_protocol_getNameValue_def)
  moreover have "get_typed skip (S_NameLen + k) a = map_option ?name (get_number k a \<bind> (\<lambda>(len :: u32, a). take_data (sint len) a))" if "k \<le> 4" for k
    using type_counts [OF that] by (simp add: get_typed_def ism_protocol_getNameValue_def ism_protocol_getIntValue_def)
  ultimately show "typed_ok skip (VT_Name (Some s)) a r"
    using get_text_enc [OF rd used lims(3,4), of "get_typed skip" ?name] by (auto simp: typed_ok_def enc_def wire_def)
qed

text \<open>The reader of objects takes an encoding off the front of what is left to read.\<close>

lemma enc_Cons: "readable f \<Longrightarrow> enc f \<noteq> []"
  by (auto simp: readable_def enc_ok_def enc_def num_enc_def text_enc_def text_head_def split: ism_field_t.splits option.splits)

lemma typed_enc:
  assumes "rd_ok a" and "readable f" and "int (ca_used a) \<le> 2 ^ 30"
  shows "typed_ok skip f a r"
proof (cases f)
  case (VT_String s)
  then show ?thesis using get_singles_enc(2) [OF assms(1)] get_texts_enc(1) [OF assms(1,3)] by (cases s) simp_all
next
  case (VT_Name s)
  then show ?thesis using assms(2) get_texts_enc(2) [OF assms(1,3)] by (cases s) (simp_all add: readable_def enc_ok_def)
qed (use assms(2) in \<open>simp_all add: readable_def enc_ok_def get_singles_enc [OF assms(1)] get_ubyte_enc [OF assms(1)] get_byte_enc [OF assms(1)]
    get_numbers_enc [OF assms(1)] get_shorts_enc [OF assms(1)] get_float_enc [OF assms(1)] get_double_enc [OF assms(1)] get_blocks_enc [OF assms(1) _ assms(3)]
    get_xid_enc [OF assms(1) _ assms(3)]\<close>)

lemma get_object_enc:
  assumes "rd_ok a" and "readable f" and "int (ca_used a) \<le> 2 ^ 30" and "view a = enc f @ r"
  shows "ism_protocol_getObjectValue (Suc fuel) a = Some (0, wire (r @ slack a) f, adv (length (enc f)) a)"
proof -
  obtain b v where e: "enc f = b # v" using enc_Cons [OF assms(2)] by (cases "enc f") auto
  have a1: "rd_ok (adv 1 a)" "view (adv 1 a) = v @ r" using e assms rd_ok_adv [OF assms(1), of 1] view_adv [OF assms(1), of 1] by simp_all
  have "typed_ok skip f (adv 1 a) r" for skip using a1(1) assms by (intro typed_enc) auto
  then have "get_typed skip (unat b) (adv 1 a) = Some (True, wire (r @ slack a) f, adv (length v) (adv 1 a))" for skip
    using e a1(2) by (auto simp: typed_ok_def)
  moreover have "get_byte a (ca_pos a) = Some b" "ca_pos a < int (ca_used a)"
    using get_byte_view [OF assms(1), of b "v @ r"] pos_less_iff [OF assms(1)] e assms(4) by auto
  moreover have "0 \<le> ca_pos a" using assms(1) by (simp add: rd_ok_def)
  ultimately show ?thesis using e by simp
qed

end
