(* ===== verification/Serialize.thy ===== *)
theory Serialize
  imports Encoding
begin

text \<open>
  What the encoding is used for in \<^verbatim>\<open>src/server_utils/src/content.c\<close>: a properties object is written as a sequence of names and
  values, it is rebuilt from that sequence, and single values are searched for in it. The
  sequence is \<open>enc_props\<close> of the properties.
\<close>

section \<open>Sequences of properties\<close>

abbreviation enc_name :: "mem \<Rightarrow> mem" where
  "enc_name \<equiv> text_enc S_Name S_NameMax S_NameLen"

definition enc_props :: "(mem \<times> ism_field_t) list \<Rightarrow> mem" where
  "enc_props ps = concat (map (\<lambda>(k, f). enc_name k @ enc f) ps)"

lemma enc_props_simps [simp]: "enc_props [] = []" "enc_props ((k, f) # ps) = enc_name k @ enc f @ enc_props ps"
  by (simp_all add: enc_props_def)

text \<open>The values that a property can have, and what is kept of one that is written and read.\<close>

definition prop_val :: "ism_field_t \<Rightarrow> bool" where
  "prop_val f \<longleftrightarrow> readable f \<and> (case f of VT_Name s \<Rightarrow> False | _ \<Rightarrow> True)"

definition kept :: "ism_field_t \<Rightarrow> ism_field_t" where
  "kept f = stored_field (wire [] f)"

lemma stored_wire:
  assumes "prop_val f"
  shows "stored_field (wire t f) = kept f"
proof (cases f)
  case (VT_String s)
  then show ?thesis by (cases s) (simp_all add: kept_def stored_field_def wire_def)
next
  case (VT_Name s)
  then show ?thesis using assms by (simp add: prop_val_def)
qed (use assms in \<open>simp_all add: prop_val_def readable_def enc_ok_def bytes_ok_def kept_def stored_field_def wire_def\<close>)

lemma length_enc_text: "length k + 1 \<le> length (text_enc small limit base k)"
  by (simp add: text_enc_def)

lemma field_ok_wire:
  assumes f: "prop_val f" and len: "length (enc f) \<le> 2 ^ 30"
  shows "field_ok (wire t f)"
proof (cases f)
  case (VT_String s)
  show ?thesis
  proof (cases s)
    case (Some m)
    then have "length (cstr m) + 1 \<le> 2 ^ 30" using len length_enc_text [of "cstr m" S_String S_StringMax S_StrLen] VT_String by (simp add: enc_def)
    then show ?thesis using VT_String Some by (simp add: field_ok_def wire_def name_ok_def len_ok_def)
  qed (simp add: VT_String field_ok_def wire_def)
qed (use f len in \<open>auto simp: prop_val_def readable_def enc_ok_def bytes_ok_def field_ok_def len_ok_def wire_def enc_def\<close>)

lemma put_name_enc:
  assumes "buf_ok a" and "allocator_ok alloc" and "0 \<in> set s" and "ca_used a + length (enc_name (cstr s)) + 20 \<le> 2 ^ 30"
  shows "\<exists>a'. ism_protocol_putNameValue alloc s a = Some a' \<and> appended a (enc_name (cstr s)) a'"
  using put_text [OF assms(1-3), of 3 S_NameMax S_Name S_NameLen] assms(4) by (simp add: ism_protocol_putNameValue_def text_enc_def)

lemma contents_fst: "map fst (contents ps) = map (cstr \<circ> fst) ps"
  by (auto simp: contents_def)

lemma prop_get_mem: "prop_ok p \<Longrightarrow> (name, f) \<in> set (pr_props p) \<Longrightarrow> prop_get p (cstr name) = Some f"
proof -
  assume p: "prop_ok p" and "(name, f) \<in> set (pr_props p)"
  then have "(cstr name, f) \<in> set (contents (pr_props p))" by (force simp: contents_def)
  moreover have "distinct (map fst (contents (pr_props p)))" using p by (simp only: contents_fst) (simp add: prop_ok_def)
  ultimately show ?thesis by (simp add: prop_get_def)
qed

section \<open>Serialization\<close>

lemma put_properties_enc:
  assumes p: "prop_ok p" and vals: "\<forall>(name, f) \<in> set (pr_props p). prop_val f" and al: "allocator_ok alloc"
  shows "buf_ok a \<Longrightarrow> ca_used a + length (enc_props (drop i (contents (pr_props p)))) + 60 \<le> 2 ^ 30 \<Longrightarrow>
    \<exists>a'. put_properties alloc p i a = Some a' \<and> appended a (enc_props (drop i (contents (pr_props p)))) a'"
proof (induction "length (pr_props p) - i" arbitrary: i a)
  case 0
  then have "put_properties alloc p i a = Some a" by (subst put_properties.simps) (simp add: ism_common_getPropertyIndex_def)
  then show ?case using 0 by (simp add: contents_def appended_def)
next
  case (Suc n)
  then have i: "i < length (pr_props p)" and n: "n = length (pr_props p) - Suc i" by simp_all
  obtain name f where e: "pr_props p ! i = (name, f)" by (cases "pr_props p ! i")
  then have mem: "(name, f) \<in> set (pr_props p)" using i by (metis nth_mem)
  then have nul: "0 \<in> set name" and f: "prop_val f" using p vals by (auto simp: prop_ok_def)
  have dr: "drop i (contents (pr_props p)) = (cstr name, f) # drop (Suc i) (contents (pr_props p))"
    using i e by (metis (no_types, lifting) Cons_nth_drop_Suc contents_def length_map nth_map case_prod_conv)
  have get: "ism_common_getProperty (Some p) (Some name) = Some (0, f)" using getProperty_spec [OF p nul] prop_get_mem [OF p mem] by simp
  obtain a1 where a1: "ism_protocol_putNameValue alloc name a = Some a1" "appended a (enc_name (cstr name)) a1"
    using put_name_enc [OF Suc.prems(1) al nul] Suc.prems(2) dr by auto
  obtain a2 where a2: "ism_protocol_putObjectValue alloc f a1 = Some a2" "appended a1 (enc f) a2"
    using put_object_enc [OF _ al, of a1 f] f a1(2) Suc.prems(2) dr by (auto simp: appended_def prop_val_def readable_def)
  have used: "ca_used a2 = ca_used a + length (enc_name (cstr name)) + length (enc f)" using a1(2) a2(2) by (simp add: appended_def)
  obtain a3 where a3: "put_properties alloc p (Suc i) a2 = Some a3" "appended a2 (enc_props (drop (Suc i) (contents (pr_props p)))) a3"
    using Suc.hyps(1) [OF n appended_ok [OF a2(2)]] Suc.prems(2) used dr by auto
  have "put_properties alloc p i a = Some a3"
    using i e get a1(1) a2(1) a3(1) by (subst put_properties.simps) (simp add: ism_common_getPropertyIndex_def)
  moreover have "appended a (enc_props (drop i (contents (pr_props p)))) a3"
    using appended_trans [OF appended_trans [OF a1(2) a2(2)] a3(2)] dr by simp
  ultimately show ?case by blast
qed


section \<open>Deserialization\<close>

lemma get_properties_enc:
  assumes vals: "\<forall>(k, f) \<in> set ps. 0 \<notin> set k \<and> prop_val f"
  shows "rd_ok m \<Longrightarrow> int (ca_used m) \<le> 2 ^ 30 \<Longrightarrow> view m = enc_props ps \<Longrightarrow> length ps < fuel \<Longrightarrow> prop_ok q \<Longrightarrow> prop_room (length ps) q \<Longrightarrow>
    \<exists>q'. get_properties fuel alloc_ok m q = Some (adv (length (enc_props ps)) m, q') \<and> prop_ok q' \<and>
      prop_get q' = fold (\<lambda>(k, f) g. g(k \<mapsto> kept f)) ps (prop_get q)"
  using vals
proof (induction ps arbitrary: m fuel q)
  case Nil
  then have "\<not> ca_pos m < int (ca_used m)" using pos_less_iff [of m] by simp
  then show ?case using Nil by (cases fuel) auto
next
  case (Cons e ps)
  obtain k f where e: "e = (k, f)" by (cases e)
  then have k: "0 \<notin> set k" and f: "prop_val f" using Cons.prems(7) by auto
  obtain n where fuel: "fuel = Suc n" using Cons.prems(4) by (cases fuel) auto
  let ?nm = "enc (VT_Name (Some (k @ [0])))"
  let ?m1 = "adv (length ?nm) m" and ?m2 = "adv (length (enc f)) (adv (length ?nm) m)"
  have nm: "?nm = enc_name k" using cstr_append [OF k, of "[]"] by (simp add: enc_def)
  have v: "view m = ?nm @ enc f @ enc_props ps" using Cons.prems(3) e nm by simp
  have "readable (VT_Name (Some (k @ [0])))" by (simp add: readable_def enc_ok_def)
  from get_object_enc [OF Cons.prems(1) this Cons.prems(2) v]
  have g1: "ism_protocol_getObjectValue fuel m = Some (0, VT_Name (Some (k @ [0] @ enc f @ enc_props ps @ slack m)), ?m1)"
    using cstr_append [OF k, of "[]"] by (simp add: fuel wire_def)
  have m1: "rd_ok ?m1" "view ?m1 = enc f @ enc_props ps" using v rd_ok_adv [OF Cons.prems(1)] view_adv [OF Cons.prems(1)] by simp_all
  have g2: "ism_protocol_getObjectValue fuel ?m1 = Some (0, wire (enc_props ps @ slack m) f, ?m2)"
    using get_object_enc [OF m1(1) _ _ m1(2)] f Cons.prems(2) by (simp add: fuel prop_val_def)
  have m2: "rd_ok ?m2" "view ?m2 = enc_props ps" "int (ca_used ?m2) \<le> 2 ^ 30"
    using m1 rd_ok_adv [OF m1(1)] view_adv [OF m1(1)] Cons.prems(2) by simp_all
  have len: "length (enc f) \<le> 2 ^ 30" "length k + 1 \<le> 2 ^ 30"
    using length_view [OF Cons.prems(1)] v nm length_enc_text [of k S_Name S_NameMax S_NameLen] Cons.prems(1,2) by (auto simp: rd_ok_def)
  then have name: "name_ok (k @ [0] @ enc f @ enc_props ps @ slack m)" using k by (simp add: name_ok_def len_ok_def)
  have room: "prop_room (Suc (length ps)) q" using Cons.prems(6) by simp
  obtain q1 where q1: "ism_common_setProperty alloc_ok (Some (k @ [0] @ enc f @ enc_props ps @ slack m)) (Some (wire (enc_props ps @ slack m) f)) q = Some (0, q1)"
    "prop_ok q1" "prop_room (length ps) q1" "prop_get q1 = (prop_get q)(k \<mapsto> kept f)"
    using set_ok [OF Cons.prems(5) room name field_ok_wire [OF f len(1)], of "enc_props ps @ slack m"] stored_wire [OF f] k by auto
  have "\<exists>q'. get_properties n alloc_ok ?m2 q1 = Some (adv (length (enc_props ps)) ?m2, q') \<and> prop_ok q' \<and>
      prop_get q' = fold (\<lambda>(k, f) g. g(k \<mapsto> kept f)) ps (prop_get q1)"
    using Cons.prems fuel by (intro Cons.IH m2 q1(2,3)) auto
  moreover have "ca_pos m < int (ca_used m)" using pos_less_iff [OF Cons.prems(1)] v nm by (simp add: text_enc_def)
  ultimately show ?case using g1 g2 q1 e nm fuel by (auto simp: add.assoc simp del: ism_protocol_getObjectValue.simps fun_upd_apply)
qed

lemma fold_upd_distinct:
  "distinct (map fst ps) \<Longrightarrow> fold (\<lambda>(k, f) g. g(k \<mapsto> h f)) ps g k = (case map_of ps k of Some f \<Rightarrow> Some (h f) | None \<Rightarrow> g k)"
proof (induction ps arbitrary: g)
  case (Cons e ps)
  moreover have "map_of ps (fst e) = None" using Cons.prems by (simp add: map_of_eq_None_iff)
  ultimately show ?case by (cases e) (auto split: option.splits)
qed simp

section \<open>Searching\<close>

text \<open>
  The values that a search can step over. An unsigned integer, a character, a name and a name index are not among
  them: the table of lengths has other lengths for them, or they are taken for names.
\<close>

definition searchable :: "ism_field_t \<Rightarrow> bool" where
  "searchable f \<longleftrightarrow> readable f \<and> (case f of VT_UInt i \<Rightarrow> False | VT_Char i \<Rightarrow> False | VT_Name s \<Rightarrow> False | VT_NameIndex i \<Rightarrow> False | _ \<Rightarrow> True)"

definition skips :: "nat \<Rightarrow> nat \<Rightarrow> bool" where
  "skips otype n \<longleftrightarrow> field_type otype \<in> {STYPE_StrLen, STYPE_BArray, STYPE_Map, STYPE_Xid} \<or>
     field_type otype \<notin> {STYPE_Bad, STYPE_Name, STYPE_NameLen, STYPE_ID, STYPE_User} \<and> field_len otype = Suc n"

lemma skips_counts:
  "k \<le> 4 \<Longrightarrow> skips (S_Int + k) k \<and> skips (S_StrLen + k) n \<and> skips (S_ByteArray + k) n \<and> skips (S_Map + k) n" 
proof -
  have "\<forall>k \<in> set [0..<5]. skips (S_Int + k) k" by code_simp
  moreover assume k: "k \<le> 4"
  then have "k \<in> set [0..<5]" by simp
  ultimately have "skips (S_Int + k) k" by blast
  then show ?thesis using type_counts [OF k] by (simp add: skips_def)
qed

lemma skips_longs: "k \<le> 8 \<Longrightarrow> skips (S_Long + k) k"
proof -
  have "\<forall>k \<in> set [0..<9]. skips (S_Long + k) k" by code_simp
  moreover assume "k \<le> 8"
  then have "k \<in> set [0..<9]" by simp
  ultimately show ?thesis by blast
qed

lemma skips_texts: "k \<le> 60 \<Longrightarrow> skips (S_String + k) k \<and> (k \<le> 20 \<longrightarrow> skips (S_Byte + k) 0) \<and> (k \<le> 2 \<longrightarrow> skips (S_Short + k) k \<and> skips (S_UShort + k) k)"
proof -
  have "\<forall>k \<in> set [0..<61]. skips (S_String + k) k \<and> (k \<le> 20 \<longrightarrow> skips (S_Byte + k) 0) \<and> (k \<le> 2 \<longrightarrow> skips (S_Short + k) k \<and> skips (S_UShort + k) k)" by code_simp
  moreover assume "k \<le> 60"
  then have "k \<in> set [0..<61]" by simp
  ultimately show ?thesis by blast
qed

lemma skips_singles: "skips (Suc 0) 0" "skips 2 0" "skips 3 0" "skips 5 4" "skips 7 8" "skips 16 (Suc 0)" "skips 17 (Suc 0)" "skips 94 n"
  by (code_simp, code_simp, code_simp, code_simp, code_simp, code_simp, code_simp, simp add: skips_def type_singles)

lemma skips_num: "t + length (be n) < 256 \<Longrightarrow> skips (t + length (be n)) (length (be n)) \<Longrightarrow> num_enc t n = b # v \<Longrightarrow> skips (unat b) (length v)"
  using unat_code [of "t + length (be n)"] by (auto simp: num_enc_def)

lemma skips_text:
  assumes "enc (VT_String (Some s)) = b # v" and "length v < 2 ^ 32"
  shows "skips (unat b) (length v)"
proof (cases "Suc (length (cstr s)) \<le> S_StringMax")
  case True
  then have k: "Suc (length (cstr s)) \<le> 60" by (simp add: S_StringMax_def)
  then have "unat (of_nat (S_String + Suc (length (cstr s))) :: u8) = S_String + Suc (length (cstr s))" by (intro unat_code) (simp add: S_String_def)
  moreover have "b = of_nat (S_String + Suc (length (cstr s)))" "length v = Suc (length (cstr s))"
    using assms True by (auto simp: enc_def text_enc_def text_head_def)
  ultimately show ?thesis using skips_texts [OF k] by simp
next
  case False
  let ?k = "length (be (Suc (length (cstr s))))"
  have b: "b = of_nat (S_StrLen + ?k)" and "length v = ?k + Suc (length (cstr s))"
    using assms(1) False by (auto simp: enc_def text_enc_def text_head_def num_enc_def)
  then have k: "?k \<le> 4" using assms(2) by (intro length_be) simp
  then have "unat b = S_StrLen + ?k" unfolding b by (intro unat_code) (simp add: S_StrLen_def)
  then show ?thesis using skips_counts [OF k] by simp
qed

lemma skips_byte: "enc (VT_Byte i) = b # v \<Longrightarrow> skips (unat b) (length v)"
proof (cases "0 \<le> sint i \<and> sint i \<le> S_ByteMax")
  case True
  then have sm: "unat i \<le> 20" using small_byte [of i] by (auto simp: S_ByteMax_def)
  then have code: "unat (of_nat (S_Byte + unat i) :: u8) = S_Byte + unat i" by (intro unat_code) (simp add: S_Byte_def)
  assume "enc (VT_Byte i) = b # v"
  then have "b = of_nat (S_Byte + unat i)" "v = []" using True by (simp_all only: enc_def ism_field_t.case if_True simp_thms) simp_all
  then show ?thesis using code sm skips_texts [of "unat i"] by simp
next
  case False
  assume "enc (VT_Byte i) = b # v"
  then have "b = 16" "v = [ucast i]" unfolding enc_def ism_field_t.case if_not_P [OF False] by auto
  then show ?thesis using skips_singles by simp
qed

lemma skips_numbers:
  "enc (VT_Integer i) = b # v \<Longrightarrow> skips (unat b) (length v)" "enc (VT_Short i) = b # v \<Longrightarrow> skips (unat b) (length v)"
  "enc (VT_UShort i) = b # v \<Longrightarrow> skips (unat b) (length v)" "enc (VT_Long l) = b # v \<Longrightarrow> skips (unat b) (length v)" "enc (VT_ULong l) = b # v \<Longrightarrow> skips (unat b) (length v)"
proof -
  let ?k = "length (be (unat (i AND 0xFFFF)))"
  have k: "?k \<le> 2" by (rule len_be)
  have lim: "S_Int + length (be (unat i)) < 256" "S_Long + length (be (unat l)) < 256" "S_Short + ?k < 256" "S_UShort + ?k < 256"
    using len_be(1) [of i] len_be(2) [of l] k by (simp_all add: S_Int_def S_Long_def S_Short_def S_UShort_def)
  note sk = skips_counts [OF len_be(1) [of i]] skips_longs [OF len_be(2) [of l]]
  have sh: "skips (S_Short + ?k) ?k" "skips (S_UShort + ?k) ?k" using skips_texts [of ?k] k by simp_all
  show "enc (VT_Integer i) = b # v \<Longrightarrow> skips (unat b) (length v)" "enc (VT_Short i) = b # v \<Longrightarrow> skips (unat b) (length v)"
    "enc (VT_UShort i) = b # v \<Longrightarrow> skips (unat b) (length v)" "enc (VT_Long l) = b # v \<Longrightarrow> skips (unat b) (length v)" "enc (VT_ULong l) = b # v \<Longrightarrow> skips (unat b) (length v)"
    using skips_num [OF lim(1)] skips_num [OF lim(2)] skips_num [OF lim(3) sh(1)] skips_num [OF lim(4) sh(2)] sk by (simp_all add: enc_def)
qed

lemma skips_block:
  "enc (VT_ByteArray s len) = b # v \<Longrightarrow> skips (unat b) n" "enc (VT_Map s len) = b # v \<Longrightarrow> skips (unat b) n"
proof -
  have "unat (of_nat (S_ByteArray + length (be (unat len))) :: u8) = S_ByteArray + length (be (unat len))"
    "unat (of_nat (S_Map + length (be (unat len))) :: u8) = S_Map + length (be (unat len))"
    using len_be(1) [of len] by (auto intro!: unat_code simp: S_ByteArray_def S_Map_def simp del: of_nat_add)
  then show "enc (VT_ByteArray s len) = b # v \<Longrightarrow> skips (unat b) n" "enc (VT_Map s len) = b # v \<Longrightarrow> skips (unat b) n"
    using skips_counts [OF len_be(1) [of len]] by (auto simp: enc_def num_enc_def simp del: of_nat_add)
qed

lemma skips_enc:
  assumes "searchable f" and "enc f = b # v" and "length v < 2 ^ 32"
  shows "skips (unat b) (length v)"
proof (cases f)
  case (VT_String s)
  then show ?thesis using assms skips_text skips_singles by (cases s) (auto simp: enc_def)
next
  case (VT_Boolean i)
  then show ?thesis using assms skips_singles by (auto simp: enc_def split: if_splits)
qed (use assms skips_byte skips_numbers skips_block skips_singles in \<open>auto simp: searchable_def readable_def enc_def\<close>)

lemma skip_value_typed:
  assumes "get_typed skip otype a = Some (True, f, a')" and "skips otype n" and "a' = adv n a"
  shows "skip_value otype a = Some a'"
  using assms by (auto simp: skips_def skip_value_def get_typed_def adv_def split: S_Type.splits)

lemma typed_name:
  assumes "get_typed skip otype a = Some (True, VT_Name s, a')"
  shows "field_type otype \<in> {STYPE_Name, STYPE_NameLen} \<and> ism_protocol_getNameValue otype a = Some (s, a')"
  using assms
  by (auto simp: get_typed_def ism_protocol_getByteArrayValue_def ism_protocol_getUserValue_def ism_protocol_getMapValue_def ism_protocol_getXidValue_def Let_def
    split: S_Type.splits option.splits Option.bind_splits)

lemma find_name_step:
  assumes rd: "rd_ok a" "int (ca_used a) \<le> 2 ^ 30" and k: "0 \<notin> set k" "0 \<in> set name" and v: "view a = enc_name k @ r"
  defines "a1 \<equiv> adv (length (enc_name k)) a"
  shows "find_name_loop (Suc n) name a =
    (if cstr name = k then map_option (\<lambda>(rc, f, a). (0, f)) (ism_protocol_getObjectValue (Suc n) a1) else find_name_loop n name a1)"
proof -
  obtain b w where e: "enc_name k = b # w" by (cases "enc_name k") (auto simp: text_enc_def)
  have nm: "enc (VT_Name (Some (k @ [0]))) = b # w" using e cstr_append [OF k(1), of "[]"] by (simp add: enc_def)
  have a': "rd_ok (adv 1 a)" "view (adv 1 a) = w @ r" using e v rd_ok_adv [OF rd(1), of 1] view_adv [OF rd(1), of 1] by simp_all
  have "typed_ok skip (VT_Name (Some (k @ [0]))) (adv 1 a) r" for skip
    using a'(1) rd(2) by (intro typed_enc) (simp_all add: readable_def enc_ok_def)
  then have "get_typed skip (unat b) (adv 1 a) = Some (True, VT_Name (Some (k @ [0] @ r @ slack a)), a1)" for skip
    using nm a'(2) e cstr_append [OF k(1), of "[]"] by (simp add: typed_ok_def wire_def a1_def)
  then have ty: "field_type (unat b) = STYPE_Name \<or> field_type (unat b) = STYPE_NameLen"
    and g: "ism_protocol_getNameValue (unat b) (adv 1 a) = Some (Some (k @ [0] @ r @ slack a), a1)" using typed_name by fastforce+
  have "strcmp0 name (k @ [0] @ r @ slack a) = Some (cstr name = k)" using strcmp0_cstr [OF k(2), of "k @ [0] @ r @ slack a"] k(1) by simp
  moreover have "ca_pos a < int (ca_used a)" "get_byte a (ca_pos a) = Some b"
    using pos_less_iff [OF rd(1)] get_byte_view [OF rd(1), of b "w @ r"] v e by auto
  ultimately show ?thesis using ty g by (auto simp del: ism_protocol_getObjectValue.simps)
qed

lemma skip_enc:
  assumes rd: "rd_ok a" "int (ca_used a) \<le> 2 ^ 30" and f: "searchable f" and v: "view a = enc f @ r"
  shows "\<exists>b. get_byte a (ca_pos a) = Some b \<and> ca_pos a < int (ca_used a) \<and> skip_value (unat b) (adv 1 a) = Some (adv (length (enc f)) a) \<and>
    field_type (unat b) \<notin> {STYPE_Bad, STYPE_Name, STYPE_NameLen, STYPE_ID}"
proof -
  have f': "readable f" using f by (simp add: searchable_def)
  obtain b w where e: "enc f = b # w" using enc_Cons [OF f'] by (cases "enc f") auto
  have a': "rd_ok (adv 1 a)" "view (adv 1 a) = w @ r" using e v rd_ok_adv [OF rd(1), of 1] view_adv [OF rd(1), of 1] by simp_all
  have "typed_ok (\<lambda>_. None) f (adv 1 a) r" using a'(1) rd(2) f' by (intro typed_enc) auto
  then have ty: "get_typed (\<lambda>_. None) (unat b) (adv 1 a) = Some (True, wire (r @ slack a) f, adv (length w) (adv 1 a))"
    using e a'(2) by (simp add: typed_ok_def)
  have "int (length (view a)) \<le> 2 ^ 30" using length_view [OF rd(1)] rd by (simp add: rd_ok_def)
  then have sk: "skips (unat b) (length w)" using v e by (intro skips_enc [OF f]) auto
  have "skip_value (unat b) (adv 1 a) = Some (adv (length (enc f)) a)" using skip_value_typed [OF ty sk] e by simp
  moreover have "ca_pos a < int (ca_used a)" "get_byte a (ca_pos a) = Some b"
    using pos_less_iff [OF rd(1)] get_byte_view [OF rd(1), of b "w @ r"] v e by auto
  ultimately show ?thesis using sk by (auto simp: skips_def)
qed

lemma find_skip:
  assumes "rd_ok a" and "int (ca_used a) \<le> 2 ^ 30" and "searchable f" and "view a = enc f @ r"
  shows "find_name_loop (Suc n) name a = find_name_loop n name (adv (length (enc f)) a)"
    and "find_index_loop (Suc n) index a = find_index_loop n index (adv (length (enc f)) a)"
  using skip_enc [OF assms] by auto

lemma find_name_enc:
  assumes name: "0 \<in> set name"
  shows "rd_ok a \<Longrightarrow> int (ca_used a) \<le> 2 ^ 30 \<Longrightarrow> view a = enc_props ps \<Longrightarrow> \<forall>(k, f) \<in> set ps. 0 \<notin> set k \<and> searchable f \<Longrightarrow> 2 * length ps < fuel \<Longrightarrow>
    \<exists>t. find_name_loop fuel name a = Some (case map_of ps (cstr name) of Some f \<Rightarrow> (0, wire t f) | None \<Rightarrow> (1, VT_Null))"
proof (induction ps arbitrary: a fuel)
  case Nil
  then show ?case using pos_less_iff [of a] by (cases fuel) auto
next
  case (Cons e ps)
  obtain k f where e: "e = (k, f)" by (cases e)
  then have k: "0 \<notin> set k" and f: "searchable f" using Cons.prems(4) by auto
  obtain n where fuel: "fuel = Suc (Suc n)" "2 * length ps < n" using Cons.prems(5) by (cases fuel; cases "fuel - 1") auto
  let ?a1 = "adv (length (enc_name k)) a"
  have v: "view a = enc_name k @ enc f @ enc_props ps" using Cons.prems(3) e by simp
  have a1: "rd_ok ?a1" "view ?a1 = enc f @ enc_props ps" "int (ca_used ?a1) \<le> 2 ^ 30"
    using v rd_ok_adv [OF Cons.prems(1)] view_adv [OF Cons.prems(1)] Cons.prems(2) by simp_all
  let ?a2 = "adv (length (enc f)) ?a1"
  have a2: "rd_ok ?a2" "view ?a2 = enc_props ps" "int (ca_used ?a2) \<le> 2 ^ 30" using a1 rd_ok_adv [OF a1(1)] view_adv [OF a1(1)] by simp_all
  note step = find_name_step [OF Cons.prems(1,2) k name v, of "Suc n"]
  show ?case
  proof (cases "cstr name = k")
    case True
    then show ?thesis using step get_object_enc [OF a1(1) _ a1(3,2), of "Suc n"] f e fuel by (auto simp: searchable_def simp del: ism_protocol_getObjectValue.simps find_name_loop.simps)
  next
    case False
    obtain t where t: "find_name_loop n name ?a2 = Some (case map_of ps (cstr name) of Some f \<Rightarrow> (0, wire t f) | None \<Rightarrow> (1, VT_Null))"
      using Cons.IH [OF a2(1,3,2) _ fuel(2)] Cons.prems(4) by auto
    have "find_name_loop fuel name a = Some (case map_of ps (cstr name) of Some f \<Rightarrow> (0, wire t f) | None \<Rightarrow> (1, VT_Null))"
      using step False t fuel(1) find_skip(1) [OF a1(1,3) f a1(2), of n name] by (simp del: find_name_loop.simps)
    then show ?thesis using e False by (intro exI [of _ t]) simp
  qed
qed

text \<open>Properties whose names are indexes of one byte, as \<^verbatim>\<open>ism_protocol_putNameIndex\<close> writes them.\<close>

definition enc_iprops :: "(u8 \<times> ism_field_t) list \<Rightarrow> mem" where
  "enc_iprops ps = concat (map (\<lambda>(i, f). 0x15 # i # enc f) ps)"

lemma enc_iprops_simps [simp]: "enc_iprops [] = []" "enc_iprops ((i, f) # ps) = 0x15 # i # enc f @ enc_iprops ps"
  by (simp_all add: enc_iprops_def)

lemma type_index: "field_type 21 = STYPE_ID"
  by code_simp

lemma find_index_step:
  assumes rd: "rd_ok a" and v: "view a = 0x15 # i # r"
  shows "find_index_loop (Suc n) (ucast j) a =
    (if i = j then map_option (\<lambda>(rc, f, a). (0, f)) (ism_protocol_getObjectValue (Suc n) (adv 2 a)) else find_index_loop n (ucast j) (adv 2 a))"
proof -
  have a': "rd_ok (adv 1 a)" "view (adv 1 a) = [i] @ r" using v rd_ok_adv [OF rd, of 1] view_adv [OF rd, of 1] by simp_all
  have "ism_protocol_getShortValue 21 (adv 1 a) = Some (ucast i, adv 2 a)"
    using get_number_view [OF a'] by (simp add: ism_protocol_getShortValue_def numeral_2_eq_2)
  moreover have "ca_pos a < int (ca_used a)" "get_byte a (ca_pos a) = Some 0x15" using pos_less_iff [OF rd] get_byte_view [OF rd] v by auto
  moreover have "(ucast i :: u32) = ucast j \<longleftrightarrow> i = j"
  proof
    assume "(ucast i :: u32) = ucast j"
    then have "unat (ucast i :: u32) = unat (ucast j :: u32)" by simp
    then have "unat i = unat j" by (simp add: unsigned_ucast_eq take_bit_nat_eq_self order_less_le_trans [OF unsigned_less])
    then show "i = j" by (rule unsigned_word_eqI)
  qed simp
  ultimately show ?thesis by (auto simp: type_index simp del: ism_protocol_getObjectValue.simps)
qed

lemma find_index_enc:
  "rd_ok a \<Longrightarrow> int (ca_used a) \<le> 2 ^ 30 \<Longrightarrow> view a = enc_iprops ps \<Longrightarrow> \<forall>(k, f) \<in> set ps. searchable f \<Longrightarrow> 2 * length ps < fuel \<Longrightarrow>
    \<exists>t. find_index_loop fuel (ucast j) a = Some (case map_of ps j of Some f \<Rightarrow> (0, wire t f) | None \<Rightarrow> (1, VT_Null))"
proof (induction ps arbitrary: a fuel)
  case Nil
  then show ?case using pos_less_iff [of a] by (cases fuel) auto
next
  case (Cons e ps)
  obtain i f where e: "e = (i, f)" by (cases e)
  then have f: "searchable f" using Cons.prems(4) by auto
  obtain n where fuel: "fuel = Suc (Suc n)" "2 * length ps < n" using Cons.prems(5) by (cases fuel; cases "fuel - 1") auto
  have v: "view a = 0x15 # i # enc f @ enc_iprops ps" using Cons.prems(3) e by simp
  have a1: "rd_ok (adv 2 a)" "view (adv 2 a) = enc f @ enc_iprops ps" "int (ca_used (adv 2 a)) \<le> 2 ^ 30"
    using v rd_ok_adv [OF Cons.prems(1)] view_adv [OF Cons.prems(1)] Cons.prems(2) by simp_all
  let ?a2 = "adv (length (enc f)) (adv 2 a)"
  have a2: "rd_ok ?a2" "view ?a2 = enc_iprops ps" "int (ca_used ?a2) \<le> 2 ^ 30" using a1 rd_ok_adv [OF a1(1)] view_adv [OF a1(1)] by simp_all
  note step = find_index_step [OF Cons.prems(1) v, of "Suc n" j]
  show ?case
  proof (cases "i = j")
    case True
    then show ?thesis using step get_object_enc [OF a1(1) _ a1(3,2), of "Suc n"] f e fuel by (auto simp: searchable_def simp del: ism_protocol_getObjectValue.simps find_index_loop.simps)
  next
    case False
    obtain t where t: "find_index_loop n (ucast j) ?a2 = Some (case map_of ps j of Some f \<Rightarrow> (0, wire t f) | None \<Rightarrow> (1, VT_Null))"
      using Cons.IH [OF a2(1,3,2) _ fuel(2)] Cons.prems(4) by auto
    have "find_index_loop fuel (ucast j) a = Some (case map_of ps j of Some f \<Rightarrow> (0, wire t f) | None \<Rightarrow> (1, VT_Null))"
      using step False t fuel(1) find_skip(2) [OF a1(1,3) f a1(2), of n "ucast j"] by (simp del: find_index_loop.simps)
    then show ?thesis using e False by (intro exI [of _ t]) simp
  qed
qed

section \<open>Maps of properties\<close>

lemma set_bytes_written:
  assumes "buf_ok a" and "i + length bs \<le> ca_used a" and "0 < length bs"
  shows "\<exists>a'. set_bytes i bs a = Some a' \<and> buf_ok a' \<and> written a' = take i (written a) @ bs @ drop (i + length bs) (written a) \<and>
    ca_used a' = ca_used a \<and> ca_pos a' = ca_pos a"
proof -
  have "i < ca_used a" using assms(2,3) by linarith
  then show ?thesis using assms(1,2) by (auto simp: set_bytes_def poke_def buf_ok_def written_def drop_take min_def)
qed

lemma set_length:
  assumes "appended a (c # j @ e) a'" and "length bs = length j" and "buf_ok a" and "0 < length j"
  shows "\<exists>a''. set_bytes (ca_used a + 1) bs a' = Some a'' \<and> appended a (c # bs @ e) a''"
proof -
  have len: "length (written a) = ca_used a" using assms(3) by (simp add: buf_ok_def written_def)
  obtain a'' where "set_bytes (ca_used a + 1) bs a' = Some a''" "buf_ok a''" "written a'' = take (ca_used a + 1) (written a') @ bs @ drop (ca_used a + 1 + length bs) (written a')"
    "ca_used a'' = ca_used a'" "ca_pos a'' = ca_pos a'"
    using set_bytes_written [of a' "ca_used a + 1" bs] assms(1,2,4) by (auto simp: appended_def)
  then show ?thesis using assms(1,2) len by (simp add: appended_def)
qed

lemma set_header:
  assumes "buf_ok a" and "4 \<le> room a"
  shows "\<exists>a' j. set_bytes (ca_used a) [c] a = Some a' \<and> length j = 3 \<and> appended a (c # j) (a'\<lparr>ca_used := ca_used a' + 4\<rparr>)"
proof -
  let ?u = "ca_used a"
  let ?b = "take ?u (ca_buf a) @ c # drop (Suc ?u) (ca_buf a)"
  have le: "?u + 4 \<le> length (ca_buf a)" using assms by (auto simp: room_def buf_ok_def)
  have "take (?u + 4) ?b = take ?u (ca_buf a) @ c # take 3 (drop (Suc ?u) (ca_buf a))" using le by simp
  moreover have "set_bytes ?u [c] a = Some (a\<lparr>ca_buf := ?b\<rparr>)" using le by (simp add: set_bytes_def poke_def)
  ultimately show ?thesis using assms le
    by (intro exI [of _ "a\<lparr>ca_buf := ?b\<rparr>"] exI [of _ "take 3 (drop (Suc ?u) (ca_buf a))"]) (simp add: appended_def buf_ok_def written_def)
qed

lemma put_map_enc:
  assumes p: "prop_ok p" "\<forall>(name, f) \<in> set (pr_props p). prop_val f" and al: "allocator_ok alloc" and ok: "buf_ok a"
    and size: "ca_used a + length (enc_props (contents (pr_props p))) + 64 \<le> 2 ^ 30"
  shows "\<exists>a'. ism_protocol_putMapProperties alloc p a = Some a' \<and>
    appended a (0x4B # be_fixed 3 (length (enc_props (contents (pr_props p)))) @ enc_props (contents (pr_props p))) a'"
proof -
  let ?e = "enc_props (contents (pr_props p))"
  obtain a1 where a1: "ensureBuffer alloc 16 a = Some a1" "appended a [] a1" "23 \<le> room a1" using ensureBuffer_ok [OF ok al, of 16] size by auto
  have ok1: "buf_ok a1" and used: "ca_used a1 = ca_used a" using a1(2) by (auto simp: appended_def)
  obtain a2 j where a2: "set_bytes (ca_used a1) [0x4B] a1 = Some a2" "length j = 3" "appended a1 (0x4B # j) (a2\<lparr>ca_used := ca_used a2 + 4\<rparr>)"
    using set_header [OF ok1, of "0x4B"] a1(3) by auto
  obtain a3 where a3: "put_properties alloc p 0 (a2\<lparr>ca_used := ca_used a2 + 4\<rparr>) = Some a3" "appended (a2\<lparr>ca_used := ca_used a2 + 4\<rparr>) ?e a3"
    using put_properties_enc [OF p al appended_ok [OF a2(3)], of 0] size a2 used by (auto simp: appended_def)
  have ap: "appended a (0x4B # j @ ?e) a3" using appended_trans [OF a1(2) appended_trans [OF a2(3) a3(2)]] by simp
  then have len: "ca_used a3 - ca_used a - 4 = length ?e" using a2(2) by (simp add: appended_def)
  have "be_fixed 3 (length ?e) = [of_nat (length ?e div 65536), of_nat (length ?e div 256 mod 256), of_nat (length ?e mod 256)]"
  proof -
    have "(of_nat (length ?e div 65536 mod 256) :: u8) = of_nat (length ?e div 65536)" by (rule unsigned_word_eqI [where ?'a = nat]) (simp add: unat_of_nat)
    then show ?thesis by (simp add: be_fixed_def upt_rec)
  qed
  then obtain a4 where a4: "set_bytes (ca_used a + 1) [of_nat (length ?e div 65536), of_nat (length ?e div 256 mod 256), of_nat (length ?e mod 256)] a3 = Some a4"
    "appended a (0x4B # be_fixed 3 (length ?e) @ ?e) a4" using set_length [OF ap _ ok, of "be_fixed 3 (length ?e)"] a2(2) by auto
  then show ?thesis using a1(1) a2(1) a3(1) used len by (auto simp: ism_protocol_putMapProperties_def ism_protocol_ensureBuffer_def S_Map_def Let_def)
qed

section \<open>Properties of the encoding\<close>

text \<open>
  C16: Writing a value never leaves the buffer and only appends: the earlier content stays, and what is
  appended is the encoding of the value, for every value of every type (also those that cannot be read back).
\<close>

theorem object_written:
  assumes "buf_ok a" and "allocator_ok alloc" and "enc_ok f" and "ca_used a + length (enc f) + 40 \<le> 2 ^ 30"
  shows "\<exists>a'. ism_protocol_putObjectValue alloc f a = Some a' \<and> buf_ok a' \<and> written a' = written a @ enc f \<and> ca_pos a' = ca_pos a"
  using put_object_enc [OF assms] by (auto simp: appended_def)

definition empty_buf :: concat_alloc_t where
  "empty_buf = \<lparr>ca_buf = [9, 9], ca_len = 2, ca_used = 0, ca_pos = 0, ca_inheap = False\<rparr>"

lemma empty_buf_ok: "buf_ok empty_buf" "written empty_buf = []" "ca_used empty_buf = 0" "ca_pos empty_buf = 0"
  by (simp_all add: empty_buf_def buf_ok_def written_def)

lemma some_allocator: "allocator_ok (\<lambda>n. Some (replicate n 0))"
  by (simp add: allocator_ok_def)

theorem object_written_witness:
  "\<exists>a'. ism_protocol_putObjectValue (\<lambda>n. Some (replicate n 0)) (VT_Integer 258) empty_buf = Some a' \<and> written a' = [0x62, 1, 2]"
proof -
  have e: "enc (VT_Integer 258) = [0x62, 1, 2]" by (simp add: enc_def num_enc_def be.simps S_Int_def)
  have "enc_ok (VT_Integer 258)" by (simp add: enc_ok_def)
  then show ?thesis using object_written [OF empty_buf_ok(1) some_allocator, of "VT_Integer 258"] e by (auto simp: empty_buf_ok)
qed

text \<open>
  C11: A value that was written behind the position of a buffer is read back in its wire form, with nothing left over, by any amount of fuel. This is for the
  values that can be read (\<open>readable\<close>): terminated strings, names that are there, data of the given length, no unset value, no 0.0 (it leaves
  bytes over) and no XID of 128 bytes or more (it is read with a negative length). The wire form keeps the type, except
  that an unsigned long comes back as a long and a NULL string as a null value, and cuts numbers to the width of their type; a negative short loses its sign.
\<close>

theorem object_roundtrip:
  assumes "buf_ok a" and "allocator_ok alloc" and "readable f" and "ca_pos a = int (ca_used a)" and "ca_used a + length (enc f) + 40 \<le> 2 ^ 30"
  shows "\<exists>a'. ism_protocol_putObjectValue alloc f a = Some a' \<and>
    (\<forall>fuel. ism_protocol_getObjectValue (Suc fuel) a' = Some (0, wire (slack a') f, a'\<lparr>ca_pos := int (ca_used a')\<rparr>))"
proof -
  have "enc_ok f" using assms(3) by (simp add: readable_def)
  then obtain a' where a': "ism_protocol_putObjectValue alloc f a = Some a'" "appended a (enc f) a'"
    using put_object_enc [OF assms(1,2) _ assms(5)] by blast
  have len: "length (written a) = ca_used a" using assms(1) by (simp add: buf_ok_def written_def)
  have "view a' = enc f" using a'(2) assms(4) len by (simp add: appended_def view_def)
  moreover have "rd_ok a'" using a'(2) assms(4) by (simp add: appended_def rd_ok_def)
  moreover have "adv (length (enc f)) a' = a'\<lparr>ca_pos := int (ca_used a')\<rparr>" using a'(2) assms(4) by (simp add: appended_def adv_def)
  moreover have "int (ca_used a') \<le> 2 ^ 30" using a'(2) assms(5) by (simp add: appended_def)
  ultimately have "ism_protocol_getObjectValue (Suc fuel) a' = Some (0, wire (slack a') f, a'\<lparr>ca_pos := int (ca_used a')\<rparr>)" for fuel
    using get_object_enc [of a' f "[]" fuel] assms(3) by (simp del: ism_protocol_getObjectValue.simps)
  then show ?thesis using a'(1) by blast
qed

theorem object_roundtrip_witness:
  "\<exists>a'. ism_protocol_putObjectValue (\<lambda>n. Some (replicate n 0)) (VT_Long (- 5)) empty_buf = Some a' \<and>
    ism_protocol_getObjectValue 1 a' = Some (0, VT_Long (- 5), a'\<lparr>ca_pos := int (ca_used a')\<rparr>)"
proof -
  have "length (enc (VT_Long (- 5))) \<le> 9" unfolding enc_def ism_field_t.case by (rule length_num_enc64)
  moreover have "readable (VT_Long (- 5))" by (simp add: readable_def enc_ok_def)
  ultimately show ?thesis using object_roundtrip [OF empty_buf_ok(1) some_allocator, of "VT_Long (- 5)"]
    by (fastforce simp: empty_buf_ok wire_def simp del: ism_protocol_getObjectValue.simps)
qed

text \<open>
  C10: Properties that are serialized into an empty buffer and deserialized into a new object give a sound object with exactly the same names,
  each with a copy of the wire form of its value; all of the buffer is read, and fuel for one more step than there are properties is enough. No value may
  be unset, a name, a 0.0 or an XID of 128 bytes or more, and the sizes are limited: at most \<open>2 ^ 30\<close> bytes of encoding and 44 million properties.
\<close>

theorem properties_roundtrip:
  assumes "prop_ok p" and "\<forall>(name, f) \<in> set (pr_props p). prop_val f" and "allocator_ok alloc"
    and "buf_ok a" and "ca_used a = 0" and "ca_pos a = 0" and "length (enc_props (contents (pr_props p))) + 60 \<le> 2 ^ 30" and "length (pr_props p) < fuel"
    and "length (pr_props p) \<le> 44000000" and "count < 2 ^ 25 - 1"
  shows "\<exists>a' q q'. ism_protocol_serializeProperties alloc p a = Some (0, a') \<and> ism_common_newProperties (\<lambda>_. True) count = Some q \<and>
    ism_protocol_deserializeProperties fuel (\<lambda>_. True) a' q = Some (0, a'\<lparr>ca_pos := int (ca_used a')\<rparr>, q') \<and> prop_ok q' \<and>
    (\<forall>k. prop_get q' k = map_option kept (prop_get p k))"
proof -
  let ?ps = "contents (pr_props p)"
  obtain a' where a': "put_properties alloc p 0 a = Some a'" "appended a (enc_props ?ps) a'"
    using put_properties_enc [OF assms(1-4), of 0] assms(5,7) by auto
  obtain q where q: "ism_common_newProperties (\<lambda>_. True) count = Some q" "prop_ok q" "prop_get q = (\<lambda>_. None)" "pr_props q = []" using new_ok [OF assms(10)] by blast
  have "written a = []" using assms(5) by (simp add: written_def)
  then have a2: "rd_ok a'" "view a' = enc_props ?ps" "int (ca_used a') \<le> 2 ^ 30" "adv (length (enc_props ?ps)) a' = a'\<lparr>ca_pos := int (ca_used a')\<rparr>"
    using a'(2) assms(5-7) by (simp_all add: appended_def rd_ok_def view_def adv_def)
  have "\<forall>(k, f) \<in> set ?ps. 0 \<notin> set k \<and> prop_val f" using assms(2) by (auto simp: contents_def)
  moreover have "length ?ps < fuel" using assms(8) by (simp add: contents_def)
  moreover have "prop_room (length ?ps) q" using assms(9) q(4) by (simp add: prop_room_def contents_def)
  ultimately obtain q' where q': "get_properties fuel (\<lambda>_. True) a' q = Some (a'\<lparr>ca_pos := int (ca_used a')\<rparr>, q')" "prop_ok q'"
    "prop_get q' = fold (\<lambda>(k, f) g. g(k \<mapsto> kept f)) ?ps (prop_get q)"
    using get_properties_enc [OF _ a2(1,3,2) _ q(2), of fuel] unfolding a2(4) by blast
  have "distinct (map fst ?ps)" using assms(1) unfolding contents_fst by (simp add: prop_ok_def)
  then have "prop_get q' k = map_option kept (prop_get p k)" for k
    using fold_upd_distinct [of ?ps kept "prop_get q" k] q(3) q'(3) by (auto simp: prop_get_def [of p] split: option.splits)
  then show ?thesis using a'(1) q(1) q'(1,2)
    by (intro exI [of _ a'] exI [of _ q] exI [of _ q']) (simp add: ism_protocol_serializeProperties_def ism_protocol_deserializeProperties_def)
qed

definition one_prop :: "ism_field_t \<Rightarrow> ism_prop_t" where
  "one_prop f = (the (ism_common_newProperties (\<lambda>_. True) 5))\<lparr>pr_props := [([65, 0], f)]\<rparr>"

lemma one_prop_ok: "prop_ok (one_prop f)" "pr_props (one_prop f) = [([65, 0], f)]" "contents (pr_props (one_prop f)) = [([65], f)]"
  by (simp_all add: one_prop_def ism_common_newProperties_def Let_def prop_ok_def subs_ok_def sizeof_propent_def sizeof_prop_def contents_def cstr_def)

lemma length_enc_name: "length k < 2 ^ 20 \<Longrightarrow> length (enc_name k) \<le> length k + 6"
  using length_text_head [of "Suc (length k)" S_Name S_NameMax S_NameLen] by (simp add: text_enc_def)

theorem properties_roundtrip_witness:
  "\<exists>a' q q'. ism_protocol_serializeProperties (\<lambda>n. Some (replicate n 0)) (one_prop (VT_ULong 7)) empty_buf = Some (0, a') \<and>
    ism_protocol_deserializeProperties 2 (\<lambda>_. True) a' q = Some (0, a'\<lparr>ca_pos := int (ca_used a')\<rparr>, q') \<and> prop_get q' [65] = Some (VT_Long 7)"
proof -
  have v: "prop_val (VT_ULong 7)" by (simp add: prop_val_def readable_def enc_ok_def)
  have "length (enc (VT_ULong 7)) \<le> 9" unfolding enc_def ism_field_t.case by (rule length_num_enc64)
  then have len: "length (enc_props (contents (pr_props (one_prop (VT_ULong 7))))) + 60 \<le> 2 ^ 30"
    using length_enc_name [of "[65]"] by (simp add: one_prop_ok(3))
  have "prop_get (one_prop (VT_ULong 7)) [65] = Some (VT_ULong 7)" by (simp add: prop_get_def one_prop_ok(3))
  moreover have "kept (VT_ULong 7) = VT_Long 7" by (simp add: kept_def wire_def stored_field_def)
  moreover have "\<forall>(name, f) \<in> set (pr_props (one_prop (VT_ULong 7))). prop_val f" "length (pr_props (one_prop (VT_ULong 7))) < 2"
    "length (pr_props (one_prop (VT_ULong 7))) \<le> 44000000" "(5 :: nat) < 2 ^ 25 - 1"
    using v by (simp_all add: one_prop_ok(2))
  moreover note properties_roundtrip [OF one_prop_ok(1) this(1) some_allocator empty_buf_ok(1,3,4) len this(2-4)]
  ultimately show ?thesis by (elim exE conjE) (metis option.map(2))
qed

text \<open>
  C15: A search by name in serialized properties, or by index in properties with one-byte indexes, ends and finds the first property of that
  name, with the wire form of its value, or reports that there is none; fuel for two steps per property and one more is enough. This is for
  properties whose values a search can step over (\<open>searchable\<close>): none of them is an unsigned integer, a character, a name, a name index, a 0.0, an
  unset value or an XID of 128 bytes or more.
\<close>

theorem find_property:
  assumes "buf_ok a" and "ca_used a \<le> 2 ^ 30" and "0 \<in> set name"
    and "\<forall>(k, f) \<in> set ps. 0 \<notin> set k \<and> searchable f" and "\<forall>(i, f) \<in> set ips. searchable f"
    and "2 * length ps < fuel" and "2 * length ips < fuel"
  shows "(written a = enc_props ps \<longrightarrow> (\<exists>t. ism_findPropertyName fuel (Some a) (Name_Str name) =
      Some (case map_of ps (cstr name) of Some f \<Rightarrow> (0, Some (wire t f)) | None \<Rightarrow> (1, Some VT_Null)))) \<and>
    (written a = enc_iprops ips \<longrightarrow> (\<exists>t. ism_findPropertyName fuel (Some a) (Name_Index (ucast (i :: u8))) =
      Some (case map_of ips i of Some f \<Rightarrow> (0, Some (wire t f)) | None \<Rightarrow> (1, Some VT_Null))))"
proof (intro conjI impI)
  have a: "rd_ok (a\<lparr>ca_pos := 0\<rparr>)" "view (a\<lparr>ca_pos := 0\<rparr>) = written a" "int (ca_used (a\<lparr>ca_pos := 0\<rparr>)) \<le> 2 ^ 30"
    using assms(1,2) by (simp_all add: rd_ok_def view_def buf_ok_def written_def)
  {
    assume "written a = enc_props ps"
    then obtain t where "find_name_loop fuel name (a\<lparr>ca_pos := 0\<rparr>) = Some (case map_of ps (cstr name) of Some f \<Rightarrow> (0, wire t f) | None \<Rightarrow> (1, VT_Null))"
      using find_name_enc [OF assms(3) a(1,3), of ps fuel] a(2) assms(4,6) by auto
    then show "\<exists>t. ism_findPropertyName fuel (Some a) (Name_Str name) = Some (case map_of ps (cstr name) of Some f \<Rightarrow> (0, Some (wire t f)) | None \<Rightarrow> (1, Some VT_Null))"
      by (intro exI [of _ t]) (simp add: ism_findPropertyName_def split: option.splits)
  next
    assume "written a = enc_iprops ips"
    then obtain t where "find_index_loop fuel (ucast i) (a\<lparr>ca_pos := 0\<rparr>) = Some (case map_of ips i of Some f \<Rightarrow> (0, wire t f) | None \<Rightarrow> (1, VT_Null))"
      using find_index_enc [OF a(1,3), of ips fuel i] a(2) assms(5,7) by auto
    then show "\<exists>t. ism_findPropertyName fuel (Some a) (Name_Index (ucast i)) = Some (case map_of ips i of Some f \<Rightarrow> (0, Some (wire t f)) | None \<Rightarrow> (1, Some VT_Null))"
      by (intro exI [of _ t]) (simp add: ism_findPropertyName_def ism_findPropertyNameIndex_def split: option.splits)
  }
qed

definition found_buf :: concat_alloc_t where
  "found_buf = \<lparr>ca_buf = [0xA2, 65, 0, 0x61, 7], ca_len = 5, ca_used = 5, ca_pos = 3, ca_inheap = False\<rparr>"

theorem find_property_witness:
  "ism_findPropertyName 3 (Some found_buf) (Name_Str [65, 0]) = Some (0, Some (VT_Integer 7)) \<and>
   ism_findPropertyName 3 (Some found_buf) (Name_Str [66, 0]) = Some (1, Some VT_Null)"
proof -
  have w: "written found_buf = enc_props [([65], VT_Integer 7)]"
    by (simp add: found_buf_def written_def enc_def text_enc_def text_head_def num_enc_def be.simps S_Name_def S_NameMax_def S_Int_def)
  have ok: "buf_ok found_buf" "ca_used found_buf \<le> 2 ^ 30" by (simp_all add: found_buf_def buf_ok_def)
  have s: "searchable (VT_Integer 7)" by (simp add: searchable_def readable_def enc_ok_def)
  show ?thesis
    using find_property [OF ok, of "[65, 0]" "[([65], VT_Integer 7)]" "[]" 3] find_property [OF ok, of "[66, 0]" "[([65], VT_Integer 7)]" "[]" 3] w s
    by (simp add: cstr_def wire_def)
qed

lemma type_map3: "field_type 75 = STYPE_Map"
  by code_simp

lemma be_fixed_mod: "be_fixed k n = be_fixed k (n mod 256 ^ k)"
proof -
  have "n mod 256 ^ k div 256 ^ i mod 256 = n div 256 ^ i mod 256" if "i < k" for i
  proof -
    have "256 ^ k = 256 ^ i * (256 :: nat) ^ (k - i)" using that by (simp flip: power_add)
    then have "n mod 256 ^ k div 256 ^ i = n div 256 ^ i mod 256 ^ (k - i)" by (simp add: mod_mult2_eq)
    moreover have "(256 :: nat) dvd 256 ^ (k - i)" using that by (intro dvd_power) simp
    ultimately show ?thesis by (simp add: mod_mod_cancel)
  qed
  then show ?thesis by (simp add: be_fixed_def)
qed

lemma get_map3:
  assumes rd: "rd_ok a" and v: "view a = 0x4B # be_fixed 3 m @ e" and m: "m < 2 ^ 24" "m \<le> length e" and used: "int (ca_used a) \<le> 2 ^ 30"
  shows "ism_protocol_getObjectValue (Suc fuel) a = Some (0, VT_Map (e @ slack a) (of_nat m), adv (4 + m) a)"
proof -
  have a1: "rd_ok (adv 1 a)" "view (adv 1 a) = be_fixed 3 m @ e" using rd_ok_adv [OF rd, of 1] view_adv [OF rd, of 1] v by simp_all
  have a4: "rd_ok (adv 4 a)" "view (adv 4 a) = e" using rd_ok_adv [OF rd, of 4] view_adv [OF rd, of 4] v by simp_all
  have "of_be 0 (be_fixed 3 m) = (of_nat m :: u32)" using m(1) by (intro be_fixed_eq_be) simp
  then have num: "get_number 3 (adv 1 a) = Some (of_nat m :: u32, adv 4 a)" using get_number_view [OF a1, where ?'a = 32] by simp
  have sl: "sint (of_nat m :: u32) = int m" using m(1) by (subst sint_small) (simp_all add: unat_of_nat)
  have "int m \<le> int (ca_used a) - ca_pos a - 4" using length_view [OF rd] v m(2) by simp
  then have sk: "skip_data (int m) (adv 4 a) = Some (adv m (adv 4 a))" using used by (simp add: skip_data_def adv_def INT_MAX_def)
  have "buf_ptr (adv 4 a) (ca_pos (adv 4 a)) = e @ slack a" using buf_ptr_view [OF a4(1)] a4(2) by simp
  then have "get_typed skip 75 (adv 1 a) = Some (True, VT_Map (e @ slack a) (of_nat m), adv (4 + m) a)" for skip
    using num sl sk by (simp add: get_typed_def type_map3 ism_protocol_getMapValue_def ism_protocol_getIntValue_def)
  moreover have "get_byte a (ca_pos a) = Some 0x4B" "ca_pos a < int (ca_used a)" using get_byte_view [OF rd] pos_less_iff [OF rd] v by auto
  moreover have "0 \<le> ca_pos a" using rd by (simp add: rd_ok_def)
  ultimately show ?thesis by simp
qed

text \<open>
  C24: A properties object written as a map is read back as a map value that points at the serialized properties. The length has
  three bytes and is not checked: the whole map is covered exactly if it is shorter than \<open>2 ^ 24\<close>.
\<close>

theorem map_roundtrip:
  assumes "prop_ok p" and "\<forall>(name, f) \<in> set (pr_props p). prop_val f" and "allocator_ok alloc" and "buf_ok a" and "ca_pos a = int (ca_used a)"
    and "ca_used a + length (enc_props (contents (pr_props p))) + 64 \<le> 2 ^ 30"
  shows "\<exists>a'. ism_protocol_putMapProperties alloc p a = Some a' \<and> ca_used a' = ca_used a + 4 + length (enc_props (contents (pr_props p))) \<and>
    (\<forall>fuel. ism_protocol_getObjectValue (Suc fuel) a' =
      Some (0, VT_Map (enc_props (contents (pr_props p)) @ slack a') (of_nat (length (enc_props (contents (pr_props p))) mod 2 ^ 24)),
        a'\<lparr>ca_pos := ca_pos a + 4 + int (length (enc_props (contents (pr_props p))) mod 2 ^ 24)\<rparr>))"
proof -
  let ?e = "enc_props (contents (pr_props p))"
  let ?m = "length ?e mod 2 ^ 24"
  obtain a' where a': "ism_protocol_putMapProperties alloc p a = Some a'" "appended a (0x4B # be_fixed 3 (length ?e) @ ?e) a'"
    using put_map_enc [OF assms(1-4,6)] by blast
  have len: "length (written a) = ca_used a" using assms(4) by (simp add: buf_ok_def written_def)
  have rd: "rd_ok a'" and v: "view a' = 0x4B # be_fixed 3 ?m @ ?e" and used: "ca_used a' = ca_used a + 4 + length ?e"
    using a'(2) assms(5) len be_fixed_mod [of 3 "length ?e"] by (simp_all add: appended_def rd_ok_def view_def)
  have "int (ca_used a') \<le> 2 ^ 30" using used assms(6) by simp
  note get_map3 [OF rd v _ _ this]
  moreover have "adv (4 + ?m) a' = a'\<lparr>ca_pos := ca_pos a + 4 + int ?m\<rparr>" using a'(2) by (simp add: appended_def adv_def)
  ultimately show ?thesis using a'(1) used by (intro exI [of _ a']) (simp del: ism_protocol_getObjectValue.simps)
qed

theorem map_roundtrip_witness:
  "\<exists>a' s. ism_protocol_putMapProperties (\<lambda>n. Some (replicate n 0)) (one_prop (VT_Integer 7)) empty_buf = Some a' \<and>
    ism_protocol_getObjectValue 1 a' = Some (0, VT_Map ([0xA2, 65, 0, 0x61, 7] @ s) 5, a'\<lparr>ca_pos := 9\<rparr>)"
proof -
  have e: "enc_props (contents (pr_props (one_prop (VT_Integer 7)))) = [0xA2, 65, 0, 0x61, 7]"
    by (simp add: one_prop_ok(3) enc_def text_enc_def text_head_def num_enc_def be.simps S_Name_def S_NameMax_def S_Int_def)
  have "prop_val (VT_Integer 7)" by (simp add: prop_val_def readable_def enc_ok_def)
  then have "\<forall>(name, f) \<in> set (pr_props (one_prop (VT_Integer 7))). prop_val f" by (simp add: one_prop_ok(2))
  from map_roundtrip [OF one_prop_ok(1) this some_allocator empty_buf_ok(1), unfolded e empty_buf_ok]
  show ?thesis by (fastforce simp del: ism_protocol_getObjectValue.simps)
qed

lemma get_zero:
  assumes "rd_ok a" and "view a = b # r" and "field_type (unat b) = STYPE_Float \<or> field_type (unat b) = STYPE_Double" and "unat b mod 2 = 0"
  shows "ism_protocol_getObjectValue (Suc fuel) a = Some (0, if field_type (unat b) = STYPE_Float then VT_Float 0 else VT_Double 0, adv 1 a)"
proof -
  have "get_byte a (ca_pos a) = Some b" "ca_pos a < int (ca_used a)" using get_byte_view [OF assms(1,2)] pos_less_iff [OF assms(1)] assms(2) by auto
  moreover have "0 \<le> ca_pos a" using assms(1) by (simp add: rd_ok_def)
  ultimately show ?thesis using assms(3,4) by (auto simp: get_typed_def ism_protocol_getFloatValue_def ism_protocol_getDoubleValue_def)
qed

lemma enc_zero: "enc (VT_Float 0) = [4, 0, 0, 0, 0]" "enc (VT_Double 0) = [6, 0, 0, 0, 0, 0, 0, 0, 0]"
  by (simp_all add: enc_def be_fixed_def upt_rec)

lemma put_zero:
  assumes "buf_ok a" and "allocator_ok alloc" and "ca_pos a = int (ca_used a)" and "ca_used a + 60 \<le> 2 ^ 30"
    and f: "f = VT_Float 0 \<or> f = VT_Double 0"
  shows "\<exists>a'. ism_protocol_putObjectValue alloc f a = Some a' \<and> written a' = written a @ enc f \<and>
      (\<forall>fuel. ism_protocol_getObjectValue (Suc fuel) a' = Some (0, f, a'\<lparr>ca_pos := int (ca_used a') - int (length (enc f) - 1)\<rparr>))"
proof -
  have "enc_ok f" "length (enc f) \<le> 9" using f by (auto simp: enc_ok_def enc_zero)
  then obtain a' where a': "ism_protocol_putObjectValue alloc f a = Some a'" "appended a (enc f) a'"
    using put_object_enc [OF assms(1,2), of f] assms(4) by auto
  have len: "length (written a) = ca_used a" using assms(1) by (simp add: buf_ok_def written_def)
  have rd: "rd_ok a'" and v: "view a' = enc f" using a'(2) assms(3) len by (simp_all add: appended_def rd_ok_def view_def)
  have "ism_protocol_getObjectValue (Suc fuel) a' = Some (0, f, adv 1 a')" for fuel
    using f get_zero [OF rd, of 4 "[0, 0, 0, 0]" fuel] get_zero [OF rd, of 6 "[0, 0, 0, 0, 0, 0, 0, 0]" fuel] v
    by (auto simp: enc_zero type_singles simp del: ism_protocol_getObjectValue.simps)
  moreover have "adv 1 a' = a'\<lparr>ca_pos := int (ca_used a') - int (length (enc f) - 1)\<rparr>"
    using a'(2) assms(3) f by (auto simp: appended_def adv_def enc_zero)
  ultimately show ?thesis using a' by (auto simp: appended_def simp del: ism_protocol_getObjectValue.simps)
qed

text \<open>
  C36: A 0.0 is written with all its bytes but read as its type byte only: the four or eight bytes of its value
  are left in front of the reader, as if they were the next values.
\<close>

theorem zero_value_desync:
  assumes "buf_ok a" and "allocator_ok alloc" and "ca_pos a = int (ca_used a)" and "ca_used a + 60 \<le> 2 ^ 30"
  shows "(\<exists>a'. ism_protocol_putObjectValue alloc (VT_Float 0) a = Some a' \<and> written a' = written a @ [4, 0, 0, 0, 0] \<and>
      (\<forall>fuel. ism_protocol_getObjectValue (Suc fuel) a' = Some (0, VT_Float 0, a'\<lparr>ca_pos := int (ca_used a') - 4\<rparr>))) \<and>
    (\<exists>a'. ism_protocol_putObjectValue alloc (VT_Double 0) a = Some a' \<and> written a' = written a @ [6, 0, 0, 0, 0, 0, 0, 0, 0] \<and>
      (\<forall>fuel. ism_protocol_getObjectValue (Suc fuel) a' = Some (0, VT_Double 0, a'\<lparr>ca_pos := int (ca_used a') - 8\<rparr>)))"
  using put_zero [OF assms, of "VT_Float 0"] put_zero [OF assms, of "VT_Double 0"] by (simp add: enc_zero del: ism_protocol_getObjectValue.simps)

theorem zero_value_desync_witness:
  "\<exists>a'. ism_protocol_putObjectValue (\<lambda>n. Some (replicate n 0)) (VT_Float 0) empty_buf = Some a' \<and> written a' = [4, 0, 0, 0, 0] \<and>
    ism_protocol_getObjectValue 1 a' = Some (0, VT_Float 0, a'\<lparr>ca_pos := int (ca_used a') - 4\<rparr>)"
  using zero_value_desync [OF empty_buf_ok(1) some_allocator] by (auto simp: empty_buf_ok simp del: ism_protocol_getObjectValue.simps)

lemma find_zero: "rd_ok a \<Longrightarrow> view a = 4 # 0 # r \<Longrightarrow> find_name_loop (Suc (Suc n)) name a = Some (1, VT_Null)"
proof -
  assume a: "rd_ok a" "view a = 4 # 0 # r"
  have a1: "rd_ok (adv 1 a)" "view (adv 1 a) = 0 # r" using rd_ok_adv [OF a(1), of 1] view_adv [OF a(1), of 1] a(2) by simp_all
  have "field_type 0 = STYPE_Bad" "field_len 4 = 1" by code_simp+
  then show ?thesis using get_byte_view [OF a] get_byte_view [OF a1] pos_less_iff [OF a(1)] pos_less_iff [OF a1(1)] a(2) a1(2)
    by (simp add: skip_value_def type_singles)
qed

lemma find_uint: "rd_ok a \<Longrightarrow> view a = 0x68 # r \<Longrightarrow> find_name_loop n name a = None"
proof (induction n)
  case (Suc n)
  have ty: "field_type 104 = STYPE_UInt" "field_len 104 = 0" by code_simp+
  then have "skip_value 104 (adv 1 a) = Some a" unfolding skip_value_def adv_def by (simp del: adv_simps)
  then show ?case using Suc ty(1) get_byte_view [OF Suc.prems] pos_less_iff [OF Suc.prems(1)] by simp
qed simp

text \<open>
  C37: A search by name stops at a 0.0, and does not find the properties behind it; and it never ends when it
  comes to an unsigned integer 0, whose length in the table of lengths is 0, so that the position is not moved.
\<close>

theorem search_stopped:
  assumes "buf_ok a" and "ca_used a \<le> 2 ^ 30" and "0 \<notin> set k" and "0 \<in> set name" and "cstr name \<noteq> k"
  shows "(written a = enc_props ((k, VT_Float 0) # ps) \<longrightarrow> ism_findPropertyName (fuel + 3) (Some a) (Name_Str name) = Some (1, Some VT_Null)) \<and>
    (written a = enc_props ((k, VT_UInt 0) # ps) \<longrightarrow> ism_findPropertyName fuel (Some a) (Name_Str name) = None)"
proof -
  let ?a = "a\<lparr>ca_pos := 0\<rparr>" and ?a1 = "adv (length (enc_name k)) (a\<lparr>ca_pos := 0\<rparr>)"
  have a: "rd_ok ?a" "view ?a = written a" "int (ca_used ?a) \<le> 2 ^ 30" using assms(1,2) by (simp_all add: rd_ok_def view_def buf_ok_def written_def)
  have step: "find_name_loop (Suc n) name ?a = find_name_loop n name ?a1" "rd_ok ?a1" "view ?a1 = r" if "written a = enc_name k @ r" for n r
    using find_name_step [OF a(1,3) assms(3,4), of r n] rd_ok_adv [OF a(1)] view_adv [OF a(1)] a(2) that assms(5) by (simp_all del: find_name_loop.simps)
  have uint: "enc (VT_UInt 0) = [0x68]" by (simp add: enc_def num_enc_def S_UInt_def)
  have "ism_findPropertyName (fuel + 3) (Some a) (Name_Str name) = Some (1, Some VT_Null)" if "written a = enc_props ((k, VT_Float 0) # ps)"
    using step(1) [where n = "Suc (Suc fuel)"] step(2,3) find_zero [of ?a1 _ fuel name] that by (simp add: ism_findPropertyName_def enc_zero eval_nat_numeral del: find_name_loop.simps)
  moreover have "ism_findPropertyName fuel (Some a) (Name_Str name) = None" if "written a = enc_props ((k, VT_UInt 0) # ps)"
    using step find_uint [of ?a1 _ _ name] that by (cases fuel) (simp_all add: ism_findPropertyName_def uint del: find_name_loop.simps(2))
  ultimately show ?thesis by blast
qed

definition stopped_buf :: "mem \<Rightarrow> concat_alloc_t" where
  "stopped_buf bs = \<lparr>ca_buf = bs, ca_len = length bs, ca_used = length bs, ca_pos = 0, ca_inheap = False\<rparr>"

theorem search_stopped_witness:
  "ism_findPropertyName 5 (Some (stopped_buf [0xA2, 65, 0, 4, 0, 0, 0, 0, 0xA2, 66, 0, 0x61, 7])) (Name_Str [66, 0]) = Some (1, Some VT_Null) \<and>
   (\<forall>fuel. ism_findPropertyName fuel (Some (stopped_buf [0xA2, 65, 0, 0x68, 0xA2, 66, 0, 0x61, 7])) (Name_Str [66, 0]) = None)"
proof -
  have name: "enc_name [c] = [0xA2, c, 0]" for c by (simp add: text_enc_def text_head_def S_Name_def S_NameMax_def)
  have num: "enc (VT_Integer 7) = [0x61, 7]" "enc (VT_UInt 0) = [0x68]" by (simp_all add: enc_def num_enc_def be.simps S_Int_def S_UInt_def)
  let ?b1 = "stopped_buf [0xA2, 65, 0, 4, 0, 0, 0, 0, 0xA2, 66, 0, 0x61, 7]" and ?b2 = "stopped_buf [0xA2, 65, 0, 0x68, 0xA2, 66, 0, 0x61, 7]"
  have ok: "buf_ok (stopped_buf bs)" "written (stopped_buf bs) = bs" "ca_used (stopped_buf bs) = length bs" for bs
    by (simp_all add: stopped_buf_def buf_ok_def written_def)
  have c: "cstr [66, 0] \<noteq> [65]" by (simp add: cstr_def)
  have "written ?b1 = enc_props (([65], VT_Float 0) # [([66], VT_Integer 7)])" "written ?b2 = enc_props (([65], VT_UInt 0) # [([66], VT_Integer 7)])"
    by (simp_all add: ok name num enc_zero)
  moreover have "ca_used ?b1 \<le> 2 ^ 30" "ca_used ?b2 \<le> 2 ^ 30" by (simp_all add: ok)
  ultimately show ?thesis
    using search_stopped [OF ok(1) _ _ _ c, of _ "[([66], VT_Integer 7)]" 2] search_stopped [OF ok(1) _ _ _ c, of _ "[([66], VT_Integer 7)]"] by simp
qed

lemma sint_u8_negative:
  assumes "128 \<le> unat (b :: u8)"
  shows "sint b = int (unat b) - 256"
proof -
  have "\<forall>n \<in> set [128..<256]. sint (of_nat n :: u8) = int n - 256" by code_simp
  moreover have "unat b \<in> set [128..<256]" unfolding set_upt using assms unsigned_less [of b, where ?'a = nat] by (simp only: atLeastLessThan_iff) simp
  ultimately have "sint (of_nat (unat b) :: u8) = int (unat b) - 256" by blast
  then show ?thesis by simp
qed

text \<open>
  C38: The length byte of an XID is read as a signed number: an XID of 128 bytes or more (up to 134 are allowed) is read with a
  negative length, and the position is moved back by up to 128 bytes instead of behind the XID.
\<close>

theorem long_xid_moves_back:
  assumes "buf_ok a" and "allocator_ok alloc" and "bytes_ok s len" and "128 \<le> unat len" and "unat len < 256"
    and "ca_pos a = int (ca_used a)" and "ca_used a + 500 \<le> 2 ^ 30"
  shows "\<exists>a'. ism_protocol_putObjectValue alloc (VT_Xid s len) a = Some a' \<and> (\<forall>fuel. ism_protocol_getObjectValue (Suc fuel) a' =
    Some (if ca_pos a + int (unat len) < 254 then - 3 else 0, VT_Xid (take (unat len) s @ slack a') (word_of_int (int (unat len) - 256)),
      a'\<lparr>ca_pos := ca_pos a + 2 + int (unat len) - 256\<rparr>))"
proof -
  let ?f = "VT_Xid s len"
  have e: "enc ?f = 94 # ucast len # take (unat len) s" by (simp add: enc_def)
  have l: "length (take (unat len) s) = unat len" using assms(3) by (simp add: bytes_ok_def)
  have "enc_ok ?f" using assms(3) by (simp add: enc_ok_def)
  then obtain a' where a': "ism_protocol_putObjectValue alloc ?f a = Some a'" "appended a (enc ?f) a'"
    using put_object_enc [OF assms(1,2), of ?f] assms(5,7) e l by auto
  have wl: "length (written a) = ca_used a" using assms(1) by (simp add: buf_ok_def written_def)
  have rd: "rd_ok a'" and v: "view a' = 94 # ucast len # take (unat len) s" using a'(2) assms(6) wl e by (simp_all add: appended_def rd_ok_def view_def)
  have a1: "rd_ok (adv 1 a')" "view (adv 1 a') = ucast len # take (unat len) s" and a2: "rd_ok (adv 2 a')" "view (adv 2 a') = take (unat len) s"
    using rd_ok_adv [OF rd, of 1] view_adv [OF rd, of 1] rd_ok_adv [OF rd, of 2] view_adv [OF rd, of 2] v by simp_all
  have si: "sint (ucast len :: u8) = int (unat len) - 256"
    using sint_u8_negative [of "ucast len"] assms(4,5) by (simp add: unat_ucast_small)
  have pos: "ca_pos a' = ca_pos a" using a'(2) by (simp add: appended_def)
  have sk: "skip_data (int (unat len) - 256) (adv 2 a') = Some (a'\<lparr>ca_pos := ca_pos a + 2 + int (unat len) - 256\<rparr>)"
    using assms(5-7) pos by (simp add: skip_data_def adv_def INT_MAX_def del: adv_simps of_nat_unat)
  define len' :: u32 where "len' = word_of_int (int (unat len) - 256)"
  have sc: "scast (ucast len :: u8) = len'" unfolding scast_eq si len'_def ..
  have two: "adv 1 a'\<lparr>ca_pos := ca_pos (adv 1 a') + 1\<rparr> = adv 2 a'" by (simp add: adv_def del: adv_simps)
  have "buf_ptr (adv 2 a') (ca_pos (adv 2 a')) = take (unat len) s @ slack a'" using buf_ptr_view [OF a2(1)] a2(2) by simp
  then have "ism_protocol_getXidValue (adv 1 a') = Some (0, VT_Xid (take (unat len) s @ slack a') len', a'\<lparr>ca_pos := ca_pos a + 2 + int (unat len) - 256\<rparr>)"
    by (simp only: ism_protocol_getXidValue_def get_byte_view [OF a1] Let_def two sk si sc Option.bind.simps)
  then have ty: "get_typed skip 94 (adv 1 a') = Some (True, VT_Xid (take (unat len) s @ slack a') len', a'\<lparr>ca_pos := ca_pos a + 2 + int (unat len) - 256\<rparr>)" for skip
    by (simp add: get_typed_def type_singles del: of_nat_unat)
  have "get_byte a' (ca_pos a') = Some 94" "ca_pos a' < int (ca_used a')" using get_byte_view [OF rd v] pos_less_iff [OF rd] v by auto
  then have "ism_protocol_getObjectValue (Suc fuel) a' = Some (if ca_pos a + int (unat len) < 254 then - 3 else 0,
      VT_Xid (take (unat len) s @ slack a') len', a'\<lparr>ca_pos := ca_pos a + 2 + int (unat len) - 256\<rparr>)" for fuel
    using ty by (auto simp del: of_nat_unat)
  then show ?thesis using a'(1) unfolding len'_def by blast
qed

theorem long_xid_moves_back_witness:
  "\<exists>a'. ism_protocol_putObjectValue (\<lambda>n. Some (replicate n 0)) (VT_Xid (replicate 134 1) 134) empty_buf = Some a' \<and>
    (\<exists>f. ism_protocol_getObjectValue 1 a' = Some (- 3, f, a'\<lparr>ca_pos := - 120\<rparr>))"
  using long_xid_moves_back [OF empty_buf_ok(1) some_allocator, of "replicate 134 1" 134]
  by (fastforce simp: bytes_ok_def empty_buf_ok simp del: ism_protocol_getObjectValue.simps)

end
