(* ===== verification/WaiterStatus.thy ===== *)
theory WaiterStatus
  imports Prelude
begin

text \<open>
  The status word of a consumer on a queue, \<^verbatim>\<open>src/server_engine/src/waiterStatus.c\<close> and \<^verbatim>\<open>waiterStatus.h\<close>, with the functions of
  \<^verbatim>\<open>simpQ.c\<close> and \<^verbatim>\<open>intermediateQ.c\<close> that connect and disconnect a consumer, deliver messages to it and dump it. The word is a
  lock and a mailbox: a thread that holds the lock finds the requests of the other threads in it.

  Threads run concurrently. A program counter says where a thread is, with its local variables; one step of a thread
  does at most one access to the shared word. A loop \<^verbatim>\<open>do { old = *p; ... } while (!CAS(p, old, new))\<close> has a step that
  reads and a step that computes and swaps. Calls to other parts of the engine are events. What is not decided by the status
  word (whether there is a message, what the consumer's callback returns, whether time is up) is an input of the step.
  A failed assertion on the status word and the end of the server are the program counter \<open>Failed\<close>.

  The word belongs to one consumer, and every call is made for that consumer: the choice of the word by the type of the queue
  (\<^verbatim>\<open>iews_getWaiterStatusPtr\<close>) and the assertions that the consumer passed is the one of the queue, there and in the functions that
  disconnect a consumer, are left out.
\<close>

section \<open>Status values\<close>

definition IEWS_WAITERSTATUS_DISCONNECTED :: u64 where "IEWS_WAITERSTATUS_DISCONNECTED = 0"
definition IEWS_WAITERSTATUS_DISABLED :: u64 where "IEWS_WAITERSTATUS_DISABLED = 0x1"
definition IEWS_WAITERSTATUS_ENABLED :: u64 where "IEWS_WAITERSTATUS_ENABLED = 0x2"
definition IEWS_WAITERSTATUS_GETTING :: u64 where "IEWS_WAITERSTATUS_GETTING = 0x4"
definition IEWS_WAITERSTATUS_DELIVERING :: u64 where "IEWS_WAITERSTATUS_DELIVERING = 0x8"
definition IEWS_WAITERSTATUS_DISABLED_LOCKEDWAIT :: u64 where "IEWS_WAITERSTATUS_DISABLED_LOCKEDWAIT = 0x1000000"
definition IEWS_WAITERSTATUS_DISABLE_PEND :: u64 where "IEWS_WAITERSTATUS_DISABLE_PEND = 0x10"
definition IEWS_WAITERSTATUS_CANCEL_DISABLE_PEND :: u64 where "IEWS_WAITERSTATUS_CANCEL_DISABLE_PEND = 0x20"
definition IEWS_WAITERSTATUS_DISCONNECT_PEND :: u64 where "IEWS_WAITERSTATUS_DISCONNECT_PEND = 0x40"
definition IEWS_WAITERSTATUS_RECLAIMSPACE_PEND :: u64 where "IEWS_WAITERSTATUS_RECLAIMSPACE_PEND = 0x80"

definition IEWS_WAITERSTATUSMASK_ACTIVE :: u64 where
  "IEWS_WAITERSTATUSMASK_ACTIVE = IEWS_WAITERSTATUS_ENABLED OR IEWS_WAITERSTATUS_GETTING OR IEWS_WAITERSTATUS_DELIVERING OR
     IEWS_WAITERSTATUS_RECLAIMSPACE_PEND"

definition IEWS_WAITERSTATUSMASK_PENDING :: u64 where
  "IEWS_WAITERSTATUSMASK_PENDING = IEWS_WAITERSTATUS_DISABLE_PEND OR IEWS_WAITERSTATUS_CANCEL_DISABLE_PEND OR
     IEWS_WAITERSTATUS_DISCONNECT_PEND OR IEWS_WAITERSTATUS_RECLAIMSPACE_PEND"

definition IEWS_WAITERSTATUSMASK_LOCKED :: u64 where
  "IEWS_WAITERSTATUSMASK_LOCKED = IEWS_WAITERSTATUS_GETTING OR IEWS_WAITERSTATUS_DELIVERING OR
     IEWS_WAITERSTATUS_DISABLED_LOCKEDWAIT OR IEWS_WAITERSTATUSMASK_PENDING"

definition has_bits :: "u64 \<Rightarrow> u64 \<Rightarrow> bool" where
  "has_bits st bits \<longleftrightarrow> st AND bits \<noteq> 0"

lemmas iews_defs = IEWS_WAITERSTATUS_DISCONNECTED_def IEWS_WAITERSTATUS_DISABLED_def IEWS_WAITERSTATUS_ENABLED_def
  IEWS_WAITERSTATUS_GETTING_def IEWS_WAITERSTATUS_DELIVERING_def IEWS_WAITERSTATUS_DISABLED_LOCKEDWAIT_def
  IEWS_WAITERSTATUS_DISABLE_PEND_def IEWS_WAITERSTATUS_CANCEL_DISABLE_PEND_def IEWS_WAITERSTATUS_DISCONNECT_PEND_def
  IEWS_WAITERSTATUS_RECLAIMSPACE_PEND_def IEWS_WAITERSTATUSMASK_ACTIVE_def IEWS_WAITERSTATUSMASK_PENDING_def
  IEWS_WAITERSTATUSMASK_LOCKED_def has_bits_def

text \<open>The return codes, and the states that are reported for a consumer.\<close>

definition ISMRC_WaiterDisabled :: int where "ISMRC_WaiterDisabled = 9"
definition ISMRC_AsyncCompletion :: int where "ISMRC_AsyncCompletion = 10"
definition ISMRC_WaiterRemoved :: int where "ISMRC_WaiterRemoved = 20"
definition ISMRC_WaiterEnabled :: int where "ISMRC_WaiterEnabled = 23"
definition ISMRC_DisableWaiterCancel :: int where "ISMRC_DisableWaiterCancel = 28"
definition ISMRC_NoAvailWaiter :: int where "ISMRC_NoAvailWaiter = 17"
definition ISMRC_WaiterInUse :: int where "ISMRC_WaiterInUse = 203"
definition ISMRC_WaiterInvalid :: int where "ISMRC_WaiterInvalid = 204"

datatype ismMessageDeliveryStatus_t =
    ismMESSAGE_DELIVERY_STATUS_STOPPED | ismMESSAGE_DELIVERY_STATUS_STARTED | ismMESSAGE_DELIVERY_STATUS_STARTING | ismMESSAGE_DELIVERY_STATUS_STOPPING

definition ism_engine_getConsumerMessageDeliveryStatus :: "u64 \<Rightarrow> ismMessageDeliveryStatus_t" where
  "ism_engine_getConsumerMessageDeliveryStatus waiterStatus =
     (if has_bits waiterStatus (IEWS_WAITERSTATUS_DISCONNECTED OR IEWS_WAITERSTATUS_DISABLED OR IEWS_WAITERSTATUS_DISABLED_LOCKEDWAIT)
      then ismMESSAGE_DELIVERY_STATUS_STOPPED
      else if has_bits waiterStatus (IEWS_WAITERSTATUS_DISABLE_PEND OR IEWS_WAITERSTATUS_DISCONNECT_PEND) \<and>
              waiterStatus AND IEWS_WAITERSTATUS_CANCEL_DISABLE_PEND = 0
      then ismMESSAGE_DELIVERY_STATUS_STOPPING
      else ismMESSAGE_DELIVERY_STATUS_STARTED)"

section \<open>Threads\<close>

text \<open>
  What a thread calls outside the status word, in the order of the calls. The messages that are passed to the consumer and the notice that its
  queue is empty are not events: they leave the status word and the connection of the consumer as they are.
\<close>

datatype event =
    Deliver_Status int
  | Release_Consumer
  | Reclaim_Space
  | Detach_Consumer
  | Attach_Consumer
  | Reduce_PreDelete
  | Return int

text \<open>What a thread does after a call: return a code, go on in or call \<^verbatim>\<open>ieq_checkWaiters\<close>, or give up its reference to the consumer first.\<close>

datatype cont = Fin int | CheckThen cont | LoopThen cont | ReleaseThen cont

text \<open>A lock for a queue operation is tried once, for the first time, or until time is up.\<close>

datatype qmode = Once | First | Retry

text \<open>The places in each function, and the places of a thread.\<close>

datatype enable_pc = EnableRead | EnableCAS u64 | EnableEnd u64 int

datatype request_pc = ReadStatus | SwapStatus u64

datatype check_pc = CheckStart | CheckLock | Getting | ToDelivering | Delivering | CheckUnlock u64

datatype put_pc = PutLock | PutDelivering | PutUnlock

datatype complete_pc =
    CompleteRead | CompleteReclaim | CompleteUnlock | CompleteEnd u64
  | DisableRead bool | DisableCAS bool u64 | Disconnect bool | DisconnectRead bool | DisconnectCAS bool u64

datatype qlock_pc = QLockWait | QLockRead qmode | QLockCAS qmode u64

datatype held_pc = QHeld u64 u64 | QUnlock u64 u64 | DumpHeld u64 | DumpUnlock u64

datatype pc =
    Idle
  | Failed
  | In_enableWaiter bool enable_pc
  | In_disableWaiter request_pc
  | In_iesq_initWaiter request_pc
  | In_ieiq_initWaiter
  | In_iesq_termWaiter request_pc
  | In_ieiq_termWaiter request_pc
  | In_checkWaiters cont check_pc
  | In_putToWaitingGetter put_pc
  | In_addPendFlag cont request_pc
  | In_completeWaiterActions bool bool cont complete_pc
  | In_lockForReclaimSpace request_pc
  | In_lockForQOperation bool qlock_pc
  | In_lockConsumerForDump bool request_pc
  | In_locked held_pc

type_synonym result = "u64 \<times> pc \<times> event list"

fun resume :: "cont \<Rightarrow> pc \<times> event list" where
  "resume (Fin rc) = (Idle, [Return rc])"
| "resume (CheckThen k) = (In_checkWaiters k CheckStart, [])"
| "resume (LoopThen k) = (In_checkWaiters k CheckLock, [])"
| "resume (ReleaseThen k) = (let (pc, evs) = resume k in (pc, Release_Consumer # evs))"

definition return_to :: "u64 \<Rightarrow> event list \<Rightarrow> cont \<Rightarrow> result" where
  "return_to st evs k = (let (pc, evs') = resume k in (st, pc, evs @ evs'))"

text \<open>The checks of the macros around compare-and-swap, and a compare-and-swap with such a check behind it.\<close>

definition iews_checkLockOperation :: "u64 \<Rightarrow> u64 \<Rightarrow> bool" where
  "iews_checkLockOperation fromState toState \<longleftrightarrow>
     \<not> has_bits fromState IEWS_WAITERSTATUSMASK_LOCKED \<and> has_bits toState IEWS_WAITERSTATUSMASK_LOCKED"

definition iews_checkUnlockOperation :: "u64 \<Rightarrow> u64 \<Rightarrow> bool" where
  "iews_checkUnlockOperation fromState toState \<longleftrightarrow>
     has_bits fromState IEWS_WAITERSTATUSMASK_LOCKED \<and> \<not> has_bits toState IEWS_WAITERSTATUSMASK_LOCKED"

definition iews_checkLockinessUnchanged :: "u64 \<Rightarrow> u64 \<Rightarrow> bool" where
  "iews_checkLockinessUnchanged fromState toState \<longleftrightarrow>
     has_bits fromState IEWS_WAITERSTATUSMASK_LOCKED \<and> has_bits toState IEWS_WAITERSTATUSMASK_LOCKED \<or>
     \<not> has_bits fromState IEWS_WAITERSTATUSMASK_LOCKED \<and> \<not> has_bits toState IEWS_WAITERSTATUSMASK_LOCKED"

definition iews_checkUnlockingWithNoPending :: "u64 \<Rightarrow> u64 \<Rightarrow> bool" where
  "iews_checkUnlockingWithNoPending fromState toState \<longleftrightarrow>
     (fromState = IEWS_WAITERSTATUS_GETTING \<or> fromState = IEWS_WAITERSTATUS_DELIVERING \<or> fromState = IEWS_WAITERSTATUS_DISABLED_LOCKEDWAIT) \<and>
     \<not> has_bits toState IEWS_WAITERSTATUSMASK_LOCKED"

definition cas :: "(u64 \<Rightarrow> u64 \<Rightarrow> bool) \<Rightarrow> u64 \<Rightarrow> u64 \<Rightarrow> u64 \<Rightarrow> (u64 \<Rightarrow> result) \<Rightarrow> result \<Rightarrow> result" where
  "cas check fromState toState st done fail =
     (if check fromState toState then if st = fromState then done toState else fail
      else (if st = fromState then toState else st, Failed, []))"

abbreviation no_check :: "u64 \<Rightarrow> u64 \<Rightarrow> bool" where
  "no_check \<equiv> \<lambda>_ _. True"

section \<open>Requests\<close>

text \<open>\<^verbatim>\<open>ieq_enableWaiter\<close>; the test for a deleted queue is for queues with more than one consumer only.\<close>

definition enable_swap :: "bool \<Rightarrow> u64 \<Rightarrow> u64 \<Rightarrow> result" where
  "enable_swap later oldState st =
     (let again = (st, In_enableWaiter later EnableRead, []);
          exit = (\<lambda>rc. return_to st [] (Fin rc))
      in if has_bits oldState IEWS_WAITERSTATUS_DISCONNECT_PEND then exit ISMRC_WaiterInvalid
         else if oldState = IEWS_WAITERSTATUS_DISABLED then
           cas iews_checkLockinessUnchanged IEWS_WAITERSTATUS_DISABLED IEWS_WAITERSTATUS_ENABLED st
             (\<lambda>st. (st, In_enableWaiter later (EnableEnd oldState 0), [])) again
         else if has_bits oldState IEWS_WAITERSTATUSMASK_ACTIVE \<and> oldState AND NOT IEWS_WAITERSTATUSMASK_ACTIVE = 0 then exit ISMRC_WaiterEnabled
         else if has_bits oldState IEWS_WAITERSTATUS_CANCEL_DISABLE_PEND then exit ISMRC_WaiterEnabled
         else if has_bits oldState IEWS_WAITERSTATUS_DISABLE_PEND then
           cas iews_checkLockinessUnchanged oldState (oldState OR IEWS_WAITERSTATUS_CANCEL_DISABLE_PEND) st
             (\<lambda>st. (st, In_enableWaiter later (EnableEnd oldState ISMRC_DisableWaiterCancel), [])) again
         else if has_bits oldState IEWS_WAITERSTATUS_DISABLED_LOCKEDWAIT then again
         else exit ISMRC_WaiterInvalid)"

definition ieq_enableWaiter :: "bool \<Rightarrow> enable_pc \<Rightarrow> u64 \<Rightarrow> result" where
  "ieq_enableWaiter later pc st = (case pc of
       EnableRead \<Rightarrow> (st, In_enableWaiter later (EnableCAS st), [])
     | EnableCAS oldState \<Rightarrow> enable_swap later oldState st
     | EnableEnd oldState rc \<Rightarrow>
         if \<not> later \<and> (oldState = IEWS_WAITERSTATUS_DISABLED \<or> has_bits oldState IEWS_WAITERSTATUSMASK_ACTIVE)
         then return_to st [] (CheckThen (Fin 0))
         else return_to st [] (Fin rc))"

definition disable_swap :: "u64 \<Rightarrow> u64 \<Rightarrow> result" where
  "disable_swap oldState st =
     (let again = (st, In_disableWaiter ReadStatus, []);
          leave = (\<lambda>newState evs rc. cas iews_checkLockinessUnchanged oldState newState st (\<lambda>st. return_to st evs (Fin rc)) again)
      in if oldState = IEWS_WAITERSTATUS_DISCONNECTED \<or> has_bits oldState IEWS_WAITERSTATUS_DISCONNECT_PEND
         then return_to st [] (Fin ISMRC_WaiterInvalid)
         else if oldState = IEWS_WAITERSTATUS_GETTING \<or> oldState = IEWS_WAITERSTATUS_DELIVERING
         then leave IEWS_WAITERSTATUS_DISABLE_PEND [] ISMRC_AsyncCompletion
         else if oldState = IEWS_WAITERSTATUS_DISABLED then leave IEWS_WAITERSTATUS_DISABLED [] ISMRC_WaiterDisabled
         else if has_bits oldState IEWS_WAITERSTATUS_CANCEL_DISABLE_PEND
         then leave (oldState AND NOT IEWS_WAITERSTATUS_CANCEL_DISABLE_PEND) [Deliver_Status ISMRC_WaiterDisabled, Release_Consumer] ISMRC_AsyncCompletion
         else if has_bits oldState IEWS_WAITERSTATUS_DISABLE_PEND then leave oldState [] ISMRC_AsyncCompletion
         else if has_bits oldState IEWS_WAITERSTATUSMASK_PENDING
         then leave (oldState OR IEWS_WAITERSTATUS_DISABLE_PEND) [] ISMRC_AsyncCompletion
         else if has_bits oldState IEWS_WAITERSTATUS_DISABLED_LOCKEDWAIT then again
         else if has_bits oldState (IEWS_WAITERSTATUS_GETTING OR IEWS_WAITERSTATUS_DELIVERING OR IEWS_WAITERSTATUS_DISABLE_PEND OR
                   IEWS_WAITERSTATUS_CANCEL_DISABLE_PEND)
         then (st, Failed, [])
         else cas iews_checkLockOperation oldState IEWS_WAITERSTATUS_DISABLE_PEND st
                (\<lambda>st. (st, In_completeWaiterActions True True (Fin 0) CompleteRead, [])) again)"

definition ieq_disableWaiter :: "request_pc \<Rightarrow> u64 \<Rightarrow> result" where
  "ieq_disableWaiter pc st = (case pc of ReadStatus \<Rightarrow> (st, In_disableWaiter (SwapStatus st), [])
     | SwapStatus oldState \<Rightarrow> disable_swap oldState st)"

definition iesq_initWaiter :: "request_pc \<Rightarrow> u64 \<Rightarrow> result" where
  "iesq_initWaiter pc st = (case pc of ReadStatus \<Rightarrow> (st, In_iesq_initWaiter (SwapStatus st), [])
     | SwapStatus oldStatus \<Rightarrow>
         (let again = (st, In_iesq_initWaiter ReadStatus, [])
          in if oldStatus = IEWS_WAITERSTATUS_DISABLED_LOCKEDWAIT then again
             else if oldStatus = IEWS_WAITERSTATUS_DISCONNECTED
             then cas iews_checkLockinessUnchanged oldStatus IEWS_WAITERSTATUS_DISABLED st (\<lambda>st. return_to st [Attach_Consumer] (Fin 0)) again
             else cas iews_checkLockinessUnchanged oldStatus oldStatus st (\<lambda>st. return_to st [] (Fin ISMRC_WaiterInUse)) again))"

definition ieiq_initWaiter :: "u64 \<Rightarrow> result" where
  "ieiq_initWaiter st =
     (if st = IEWS_WAITERSTATUS_DISCONNECTED then return_to IEWS_WAITERSTATUS_DISABLED [Attach_Consumer] (Fin 0)
      else if st = IEWS_WAITERSTATUS_DISABLED_LOCKEDWAIT then (st, In_ieiq_initWaiter, [])
      else return_to st [] (Fin ISMRC_WaiterInUse))"

text \<open>
  Disconnecting. The simple queue has no compare-and-swap in the branch for a status with requests, so it only looks at the status
  again; the intermediate queue adds its request there.
\<close>

definition iesq_termWaiter :: "request_pc \<Rightarrow> u64 \<Rightarrow> result" where
  "iesq_termWaiter pc st = (case pc of ReadStatus \<Rightarrow> (st, In_iesq_termWaiter (SwapStatus st), [])
     | SwapStatus oldState \<Rightarrow>
         (let again = (st, In_iesq_termWaiter ReadStatus, [])
          in if oldState = IEWS_WAITERSTATUS_DISCONNECTED \<or> has_bits oldState IEWS_WAITERSTATUS_DISCONNECT_PEND
             then return_to st [] (Fin ISMRC_WaiterInvalid)
             else if oldState = IEWS_WAITERSTATUS_GETTING \<or> oldState = IEWS_WAITERSTATUS_DELIVERING
             then cas iews_checkLockinessUnchanged oldState IEWS_WAITERSTATUS_DISCONNECT_PEND st (\<lambda>st. return_to st [] (Fin ISMRC_AsyncCompletion)) again
             else if has_bits oldState IEWS_WAITERSTATUS_CANCEL_DISABLE_PEND then again
             else if has_bits oldState IEWS_WAITERSTATUSMASK_PENDING then again
             else if oldState = IEWS_WAITERSTATUS_DISABLED_LOCKEDWAIT then again
             else cas iews_checkLockOperation oldState IEWS_WAITERSTATUS_DISCONNECT_PEND st
                    (\<lambda>st. (st, In_completeWaiterActions True (oldState \<noteq> IEWS_WAITERSTATUS_DISABLED) (Fin 0) CompleteRead, [])) again))"

definition ieiq_termWaiter :: "request_pc \<Rightarrow> u64 \<Rightarrow> result" where
  "ieiq_termWaiter pc st = (case pc of ReadStatus \<Rightarrow> (st, In_ieiq_termWaiter (SwapStatus st), [])
     | SwapStatus oldState \<Rightarrow>
         (let again = (st, In_ieiq_termWaiter ReadStatus, []);
              request = (\<lambda>newState. cas no_check oldState newState st (\<lambda>st. return_to st [] (Fin ISMRC_AsyncCompletion)) again)
          in if oldState = IEWS_WAITERSTATUS_DISCONNECTED \<or> has_bits oldState IEWS_WAITERSTATUS_DISCONNECT_PEND
             then return_to st [] (Fin ISMRC_WaiterInvalid)
             else if oldState = IEWS_WAITERSTATUS_GETTING \<or> oldState = IEWS_WAITERSTATUS_DELIVERING then request IEWS_WAITERSTATUS_DISCONNECT_PEND
             else if has_bits oldState IEWS_WAITERSTATUS_CANCEL_DISABLE_PEND then again
             else if has_bits oldState IEWS_WAITERSTATUSMASK_PENDING then request (oldState OR IEWS_WAITERSTATUS_DISCONNECT_PEND)
             else if oldState = IEWS_WAITERSTATUS_DISABLED_LOCKEDWAIT then again
             else cas no_check oldState IEWS_WAITERSTATUS_DISCONNECT_PEND st
                    (\<lambda>st. (st, In_completeWaiterActions True (oldState \<noteq> IEWS_WAITERSTATUS_DISABLED) (Fin 0) CompleteRead, [])) again))"

section \<open>Completing the requests of other threads\<close>

text \<open>\<open>allow\<close>: the caller does not call \<^verbatim>\<open>ieq_checkWaiters\<close> itself; \<open>enabled\<close>: the consumer was enabled before; \<open>k\<close>: what follows.\<close>

definition complete_disable_swap :: "bool \<Rightarrow> bool \<Rightarrow> cont \<Rightarrow> bool \<Rightarrow> u64 \<Rightarrow> u64 \<Rightarrow> result" where
  "complete_disable_swap allow enabled k release oldStatus st =
     (let again = (st, In_completeWaiterActions allow enabled k (DisableRead release), []);
          k' = if release then ReleaseThen k else k
      in if oldStatus AND NOT IEWS_WAITERSTATUSMASK_PENDING \<noteq> 0 then (st, Failed, [])
         else if has_bits oldStatus IEWS_WAITERSTATUS_RECLAIMSPACE_PEND then
           cas iews_checkLockinessUnchanged oldStatus (oldStatus AND NOT IEWS_WAITERSTATUS_RECLAIMSPACE_PEND) st
             (\<lambda>st. (st, In_completeWaiterActions allow enabled k (DisableRead release), [Reclaim_Space])) again
         else if has_bits oldStatus IEWS_WAITERSTATUS_DISCONNECT_PEND then
           cas iews_checkLockinessUnchanged oldStatus IEWS_WAITERSTATUS_DISCONNECT_PEND st
             (\<lambda>st. (st, In_completeWaiterActions allow enabled k (Disconnect release), [])) again
         else if has_bits oldStatus IEWS_WAITERSTATUS_CANCEL_DISABLE_PEND then
           cas iews_checkUnlockOperation oldStatus IEWS_WAITERSTATUS_ENABLED st
             (\<lambda>st. return_to st [] (if allow then CheckThen k' else k')) again
         else cas iews_checkUnlockOperation oldStatus IEWS_WAITERSTATUS_DISABLED st (\<lambda>st. return_to st [] k') again)"

definition complete_disconnect_swap :: "bool \<Rightarrow> bool \<Rightarrow> cont \<Rightarrow> bool \<Rightarrow> u64 \<Rightarrow> u64 \<Rightarrow> result" where
  "complete_disconnect_swap allow enabled k release oldStatus st =
     (let again = (st, In_completeWaiterActions allow enabled k (DisconnectRead release), []);
          k' = if release then ReleaseThen k else k
      in if has_bits oldStatus IEWS_WAITERSTATUS_RECLAIMSPACE_PEND then
           cas iews_checkLockinessUnchanged oldStatus (oldStatus AND NOT IEWS_WAITERSTATUS_RECLAIMSPACE_PEND) st
             (\<lambda>st. (st, In_completeWaiterActions allow enabled k (DisconnectRead release), [Reclaim_Space])) again
         else cas iews_checkUnlockOperation IEWS_WAITERSTATUS_DISCONNECT_PEND IEWS_WAITERSTATUS_DISCONNECTED st
                (\<lambda>st. return_to st [Deliver_Status ISMRC_WaiterRemoved, Reduce_PreDelete] k') again)"

definition complete_end :: "bool \<Rightarrow> bool \<Rightarrow> cont \<Rightarrow> u64 \<Rightarrow> u64 \<Rightarrow> result" where
  "complete_end allow enabled k oldStatus st =
     (let stopping = has_bits oldStatus (IEWS_WAITERSTATUS_DISABLE_PEND OR IEWS_WAITERSTATUS_DISCONNECT_PEND);
          release = stopping \<and> enabled;
          evs = if release then [Deliver_Status ISMRC_WaiterDisabled] else []
      in if has_bits oldStatus IEWS_WAITERSTATUS_DISABLE_PEND
         then (st, In_completeWaiterActions allow enabled k (DisableRead release), evs)
         else if has_bits oldStatus IEWS_WAITERSTATUS_DISCONNECT_PEND
         then (st, In_completeWaiterActions allow enabled k (Disconnect release), evs)
         else return_to st evs k)"

definition ieq_completeWaiterActions :: "bool \<Rightarrow> bool \<Rightarrow> cont \<Rightarrow> complete_pc \<Rightarrow> u64 \<Rightarrow> result" where
  "ieq_completeWaiterActions allow enabled k pc st =
     (let goto = (\<lambda>pc. In_completeWaiterActions allow enabled k pc)
      in case pc of
           CompleteRead \<Rightarrow>
             if \<not> has_bits st IEWS_WAITERSTATUSMASK_PENDING \<or> st AND NOT IEWS_WAITERSTATUSMASK_PENDING \<noteq> 0 then (st, Failed, [])
             else (st, goto (if st = IEWS_WAITERSTATUS_RECLAIMSPACE_PEND then CompleteReclaim else CompleteEnd st), [])
         | CompleteReclaim \<Rightarrow>
             cas iews_checkLockinessUnchanged IEWS_WAITERSTATUS_RECLAIMSPACE_PEND IEWS_WAITERSTATUS_DELIVERING st
               (\<lambda>st. (st, goto CompleteUnlock, [Reclaim_Space])) (st, goto CompleteRead, [])
         | CompleteUnlock \<Rightarrow>
             cas iews_checkUnlockingWithNoPending IEWS_WAITERSTATUS_DELIVERING IEWS_WAITERSTATUS_ENABLED st
               (\<lambda>st. return_to st [] (if allow then CheckThen k else k)) (st, goto CompleteRead, [])
         | CompleteEnd oldStatus \<Rightarrow> complete_end allow enabled k oldStatus st
         | DisableRead release \<Rightarrow> (st, goto (DisableCAS release st), [])
         | DisableCAS release oldStatus \<Rightarrow> complete_disable_swap allow enabled k release oldStatus st
         | Disconnect release \<Rightarrow> (st, goto (DisconnectRead release), [Detach_Consumer])
         | DisconnectRead release \<Rightarrow> (st, goto (DisconnectCAS release st), [])
         | DisconnectCAS release oldStatus \<Rightarrow> complete_disconnect_swap allow enabled k release oldStatus st)"

text \<open>A request that the holder of the lock leaves to itself; then it completes the requests.\<close>

definition iews_addPendFlagWhileLocked :: "cont \<Rightarrow> u64 \<Rightarrow> request_pc \<Rightarrow> u64 \<Rightarrow> result" where
  "iews_addPendFlagWhileLocked k pendFlag pc st = (case pc of ReadStatus \<Rightarrow> (st, In_addPendFlag k (SwapStatus st), [])
     | SwapStatus oldState \<Rightarrow>
         (let swap = (\<lambda>newState. cas iews_checkLockinessUnchanged oldState newState st
                (\<lambda>st. (st, In_completeWaiterActions False True k CompleteRead, [])) (st, In_addPendFlag k ReadStatus, []))
          in if oldState = IEWS_WAITERSTATUS_GETTING \<or> oldState = IEWS_WAITERSTATUS_DELIVERING then swap pendFlag
             else if has_bits oldState IEWS_WAITERSTATUSMASK_PENDING
             then if oldState AND NOT IEWS_WAITERSTATUSMASK_PENDING \<noteq> 0 then (st, Failed, []) else swap (oldState OR pendFlag)
             else (st, Failed, [])))"

section \<open>Delivering messages\<close>

text \<open>
  \<^verbatim>\<open>iesq_checkWaiters\<close>. The input says in \<open>CheckStart\<close> that the queue is empty, in \<open>Getting\<close> that there was a message, in \<open>Delivering\<close> that the consumer
  wants more messages. If it does not, a request to disable it is left: by this function, or, where the consumer was created with explicit
  suspends, by the callback of the consumer with \<^verbatim>\<open>ism_engine_suspendMessageDelivery\<close>, in the same thread and before the callback
  returns. The accesses to the word are the same in both cases, so the model has one path for them. A consumer that
  refuses messages without that call, against the contract of explicit suspends, is not modelled.
\<close>

definition iesq_checkWaiters :: "bool \<Rightarrow> cont \<Rightarrow> check_pc \<Rightarrow> u64 \<Rightarrow> result" where
  "iesq_checkWaiters c k pc st = (case pc of
       CheckStart \<Rightarrow> if c then return_to st [] k else (st, In_checkWaiters k CheckLock, [])
     | CheckLock \<Rightarrow>
         if st = IEWS_WAITERSTATUS_ENABLED then (IEWS_WAITERSTATUS_GETTING, In_checkWaiters k Getting, [])
         else if st = IEWS_WAITERSTATUS_GETTING then (st, In_checkWaiters k CheckLock, [])
         else return_to st [] k
     | Getting \<Rightarrow> (st, In_checkWaiters k (if c then ToDelivering else CheckUnlock IEWS_WAITERSTATUS_GETTING), [])
     | ToDelivering \<Rightarrow>
         cas iews_checkLockinessUnchanged IEWS_WAITERSTATUS_GETTING IEWS_WAITERSTATUS_DELIVERING st
           (\<lambda>st. (st, In_checkWaiters k Delivering, [])) (st, In_checkWaiters k Delivering, [])
     | Delivering \<Rightarrow>
         (st, if c then In_checkWaiters k (CheckUnlock IEWS_WAITERSTATUS_DELIVERING) else In_addPendFlag (LoopThen k) ReadStatus, [])
     | CheckUnlock fromState \<Rightarrow>
         cas iews_checkUnlockingWithNoPending fromState IEWS_WAITERSTATUS_ENABLED st
           (\<lambda>st. return_to st [] (if fromState = IEWS_WAITERSTATUS_DELIVERING then LoopThen k else k))
           (st, In_completeWaiterActions False True (LoopThen k) CompleteRead, []))"

definition iesq_putToWaitingGetter :: "bool \<Rightarrow> put_pc \<Rightarrow> u64 \<Rightarrow> result" where
  "iesq_putToWaitingGetter c pc st = (case pc of
       PutLock \<Rightarrow>
         if st = IEWS_WAITERSTATUS_ENABLED then (IEWS_WAITERSTATUS_DELIVERING, In_putToWaitingGetter PutDelivering, [])
         else if st = IEWS_WAITERSTATUS_GETTING then (st, In_putToWaitingGetter PutLock, [])
         else return_to st [] (Fin ISMRC_NoAvailWaiter)
     | PutDelivering \<Rightarrow> (st, if c then In_putToWaitingGetter PutUnlock else In_addPendFlag (CheckThen (Fin 0)) ReadStatus, [])
     | PutUnlock \<Rightarrow>
         cas iews_checkUnlockingWithNoPending IEWS_WAITERSTATUS_DELIVERING IEWS_WAITERSTATUS_ENABLED st
           (\<lambda>st. return_to st [] (CheckThen (Fin 0)))
           (st, In_completeWaiterActions False True (CheckThen (Fin 0)) CompleteRead, []))"

section \<open>Locks for other operations on the queue\<close>

definition iews_tryLockForReclaimSpace :: "request_pc \<Rightarrow> u64 \<Rightarrow> result" where
  "iews_tryLockForReclaimSpace pc st = (case pc of ReadStatus \<Rightarrow> (st, In_lockForReclaimSpace (SwapStatus st), [])
     | SwapStatus oldStatus \<Rightarrow>
         (let again = (st, In_lockForReclaimSpace ReadStatus, []);
              lock = (\<lambda>newStatus. cas iews_checkLockOperation oldStatus newStatus st (\<lambda>st. (st, In_locked (QHeld newStatus oldStatus), [])) again);
              request = (\<lambda>newStatus. cas iews_checkLockinessUnchanged oldStatus newStatus st (\<lambda>st. return_to st [] (Fin 0)) again)
          in if oldStatus = IEWS_WAITERSTATUS_ENABLED then lock IEWS_WAITERSTATUS_DELIVERING
             else if oldStatus = IEWS_WAITERSTATUS_DISABLED \<or> oldStatus = IEWS_WAITERSTATUS_DISCONNECTED
             then lock IEWS_WAITERSTATUS_DISABLED_LOCKEDWAIT
             else if oldStatus = IEWS_WAITERSTATUS_GETTING \<or> oldStatus = IEWS_WAITERSTATUS_DELIVERING
             then request IEWS_WAITERSTATUS_RECLAIMSPACE_PEND
             else if has_bits oldStatus IEWS_WAITERSTATUSMASK_PENDING
             then request (oldStatus OR IEWS_WAITERSTATUS_RECLAIMSPACE_PEND)
             else if oldStatus = IEWS_WAITERSTATUS_DISABLED_LOCKEDWAIT then again
             else (st, Failed, [])))"

text \<open>\<^verbatim>\<open>iews_tryLockForQOperation\<close> with what its callers do when they do not get the lock: \<open>mode\<close> tells them apart.\<close>

definition qlock_failed :: "bool \<Rightarrow> bool \<Rightarrow> qmode \<Rightarrow> u64 \<Rightarrow> result" where
  "qlock_failed c allow mode st = (case mode of
       Once \<Rightarrow> return_to st [] (Fin 0)
     | First \<Rightarrow> (st, In_lockForQOperation allow (QLockRead Retry), [])
     | Retry \<Rightarrow> if c then return_to st [] (Fin 0) else (st, In_lockForQOperation allow (QLockRead Retry), []))"

definition iews_tryLockForQOperation :: "bool \<Rightarrow> bool \<Rightarrow> qmode \<Rightarrow> u64 \<Rightarrow> u64 \<Rightarrow> result" where
  "iews_tryLockForQOperation c allow mode oldStatus st =
     (let again = (st, In_lockForQOperation allow (QLockRead mode), []);
          lock = (\<lambda>newStatus. cas iews_checkLockOperation oldStatus newStatus st (\<lambda>st. (st, In_locked (QHeld newStatus oldStatus), [])) again);
          unavailable = cas iews_checkLockinessUnchanged oldStatus oldStatus st (qlock_failed c allow mode) again
      in if allow then
           if oldStatus = IEWS_WAITERSTATUS_ENABLED then lock IEWS_WAITERSTATUS_DELIVERING
           else if oldStatus = IEWS_WAITERSTATUS_DISABLED \<or> oldStatus = IEWS_WAITERSTATUS_DISCONNECTED
           then lock IEWS_WAITERSTATUS_DISABLED_LOCKEDWAIT
           else if oldStatus = IEWS_WAITERSTATUS_GETTING \<or> oldStatus = IEWS_WAITERSTATUS_DELIVERING \<or> has_bits oldStatus IEWS_WAITERSTATUSMASK_PENDING
           then unavailable
           else if oldStatus = IEWS_WAITERSTATUS_DISABLED_LOCKEDWAIT then again
           else (st, Failed, [])
         else if has_bits oldStatus (IEWS_WAITERSTATUSMASK_ACTIVE OR IEWS_WAITERSTATUSMASK_PENDING OR IEWS_WAITERSTATUS_DISABLED_LOCKEDWAIT)
         then unavailable
         else if oldStatus = IEWS_WAITERSTATUS_DISABLED \<or> oldStatus = IEWS_WAITERSTATUS_DISCONNECTED
         then lock IEWS_WAITERSTATUS_DISABLED_LOCKEDWAIT
         else (st, Failed, []))"

definition iews_getLockForQOperation :: "bool \<Rightarrow> bool \<Rightarrow> qlock_pc \<Rightarrow> u64 \<Rightarrow> result" where
  "iews_getLockForQOperation c allow pc st = (case pc of
       QLockWait \<Rightarrow> (st, In_lockForQOperation allow (QLockRead (if has_bits st IEWS_WAITERSTATUSMASK_LOCKED then Retry else First)), [])
     | QLockRead mode \<Rightarrow> (st, In_lockForQOperation allow (QLockCAS mode st), [])
     | QLockCAS mode oldStatus \<Rightarrow> iews_tryLockForQOperation c allow mode oldStatus st)"

text \<open>
  The dump of a queue locks a consumer in any state that is not locked; when that fails, it tries again with the same old state, \<open>again\<close>,
  until time is up.
\<close>

definition iesq_lockConsumerForDump :: "bool \<Rightarrow> bool \<Rightarrow> request_pc \<Rightarrow> u64 \<Rightarrow> result" where
  "iesq_lockConsumerForDump c again pc st = (case pc of ReadStatus \<Rightarrow> (st, In_lockConsumerForDump again (SwapStatus st), [])
     | SwapStatus oldState \<Rightarrow>
         (let failed = if again \<and> c then return_to st [] (Fin 0) else (st, In_lockConsumerForDump True (SwapStatus oldState), [])
          in if has_bits oldState IEWS_WAITERSTATUSMASK_LOCKED then failed
             else cas no_check oldState IEWS_WAITERSTATUS_DELIVERING st (\<lambda>st. (st, In_locked (DumpHeld oldState), [])) failed))"

definition iews_unlockAfterQOperation :: "u64 \<Rightarrow> u64 \<Rightarrow> u64 \<Rightarrow> result" where
  "iews_unlockAfterQOperation lockedState preLockedState st =
     (if lockedState = IEWS_WAITERSTATUS_DELIVERING then
        cas iews_checkUnlockingWithNoPending IEWS_WAITERSTATUS_DELIVERING preLockedState st
          (\<lambda>st. return_to st [] (CheckThen (Fin 0)))
          (st, In_completeWaiterActions False True (CheckThen (Fin 0)) CompleteRead, [])
      else if lockedState \<noteq> IEWS_WAITERSTATUS_DISABLED_LOCKEDWAIT then (st, Failed, [])
      else cas iews_checkUnlockingWithNoPending IEWS_WAITERSTATUS_DISABLED_LOCKEDWAIT preLockedState st
             (\<lambda>st. return_to st [] (Fin 0)) (st, Failed, []))"

definition dump_unlock :: "u64 \<Rightarrow> u64 \<Rightarrow> result" where
  "dump_unlock previousState st =
     cas no_check IEWS_WAITERSTATUS_DELIVERING previousState st (\<lambda>st. return_to st [] (CheckThen (Fin 0)))
       (st, In_completeWaiterActions False (previousState = IEWS_WAITERSTATUS_ENABLED) (CheckThen (Fin 0)) CompleteRead, [])"

definition locked_step :: "held_pc \<Rightarrow> u64 \<Rightarrow> result" where
  "locked_step pc st = (case pc of
       QHeld newStatus oldStatus \<Rightarrow> (st, In_locked (QUnlock newStatus oldStatus), [])
     | QUnlock newStatus oldStatus \<Rightarrow> iews_unlockAfterQOperation newStatus oldStatus st
     | DumpHeld oldState \<Rightarrow> (st, In_locked (DumpUnlock oldState), [])
     | DumpUnlock oldState \<Rightarrow> dump_unlock oldState st)"

section \<open>Interleaving\<close>

definition thread_step :: "bool \<Rightarrow> u64 \<Rightarrow> pc \<Rightarrow> result" where
  "thread_step c st pc = (case pc of
       Idle \<Rightarrow> (st, Idle, [])
     | Failed \<Rightarrow> (st, Failed, [])
     | In_enableWaiter later pc \<Rightarrow> ieq_enableWaiter later pc st
     | In_disableWaiter pc \<Rightarrow> ieq_disableWaiter pc st
     | In_iesq_initWaiter pc \<Rightarrow> iesq_initWaiter pc st
     | In_ieiq_initWaiter \<Rightarrow> ieiq_initWaiter st
     | In_iesq_termWaiter pc \<Rightarrow> iesq_termWaiter pc st
     | In_ieiq_termWaiter pc \<Rightarrow> ieiq_termWaiter pc st
     | In_checkWaiters k pc \<Rightarrow> iesq_checkWaiters c k pc st
     | In_putToWaitingGetter pc \<Rightarrow> iesq_putToWaitingGetter c pc st
     | In_addPendFlag k pc \<Rightarrow> iews_addPendFlagWhileLocked k IEWS_WAITERSTATUS_DISABLE_PEND pc st
     | In_completeWaiterActions allow enabled k pc \<Rightarrow> ieq_completeWaiterActions allow enabled k pc st
     | In_lockForReclaimSpace pc \<Rightarrow> iews_tryLockForReclaimSpace pc st
     | In_lockForQOperation allow pc \<Rightarrow> iews_getLockForQOperation c allow pc st
     | In_lockConsumerForDump again pc \<Rightarrow> iesq_lockConsumerForDump c again pc st
     | In_locked pc \<Rightarrow> locked_step pc st)"

text \<open>The calls that start in a thread that is idle.\<close>

definition entry_points :: "pc list" where
  "entry_points = [In_enableWaiter False EnableRead, In_enableWaiter True EnableRead, In_disableWaiter ReadStatus,
     In_iesq_initWaiter ReadStatus, In_ieiq_initWaiter, In_iesq_termWaiter ReadStatus, In_ieiq_termWaiter ReadStatus,
     In_checkWaiters (Fin 0) CheckStart, In_putToWaitingGetter PutLock, In_lockForReclaimSpace ReadStatus,
     In_lockForQOperation False (QLockRead Once), In_lockForQOperation True (QLockRead Once), In_lockForQOperation True QLockWait,
     In_lockConsumerForDump False ReadStatus]"

record sys =
  status :: u64
  thread :: "nat \<Rightarrow> pc"

definition initial :: sys where
  "initial = \<lparr>status = IEWS_WAITERSTATUS_DISCONNECTED, thread = (\<lambda>_. Idle)\<rparr>"

inductive sys_step :: "sys \<Rightarrow> event list \<Rightarrow> sys \<Rightarrow> bool" where
  start: "thread s p = Idle \<Longrightarrow> pc \<in> set entry_points \<Longrightarrow> sys_step s [] (s\<lparr>thread := (thread s)(p := pc)\<rparr>)"
| run: "thread_step c (status s) (thread s p) = (st, pc, evs) \<Longrightarrow> sys_step s evs (s\<lparr>status := st, thread := (thread s)(p := pc)\<rparr>)"

inductive reachable :: "sys \<Rightarrow> bool" where
  init: "reachable initial"
| step: "reachable s \<Longrightarrow> sys_step s evs t \<Longrightarrow> reachable t"

end
