(* ===== verification/WaiterSafety.thy ===== *)
theory WaiterSafety
  imports WaiterStatus
begin

text \<open>
  The waiter status is a lock: in every reachable state at most one thread is at a place where it holds the lock, and
  one is exactly when the status word says locked; no assertion fails. The invariant gives for each place of a thread the statuses that
  are possible while the thread is there (\<open>view\<close>); each function keeps it, and the steps of the other threads do not
  leave the view of the holder.
\<close>

section \<open>Sets of statuses\<close>

definition pend_values :: "u64 list" where
  "pend_values = [0x10, 0x30, 0x40, 0x50, 0x80, 0x90, 0xB0, 0xC0, 0xD0]"

definition valid_values :: "u64 list" where
  "valid_values = [0, 1, 2, 4, 8, 0x1000000] @ pend_values"

definition disable_values :: "u64 list" where
  "disable_values = [0x10, 0x30, 0x50, 0x90, 0xB0, 0xD0]"

definition disconnect_values :: "u64 list" where
  "disconnect_values = [0x40, 0xC0]"

text \<open>The statuses with a request to disconnect, and those with one to disable or to disconnect.\<close>

definition stop_values :: "u64 list" where
  "stop_values = [0x40, 0x50, 0xC0, 0xD0]"

definition request_values :: "u64 list" where
  "request_values = [0x10, 0x30, 0x90, 0xB0] @ stop_values"

definition is_locked :: "u64 \<Rightarrow> bool" where
  "is_locked st \<longleftrightarrow> has_bits st IEWS_WAITERSTATUSMASK_LOCKED"

lemmas value_defs = pend_values_def valid_values_def disable_values_def disconnect_values_def stop_values_def request_values_def

lemma is_locked_values:
  "is_locked 0 = False" "is_locked 1 = False" "is_locked 2 = False" "is_locked 4 = True" "is_locked 8 = True" "is_locked 0x1000000 = True"
  "is_locked 0x10 = True" "is_locked 0x30 = True" "is_locked 0x40 = True" "is_locked 0x50 = True" "is_locked 0x80 = True" "is_locked 0x90 = True"
  "is_locked 0xB0 = True" "is_locked 0xC0 = True" "is_locked 0xD0 = True"
  by (simp_all add: is_locked_def iews_defs)

section \<open>The invariant\<close>

text \<open>The statuses that are possible while a thread is at a place where it holds the lock; none where it does not.\<close>

definition check_view :: "check_pc \<Rightarrow> u64 list" where
  "check_view pc = (case pc of CheckStart \<Rightarrow> [] | CheckLock \<Rightarrow> [] | Getting \<Rightarrow> 4 # pend_values | ToDelivering \<Rightarrow> 4 # pend_values
     | Delivering \<Rightarrow> 8 # pend_values | CheckUnlock from \<Rightarrow> from # pend_values)"

definition complete_view :: "complete_pc \<Rightarrow> u64 list" where
  "complete_view pc = (case pc of CompleteRead \<Rightarrow> pend_values | CompleteReclaim \<Rightarrow> pend_values | CompleteUnlock \<Rightarrow> 8 # pend_values
     | CompleteEnd old \<Rightarrow> if old \<in> set disable_values then disable_values else disconnect_values
     | DisableRead rel \<Rightarrow> disable_values | DisableCAS rel old \<Rightarrow> disable_values
     | Disconnect rel \<Rightarrow> disconnect_values | DisconnectRead rel \<Rightarrow> disconnect_values | DisconnectCAS rel old \<Rightarrow> disconnect_values)"

definition locked_view :: "held_pc \<Rightarrow> u64 list" where
  "locked_view pc = (case pc of QHeld new old \<Rightarrow> if new = 8 then 8 # pend_values else [0x1000000]
     | QUnlock new old \<Rightarrow> if new = 8 then 8 # pend_values else [0x1000000]
     | DumpHeld old \<Rightarrow> 8 # pend_values | DumpUnlock old \<Rightarrow> 8 # pend_values)"

definition view :: "pc \<Rightarrow> u64 list" where
  "view pc = (case pc of In_checkWaiters k pc \<Rightarrow> check_view pc
     | In_putToWaitingGetter pc \<Rightarrow> if pc = PutLock then [] else 8 # pend_values
     | In_addPendFlag k pc \<Rightarrow> 8 # pend_values
     | In_completeWaiterActions allow enabled k pc \<Rightarrow> complete_view pc
     | In_locked pc \<Rightarrow> locked_view pc
     | _ \<Rightarrow> [])"

text \<open>What is known of the local variables of a thread.\<close>

definition request_ok :: "request_pc \<Rightarrow> bool" where
  "request_ok pc = (case pc of ReadStatus \<Rightarrow> True | SwapStatus old \<Rightarrow> old \<in> set valid_values)"

definition complete_ok :: "complete_pc \<Rightarrow> bool" where
  "complete_ok pc = (case pc of CompleteEnd old \<Rightarrow> old \<in> set pend_values \<and> old \<noteq> 0x80 | DisableCAS rel old \<Rightarrow> old \<in> set disable_values
     | DisconnectCAS rel old \<Rightarrow> old \<in> set disconnect_values | _ \<Rightarrow> True)"

definition locked_ok :: "held_pc \<Rightarrow> bool" where
  "locked_ok pc = (case pc of QHeld new old \<Rightarrow> (new, old) \<in> {(8, 2), (0x1000000, 0), (0x1000000, 1)}
     | QUnlock new old \<Rightarrow> (new, old) \<in> {(8, 2), (0x1000000, 0), (0x1000000, 1)}
     | DumpHeld old \<Rightarrow> old \<in> {0, 1, 2} | DumpUnlock old \<Rightarrow> old \<in> {0, 1, 2})"

definition pc_ok :: "pc \<Rightarrow> bool" where
  "pc_ok pc = (case pc of Idle \<Rightarrow> True | Failed \<Rightarrow> False
     | In_enableWaiter later pc \<Rightarrow> (case pc of EnableCAS old \<Rightarrow> old \<in> set valid_values | _ \<Rightarrow> True)
     | In_disableWaiter pc \<Rightarrow> request_ok pc | In_iesq_initWaiter pc \<Rightarrow> request_ok pc | In_ieiq_initWaiter \<Rightarrow> True
     | In_iesq_termWaiter pc \<Rightarrow> request_ok pc | In_ieiq_termWaiter pc \<Rightarrow> request_ok pc
     | In_checkWaiters k pc \<Rightarrow> (case pc of CheckUnlock from \<Rightarrow> from \<in> {4, 8} | _ \<Rightarrow> True)
     | In_putToWaitingGetter pc \<Rightarrow> True
     | In_addPendFlag k pc \<Rightarrow> (case pc of ReadStatus \<Rightarrow> True | SwapStatus old \<Rightarrow> old \<in> set (8 # pend_values))
     | In_completeWaiterActions allow enabled k pc \<Rightarrow> complete_ok pc
     | In_lockForReclaimSpace pc \<Rightarrow> request_ok pc
     | In_lockForQOperation allow pc \<Rightarrow> (case pc of QLockCAS mode old \<Rightarrow> old \<in> set valid_values | _ \<Rightarrow> True)
     | In_lockConsumerForDump again pc \<Rightarrow> request_ok pc
     | In_locked pc \<Rightarrow> locked_ok pc)"

definition sys_inv :: "sys \<Rightarrow> bool" where
  "sys_inv s \<longleftrightarrow> status s \<in> set valid_values \<and> (\<forall>p. pc_ok (thread s p)) \<and>
     (\<forall>p. view (thread s p) \<noteq> [] \<longrightarrow> status s \<in> set (view (thread s p))) \<and>
     (\<forall>p q. view (thread s p) \<noteq> [] \<longrightarrow> view (thread s q) \<noteq> [] \<longrightarrow> p = q) \<and>
     (is_locked (status s) \<longrightarrow> (\<exists>p. view (thread s p) \<noteq> []))"

text \<open>The steps of other threads from a locked status: no view of a holder is left, and no request is lost.\<close>

definition stable :: "u64 \<Rightarrow> u64 \<Rightarrow> bool" where
  "stable st st' \<longleftrightarrow> (\<forall>V \<in> {4 # pend_values, 8 # pend_values, pend_values, disable_values, disconnect_values, [0x1000000], stop_values, request_values}. st \<in> set V \<longrightarrow> st' \<in> set V)"

text \<open>A step of the holder, or from an unlocked status: afterwards the status is locked exactly if the thread holds the lock.\<close>

definition holder_ok :: "result \<Rightarrow> bool" where
  "holder_ok r = (case r of (st, pc, evs) \<Rightarrow> st \<in> set valid_values \<and> pc_ok pc \<and> (if view pc = [] then \<not> is_locked st else st \<in> set (view pc)))"

definition other_ok :: "u64 \<Rightarrow> result \<Rightarrow> bool" where
  "other_ok st r = (case r of (st', pc, evs) \<Rightarrow> st' \<in> set valid_values \<and> is_locked st' \<and> pc_ok pc \<and> view pc = [] \<and> stable st st')"

definition step_ok :: "u64 \<Rightarrow> result \<Rightarrow> bool" where
  "step_ok st r \<longleftrightarrow> (if is_locked st then other_ok st r else holder_ok r)"

lemma resume_ok: "view (fst (resume k)) = [] \<and> pc_ok (fst (resume k))"
  by (induction k) (auto simp: view_def check_view_def pc_ok_def split: prod.splits)

lemma stable_refl [simp]: "stable st st"
  by (simp add: stable_def)

lemma return_holder_ok: "holder_ok (return_to st evs k) \<longleftrightarrow> st \<in> set valid_values \<and> \<not> is_locked st"
  using resume_ok [of k] by (auto simp: holder_ok_def return_to_def split: prod.splits)

lemma return_other_ok: "other_ok st (return_to st' evs k) \<longleftrightarrow> st' \<in> set valid_values \<and> is_locked st' \<and> stable st st'"
  using resume_ok [of k] by (auto simp: other_ok_def return_to_def split: prod.splits)

section \<open>Every function keeps the invariant\<close>

lemma step_ok_simp:
  "step_ok st (st', pc, evs) \<longleftrightarrow> st' \<in> set valid_values \<and> pc_ok pc \<and>
     (if is_locked st then is_locked st' \<and> view pc = [] \<and> stable st st' else if view pc = [] then \<not> is_locked st' else st' \<in> set (view pc))"
  by (auto simp: step_ok_def other_ok_def holder_ok_def)

lemma step_ok_return:
  "step_ok st (return_to st' evs k) \<longleftrightarrow> st' \<in> set valid_values \<and> (if is_locked st then is_locked st' \<and> stable st st' else \<not> is_locked st')"
  by (auto simp: step_ok_def return_other_ok return_holder_ok)

lemma step_ok_cas:
  "check from to \<Longrightarrow> step_ok st (cas check from to st done fail) \<longleftrightarrow> (if st = from then step_ok from (done to) else step_ok st fail)"
  by (simp add: cas_def)

lemma holder_ok_simp: "holder_ok (st', pc, evs) \<longleftrightarrow> st' \<in> set valid_values \<and> pc_ok pc \<and> (if view pc = [] then \<not> is_locked st' else st' \<in> set (view pc))"
  by (simp add: holder_ok_def)

lemma holder_ok_cas:
  "check from to \<Longrightarrow> holder_ok (cas check from to st done fail) \<longleftrightarrow> (if st = from then holder_ok (done to) else holder_ok fail)"
  by (simp add: cas_def)

lemma valid_cases:
  assumes "x \<in> set valid_values"
    and "P 0" "P 1" "P 2" "P 4" "P 8" "P 0x1000000" "P 0x10" "P 0x30" "P 0x40" "P 0x50" "P 0x80" "P 0x90" "P 0xB0" "P 0xC0" "P 0xD0"
  shows "P x"
  using assms by (auto simp: value_defs)

lemma in_valid_values [simp]:
  "0 \<in> set valid_values" "1 \<in> set valid_values" "2 \<in> set valid_values" "4 \<in> set valid_values" "8 \<in> set valid_values" "0x1000000 \<in> set valid_values"
  "0x10 \<in> set valid_values" "0x30 \<in> set valid_values" "0x40 \<in> set valid_values" "0x50 \<in> set valid_values" "0x80 \<in> set valid_values"
  "0x90 \<in> set valid_values" "0xB0 \<in> set valid_values" "0xC0 \<in> set valid_values" "0xD0 \<in> set valid_values"
  by (simp_all add: value_defs)

lemma stable_values [simp]:
  "stable 4 0x10" "stable 4 0x40" "stable 4 0x80" "stable 8 0x10" "stable 8 0x40" "stable 8 0x80" "stable 0x10 0x30" "stable 0x10 0x50" "stable 0x10 0x90"
  "stable 0x30 0x10" "stable 0x30 0xB0" "stable 0x40 0xC0" "stable 0x50 0xD0" "stable 0x80 0x90" "stable 0x80 0xC0" "stable 0x90 0xB0" "stable 0x90 0xD0" "stable 0xB0 0x90"
  by (simp_all add: stable_def value_defs)

lemmas check_defs = iews_checkLockOperation_def iews_checkUnlockOperation_def iews_checkLockinessUnchanged_def iews_checkUnlockingWithNoPending_def

lemmas step_ok_simps = step_ok_simp step_ok_return step_ok_cas is_locked_values iews_defs check_defs

lemma view_simps [simp]:
  "view Idle = []" "view (In_enableWaiter later pce) = []" "view (In_disableWaiter pcr) = []" "view (In_iesq_initWaiter pcr) = []" "view In_ieiq_initWaiter = []"
  "view (In_iesq_termWaiter pcr) = []" "view (In_ieiq_termWaiter pcr) = []" "view (In_checkWaiters k pcc) = check_view pcc" "view (In_addPendFlag k pcr) = 8 # pend_values"
  "view (In_completeWaiterActions allow enabled k pcx) = complete_view pcx" "view (In_lockForReclaimSpace pcr) = []" "view (In_lockForQOperation allow pcq) = []"
  "view (In_lockConsumerForDump again pcr) = []" "view (In_locked pch) = locked_view pch" "view (In_putToWaitingGetter pcp) = (if pcp = PutLock then [] else 8 # pend_values)"
  by (simp_all add: view_def)

lemma pc_ok_simps [simp]:
  "pc_ok Idle" "\<not> pc_ok Failed" "pc_ok (In_enableWaiter later EnableRead)" "pc_ok (In_enableWaiter later (EnableEnd old rc))"
  "pc_ok (In_enableWaiter later (EnableCAS old)) = (old \<in> set valid_values)" "pc_ok (In_disableWaiter pcr) = request_ok pcr"
  "pc_ok (In_iesq_initWaiter pcr) = request_ok pcr" "pc_ok In_ieiq_initWaiter" "pc_ok (In_iesq_termWaiter pcr) = request_ok pcr" "pc_ok (In_ieiq_termWaiter pcr) = request_ok pcr"
  "pc_ok (In_putToWaitingGetter pcp)" "pc_ok (In_completeWaiterActions allow enabled k pcx) = complete_ok pcx" "pc_ok (In_lockForReclaimSpace pcr) = request_ok pcr"
  "pc_ok (In_lockConsumerForDump again pcr) = request_ok pcr" "pc_ok (In_locked pch) = locked_ok pch"
  "pc_ok (In_lockForQOperation allow QLockWait)" "pc_ok (In_lockForQOperation allow (QLockRead mode))"
  "pc_ok (In_lockForQOperation allow (QLockCAS mode old)) = (old \<in> set valid_values)"
  "pc_ok (In_checkWaiters k (CheckUnlock from)) = (from \<in> {4, 8})" "pc_ok (In_checkWaiters k CheckStart)" "pc_ok (In_checkWaiters k CheckLock)"
  "pc_ok (In_checkWaiters k Getting)" "pc_ok (In_checkWaiters k ToDelivering)" "pc_ok (In_checkWaiters k Delivering)"
  "pc_ok (In_addPendFlag k ReadStatus)" "pc_ok (In_addPendFlag k (SwapStatus old)) = (old \<in> set (8 # pend_values))"
  "request_ok ReadStatus" "request_ok (SwapStatus old) = (old \<in> set valid_values)"
  by (simp_all add: pc_ok_def request_ok_def)

lemma complete_values [simp]: "complete_view CompleteRead = pend_values" "complete_ok CompleteRead" "pend_values \<noteq> []" "0x10 \<in> set pend_values" "0x40 \<in> set pend_values"
  by (simp_all add: complete_view_def complete_ok_def pend_values_def)

lemma held_values [simp]:
  "locked_view (QHeld 8 old) = 8 # pend_values" "locked_view (QHeld 0x1000000 old) = [0x1000000]" "locked_view (DumpHeld old) = 8 # pend_values"
  "locked_view (QUnlock 8 old) = 8 # pend_values" "locked_view (QUnlock 0x1000000 old) = [0x1000000]" "locked_view (DumpUnlock old) = 8 # pend_values"
  "locked_ok (QHeld 8 2)" "locked_ok (QHeld 0x1000000 0)" "locked_ok (QHeld 0x1000000 1)" "locked_ok (DumpHeld 0)" "locked_ok (DumpHeld 1)" "locked_ok (DumpHeld 2)"
  by (simp_all add: locked_view_def locked_ok_def)

lemma enable_ok:
  assumes st: "st \<in> set valid_values" and pc: "pc_ok (In_enableWaiter later pc)"
  shows "step_ok st (ieq_enableWaiter later pc st)"
proof (cases pc)
  case (EnableCAS old)
  have "old \<in> set valid_values" using pc EnableCAS by simp
  then have "step_ok st (enable_swap later old st)"
    unfolding enable_swap_def Let_def by (rule valid_cases) (simp_all add: step_ok_simps st)
  then show ?thesis using EnableCAS by (simp add: ieq_enableWaiter_def)
next
  case (EnableEnd old rc)
  then show ?thesis using st by (simp add: ieq_enableWaiter_def step_ok_return)
qed (use st in \<open>simp add: ieq_enableWaiter_def step_ok_simp\<close>)

lemma disable_ok:
  assumes st: "st \<in> set valid_values" and pc: "request_ok pc"
  shows "step_ok st (ieq_disableWaiter pc st)"
proof (cases pc)
  case (SwapStatus old)
  have "old \<in> set valid_values" using pc SwapStatus by simp
  then have "step_ok st (disable_swap old st)"
    unfolding disable_swap_def Let_def by (rule valid_cases) (simp_all add: step_ok_simps st)
  then show ?thesis using SwapStatus by (simp add: ieq_disableWaiter_def)
qed (use st in \<open>simp add: ieq_disableWaiter_def step_ok_simp\<close>)

lemma init_ok:
  assumes st: "st \<in> set valid_values" and pc: "request_ok pc"
  shows "step_ok st (iesq_initWaiter pc st)" "step_ok st (ieiq_initWaiter st)"
proof -
  show "step_ok st (iesq_initWaiter pc st)"
  proof (cases pc)
    case (SwapStatus old)
    have "old \<in> set valid_values" using pc SwapStatus by simp
    then show ?thesis unfolding SwapStatus iesq_initWaiter_def request_pc.case Let_def by (rule valid_cases) (simp_all add: step_ok_simps st)
  qed (use st in \<open>simp add: iesq_initWaiter_def step_ok_simp\<close>)
  show "step_ok st (ieiq_initWaiter st)"
    using st by (simp add: ieiq_initWaiter_def step_ok_return step_ok_simp is_locked_values iews_defs)
qed

lemma term_ok:
  assumes st: "st \<in> set valid_values" and pc: "request_ok pc"
  shows "step_ok st (iesq_termWaiter pc st)" "step_ok st (ieiq_termWaiter pc st)"
proof -
  have "step_ok st (iesq_termWaiter pc st) \<and> step_ok st (ieiq_termWaiter pc st)"
  proof (cases pc)
    case (SwapStatus old)
    have "old \<in> set valid_values" using pc SwapStatus by simp
    then show ?thesis unfolding SwapStatus iesq_termWaiter_def ieiq_termWaiter_def request_pc.case Let_def
      by (rule valid_cases) (simp_all add: step_ok_simps st)
  qed (use st in \<open>simp add: iesq_termWaiter_def ieiq_termWaiter_def step_ok_simp\<close>)
  then show "step_ok st (iesq_termWaiter pc st)" "step_ok st (ieiq_termWaiter pc st)" by simp_all
qed

lemma reclaim_lock_ok:
  assumes st: "st \<in> set valid_values" and pc: "request_ok pc"
  shows "step_ok st (iews_tryLockForReclaimSpace pc st)"
proof (cases pc)
  case (SwapStatus old)
  have "old \<in> set valid_values" using pc SwapStatus by simp
  then show ?thesis unfolding SwapStatus iews_tryLockForReclaimSpace_def request_pc.case Let_def
    by (rule valid_cases) (simp_all add: step_ok_simps st)
qed (use st in \<open>simp add: iews_tryLockForReclaimSpace_def step_ok_simp\<close>)

lemma qlock_failed_ok: "st \<in> set valid_values \<Longrightarrow> step_ok st (qlock_failed c allow mode st)"
  by (cases mode) (simp_all add: qlock_failed_def step_ok_simp step_ok_return)

lemma queue_lock_ok:
  assumes st: "st \<in> set valid_values" and pc: "pc_ok (In_lockForQOperation allow pc)"
  shows "step_ok st (iews_getLockForQOperation c allow pc st)"
proof (cases pc)
  case (QLockCAS mode old)
  have "old \<in> set valid_values" using pc QLockCAS by simp
  then have "step_ok st (iews_tryLockForQOperation c allow mode old st)"
    unfolding iews_tryLockForQOperation_def Let_def
    by (rule valid_cases) (cases allow; simp add: step_ok_simps st qlock_failed_ok)+
  then show ?thesis using QLockCAS by (simp add: iews_getLockForQOperation_def)
qed (use st in \<open>simp_all add: iews_getLockForQOperation_def step_ok_simp\<close>)

lemma dump_lock_ok:
  assumes st: "st \<in> set valid_values" and pc: "request_ok pc"
  shows "step_ok st (iesq_lockConsumerForDump c again pc st)"
proof (cases pc)
  case (SwapStatus old)
  have "old \<in> set valid_values" using pc SwapStatus by simp
  then show ?thesis unfolding SwapStatus iesq_lockConsumerForDump_def request_pc.case Let_def
    by (rule valid_cases) (simp_all add: step_ok_simps st)
qed (use st in \<open>simp add: iesq_lockConsumerForDump_def step_ok_simp\<close>)

text \<open>The holder of the lock.\<close>

lemma pend_subset: "x \<in> set pend_values \<Longrightarrow> x \<in> set valid_values" "x \<in> set disable_values \<Longrightarrow> x \<in> set valid_values" "x \<in> set disconnect_values \<Longrightarrow> x \<in> set valid_values"
  by (auto simp: value_defs)

lemma pend_cases:
  assumes "x \<in> set pend_values"
    and "P 0x10" "P 0x30" "P 0x40" "P 0x50" "P 0x80" "P 0x90" "P 0xB0" "P 0xC0" "P 0xD0"
  shows "P x"
  using assms by (auto simp: value_defs)

lemma disable_cases:
  assumes "x \<in> set disable_values" and "P 0x10" "P 0x30" "P 0x50" "P 0x90" "P 0xB0" "P 0xD0"
  shows "P x"
  using assms by (auto simp: value_defs)

lemma disconnect_cases:
  assumes "x \<in> set disconnect_values" and "P 0x40" "P 0xC0"
  shows "P x"
  using assms by (auto simp: value_defs)

lemmas holder_ok_simps = holder_ok_simp return_holder_ok holder_ok_cas is_locked_values iews_defs check_defs

lemma in_values [simp]:
  "0x10 \<in> set disable_values" "0x30 \<in> set disable_values" "0x50 \<in> set disable_values" "0x90 \<in> set disable_values" "0xB0 \<in> set disable_values" "0xD0 \<in> set disable_values"
  "0x40 \<notin> set disable_values" "0xC0 \<notin> set disable_values" "0x40 \<in> set disconnect_values" "0xC0 \<in> set disconnect_values"
  "0x30 \<in> set pend_values" "0x50 \<in> set pend_values" "0x80 \<in> set pend_values" "0x90 \<in> set pend_values" "0xB0 \<in> set pend_values" "0xC0 \<in> set pend_values" "0xD0 \<in> set pend_values"
  "disable_values \<noteq> []" "disconnect_values \<noteq> []"
  by (simp_all add: value_defs)

lemmas complete_simps = complete_view_def complete_ok_def ieq_completeWaiterActions_def

lemma complete_read_ok: "st \<in> set pend_values \<Longrightarrow> holder_ok (ieq_completeWaiterActions allow enabled k CompleteRead st)"
  by (rule pend_cases) (simp_all add: complete_simps holder_ok_simps)

lemma complete_reclaim_ok: "st \<in> set pend_values \<Longrightarrow> holder_ok (ieq_completeWaiterActions allow enabled k CompleteReclaim st)"
  by (rule pend_cases) (simp_all add: complete_simps holder_ok_simps Let_def)

lemma end_values: "old \<in> set pend_values \<Longrightarrow>
    old \<in> set disable_values \<and> has_bits old 0x10 \<or> old \<notin> set disable_values \<and> \<not> has_bits old 0x10 \<and> (old = 0x80 \<or> has_bits old 0x40)"
  by (rule pend_cases) (simp_all add: disable_values_def has_bits_def)

lemma complete_end_ok:
  assumes old: "old \<in> set pend_values" "old \<noteq> 0x80" and st: "st \<in> set (if old \<in> set disable_values then disable_values else disconnect_values)"
  shows "holder_ok (complete_end allow enabled k old st)"
proof -
  have "has_bits old 0x10 \<and> st \<in> set disable_values \<or> \<not> has_bits old 0x10 \<and> has_bits old 0x40 \<and> st \<in> set disconnect_values"
    using end_values [OF old(1)] old(2) st by (auto split: if_splits)
  then show ?thesis
    using pend_subset(2,3) [of st] by (auto simp: complete_end_def Let_def holder_ok_simp complete_view_def complete_ok_def
        IEWS_WAITERSTATUS_DISABLE_PEND_def IEWS_WAITERSTATUS_DISCONNECT_PEND_def)
qed

lemma complete_disable_ok:
  assumes st: "st \<in> set disable_values" and old: "old \<in> set disable_values"
  shows "holder_ok (complete_disable_swap allow enabled k release old st)"
  using old unfolding complete_disable_swap_def Let_def
  by (rule disable_cases) (use st pend_subset(2) [OF st] in \<open>simp_all add: holder_ok_simps complete_view_def complete_ok_def\<close>)

lemma complete_disconnect_ok:
  assumes st: "st \<in> set disconnect_values" and old: "old \<in> set disconnect_values"
  shows "holder_ok (complete_disconnect_swap allow enabled k release old st)"
  using old unfolding complete_disconnect_swap_def Let_def
  by (rule disconnect_cases) (use st pend_subset(3) [OF st] in \<open>simp_all add: holder_ok_simps complete_view_def complete_ok_def\<close>)

lemma complete_ok:
  assumes st: "st \<in> set (complete_view pc)" and pc: "complete_ok pc"
  shows "holder_ok (ieq_completeWaiterActions allow enabled k pc st)"
proof (cases pc)
  case CompleteUnlock
  then have "st = 8 \<or> st \<in> set pend_values" using st by (simp add: complete_view_def)
  then show ?thesis using CompleteUnlock by (auto simp: ieq_completeWaiterActions_def holder_ok_simps pend_subset)
next
  case (CompleteEnd old)
  then show ?thesis using st pc complete_end_ok [of old st] by (simp add: complete_simps)
next
  case (DisableCAS release old)
  then show ?thesis using st pc complete_disable_ok [of st old] by (simp add: complete_simps)
next
  case (DisconnectCAS release old)
  then show ?thesis using st pc complete_disconnect_ok [of st old] by (simp add: complete_simps)
next
  case CompleteRead
  then show ?thesis using st complete_read_ok by simp
next
  case CompleteReclaim
  then show ?thesis using st complete_reclaim_ok by (simp add: complete_view_def)
qed (use st pend_subset in \<open>auto simp: complete_view_def ieq_completeWaiterActions_def holder_ok_simp complete_ok_def\<close>)

lemma check_ok:
  assumes st: "st \<in> set valid_values"
  shows "step_ok st (iesq_checkWaiters c k CheckStart st)" "step_ok st (iesq_checkWaiters c k CheckLock st)" "step_ok st (iesq_putToWaitingGetter c PutLock st)"
  using st by (simp_all add: iesq_checkWaiters_def iesq_putToWaitingGetter_def step_ok_simp step_ok_return check_view_def is_locked_values iews_defs)

lemma check_holder_ok:
  assumes st: "st \<in> set (check_view pc)" and pc: "pc_ok (In_checkWaiters k pc)"
  shows "holder_ok (iesq_checkWaiters c k pc st)"
proof (cases pc)
  case (CheckUnlock fs)
  then have "fs = 4 \<or> fs = 8" "st = fs \<or> st \<in> set pend_values" using st pc by (simp_all add: check_view_def)
  then show ?thesis using CheckUnlock by (auto simp: iesq_checkWaiters_def holder_ok_simps pend_subset)
next
  case ToDelivering
  then have "st = 4 \<or> st \<in> set pend_values" using st by (simp add: check_view_def)
  then show ?thesis using ToDelivering by (auto simp: iesq_checkWaiters_def holder_ok_simps check_view_def pend_subset)
qed (use st in \<open>auto simp: iesq_checkWaiters_def holder_ok_simp check_view_def pend_subset IEWS_WAITERSTATUS_GETTING_def IEWS_WAITERSTATUS_DELIVERING_def\<close>)

lemma put_holder_ok:
  assumes st: "st \<in> set (8 # pend_values)" and pc: "pc \<noteq> PutLock"
  shows "holder_ok (iesq_putToWaitingGetter c pc st)"
  using assms by (cases pc) (auto simp: iesq_putToWaitingGetter_def holder_ok_simps pend_subset)

lemma add_pend_ok:
  assumes st: "st \<in> set (8 # pend_values)" and pc: "pc_ok (In_addPendFlag k pc)"
  shows "holder_ok (iews_addPendFlagWhileLocked k IEWS_WAITERSTATUS_DISABLE_PEND pc st)"
proof (cases pc)
  case ReadStatus
  then show ?thesis using st by (auto simp: iews_addPendFlagWhileLocked_def holder_ok_simp pend_subset)
next
  case (SwapStatus old)
  have valid: "st \<in> set valid_values" using st by (auto simp: pend_subset)
  have "?thesis" if "old \<in> set pend_values"
    using that unfolding SwapStatus iews_addPendFlagWhileLocked_def request_pc.case Let_def
    by (rule pend_cases) (use st valid in \<open>simp_all add: holder_ok_simps\<close>)
  moreover have "?thesis" if "old = 8"
    using SwapStatus st that by (auto simp: iews_addPendFlagWhileLocked_def holder_ok_simps pend_subset)
  ultimately show ?thesis using pc SwapStatus by auto
qed

lemma locked_step_ok:
  assumes st: "st \<in> set (locked_view pc)" and pc: "locked_ok pc"
  shows "holder_ok (locked_step pc st)"
proof (cases pc)
  case (QHeld new old)
  then show ?thesis using st pc by (auto simp: locked_step_def locked_ok_def locked_view_def holder_ok_simp pend_subset split: if_splits)
next
  case (QUnlock new old)
  then have "new = 8 \<and> old = 2 \<and> (st = 8 \<or> st \<in> set pend_values) \<or> new = 0x1000000 \<and> (old = 0 \<or> old = 1) \<and> st = 0x1000000"
    using st pc by (auto simp: locked_ok_def)
  then show ?thesis using QUnlock by (auto simp: locked_step_def iews_unlockAfterQOperation_def holder_ok_simps pend_subset)
next
  case (DumpUnlock old)
  then show ?thesis using st pc by (auto simp: locked_step_def dump_unlock_def locked_ok_def holder_ok_simps pend_subset)
qed (use st pc in \<open>auto simp: locked_step_def locked_ok_def holder_ok_simp pend_subset\<close>)

section \<open>Every reachable state\<close>

text \<open>A step of a thread that does not hold the lock, and of the thread that does.\<close>

lemma thread_step_ok:
  assumes "st \<in> set valid_values" "pc_ok pc" "view pc = []"
  shows "step_ok st (thread_step c st pc)"
proof (cases pc)
  case (In_checkWaiters k p)
  then have "p = CheckStart \<or> p = CheckLock" using assms(3) by (cases p) (simp_all add: check_view_def)
  then show ?thesis using In_checkWaiters assms(1) check_ok by (auto simp: thread_step_def)
next
  case (In_putToWaitingGetter p)
  then have "p = PutLock" using assms(3) by (auto split: if_splits)
  then show ?thesis using In_putToWaitingGetter assms(1) check_ok by (simp add: thread_step_def)
next
  case (In_completeWaiterActions allow enabled k p)
  then show ?thesis using assms(3) by (cases p) (simp_all add: complete_view_def split: if_splits)
next
  case (In_locked p)
  then show ?thesis using assms(3) by (cases p) (simp_all add: locked_view_def split: if_splits)
qed (use assms in \<open>simp_all add: thread_step_def step_ok_simp enable_ok disable_ok init_ok [of st ReadStatus] init_ok term_ok reclaim_lock_ok queue_lock_ok dump_lock_ok\<close>)

lemma holder_step_ok:
  assumes "st \<in> set (view pc)" "pc_ok pc"
  shows "holder_ok (thread_step c st pc)"
  using assms by (cases pc) (auto simp: thread_step_def check_holder_ok put_holder_ok add_pend_ok complete_ok locked_step_ok view_def split: if_splits)

lemma view_is:
  assumes "pc_ok pc" "view pc \<noteq> []"
  shows "view pc \<in> {4 # pend_values, 8 # pend_values, pend_values, disable_values, disconnect_values, [0x1000000]}"
proof (cases pc)
  case (In_checkWaiters k p)
  then show ?thesis using assms by (cases p) (auto simp: check_view_def)
next
  case (In_completeWaiterActions allow enabled k p)
  then show ?thesis by (cases p) (auto simp: complete_view_def)
next
  case (In_locked p)
  then show ?thesis by (cases p) (auto simp: locked_view_def)
qed (use assms in \<open>simp_all add: view_def split: if_splits\<close>)

lemma view_stable:
  assumes "pc_ok pc" "st \<in> set (view pc)" "stable st st'"
  shows "st' \<in> set (view pc)"
proof -
  have "view pc \<noteq> []" using assms(2) by auto
  then have "view pc \<in> {4 # pend_values, 8 # pend_values, pend_values, disable_values, disconnect_values, [0x1000000], stop_values, request_values}"
    using view_is [OF assms(1)] by blast
  from bspec [OF assms(3) [unfolded stable_def] this] show ?thesis using assms(2) by (rule mp)
qed

lemma view_locked:
  assumes "pc_ok pc" "st \<in> set (view pc)"
  shows "is_locked st"
proof -
  have "view pc \<noteq> []" using assms(2) by auto
  from view_is [OF assms(1) this] have "st \<in> set ([4, 8, 0x1000000] @ pend_values)" using assms(2) by (auto simp: value_defs)
  then show ?thesis by (auto simp: value_defs is_locked_values)
qed

lemma sys_inv_initial: "sys_inv initial"
  by (simp add: sys_inv_def initial_def iews_defs is_locked_values)

lemma sys_inv_start:
  assumes inv: "sys_inv s" and p: "thread s p = Idle" and pc: "pc \<in> set entry_points"
  shows "sys_inv (s\<lparr>thread := (thread s)(p := pc)\<rparr>)"
proof -
  have "view pc = [] \<and> pc_ok pc" using pc by (auto simp: entry_points_def check_view_def)
  then show ?thesis using inv p unfolding sys_inv_def by (auto split: if_splits) (metis view_simps(1))
qed

lemma sys_inv_holder:
  assumes inv: "sys_inv s" and p: "view (thread s p) \<noteq> []" and r: "holder_ok (st, pc, evs)"
  shows "sys_inv (s\<lparr>status := st, thread := (thread s)(p := pc)\<rparr>)"
proof -
  have "view (thread s q) = []" if "q \<noteq> p" for q using inv p that by (auto simp: sys_inv_def)
  then show ?thesis using inv r by (auto simp: sys_inv_def holder_ok_simp split: if_splits)
qed

lemma sys_inv_other:
  assumes inv: "sys_inv s" and p: "view (thread s p) = []" and r: "step_ok (status s) (st, pc, evs)"
  shows "sys_inv (s\<lparr>status := st, thread := (thread s)(p := pc)\<rparr>)"
proof (cases "is_locked (status s)")
  case True
  then have "st \<in> set valid_values" "is_locked st" "pc_ok pc" "view pc = []" "stable (status s) st" using r by (simp_all add: step_ok_simp)
  moreover have "st \<in> set (view (thread s q))" if "view (thread s q) \<noteq> []" for q
    using inv that \<open>stable (status s) st\<close> by (auto simp: sys_inv_def intro: view_stable)
  moreover obtain q where "view (thread s q) \<noteq> []" using inv True by (auto simp: sys_inv_def)
  moreover have "q \<noteq> p" using p calculation by auto
  ultimately show ?thesis using inv by (auto simp: sys_inv_def)
next
  case False
  then have "view (thread s q) = []" for q using inv view_locked [of "thread s q" "status s"] by (auto simp: sys_inv_def)
  then show ?thesis using inv r False by (auto simp: sys_inv_def step_ok_simp split: if_splits)
qed

lemma sys_inv_step:
  assumes inv: "sys_inv s" and step: "sys_step s evs t"
  shows "sys_inv t"
  using step
proof cases
  case (start p pc)
  then show ?thesis using inv sys_inv_start by simp
next
  case (run c p st pc)
  show ?thesis
  proof (cases "view (thread s p) = []")
    case True
    then have "step_ok (status s) (st, pc, evs)" using inv thread_step_ok [of "status s" "thread s p" c] run by (simp add: sys_inv_def)
    then show ?thesis using sys_inv_other [OF inv True] run by simp
  next
    case False
    then have "holder_ok (st, pc, evs)" using inv holder_step_ok [of "status s" "thread s p" c] run by (simp add: sys_inv_def)
    then show ?thesis using sys_inv_holder [OF inv False] run by simp
  qed
qed

lemma sys_inv_reachable: "reachable s \<Longrightarrow> sys_inv s"
  by (induction rule: reachable.induct) (auto intro: sys_inv_initial sys_inv_step)

end
