(* ===== verification/WaiterProgress.thy ===== *)
theory WaiterProgress
  imports WaiterSafety
begin

text \<open>
  Properties of the status word of a consumer in every reachable state: who holds the lock, which values the word has, that the holder
  gives the lock back and serves the requests it finds, and what is reported for the consumer. Progress is by a rank of the
  places of the holder that every one of its steps lowers.
\<close>

section \<open>Holding the lock\<close>

definition holds_lock :: "pc \<Rightarrow> bool" where
  "holds_lock pc = (case pc of In_checkWaiters k pc \<Rightarrow> pc \<noteq> CheckStart \<and> pc \<noteq> CheckLock
     | In_putToWaitingGetter pc \<Rightarrow> pc \<noteq> PutLock
     | In_addPendFlag k pc \<Rightarrow> True
     | In_completeWaiterActions allow enabled k pc \<Rightarrow> True
     | In_locked pc \<Rightarrow> True
     | _ \<Rightarrow> False)"

text \<open>
  A schedule: calls that start and steps of threads, each with the input of the step. \<open>exec\<close> is a schedule of steps alone.
\<close>

datatype action = Start nat pc | Run nat bool

fun actor :: "action \<Rightarrow> nat" where
  "actor (Start p pc) = p"
| "actor (Run p c) = p"

fun act :: "action \<Rightarrow> sys \<Rightarrow> sys" where
  "act (Start p pc) s = (if thread s p = Idle \<and> pc \<in> set entry_points then s\<lparr>thread := (thread s)(p := pc)\<rparr> else s)"
| "act (Run p c) s = (case thread_step c (status s) (thread s p) of (st, pc, evs) \<Rightarrow> s\<lparr>status := st, thread := (thread s)(p := pc)\<rparr>)"

fun sched :: "action list \<Rightarrow> sys \<Rightarrow> sys" where
  "sched [] s = s"
| "sched (a # acts) s = sched acts (act a s)"

fun exec :: "(nat \<times> bool) list \<Rightarrow> sys \<Rightarrow> sys" where
  "exec [] s = s"
| "exec ((p, c) # steps) s = exec steps (act (Run p c) s)"

text \<open>The steps of a thread in a schedule, and how often another thread changes the status word in it.\<close>

fun own_steps :: "nat \<Rightarrow> action list \<Rightarrow> nat" where
  "own_steps p [] = 0"
| "own_steps p (a # acts) = (case a of Run q c \<Rightarrow> if q = p then 1 else 0 | Start q pc \<Rightarrow> 0) + own_steps p acts"

fun changes_by_others :: "nat \<Rightarrow> action list \<Rightarrow> sys \<Rightarrow> nat" where
  "changes_by_others p [] s = 0"
| "changes_by_others p (a # acts) s =
     (if actor a \<noteq> p \<and> status (act a s) \<noteq> status s then 1 else 0) + changes_by_others p acts (act a s)"

text \<open>The codes that the calls of a thread return in a schedule.\<close>

definition codes :: "event list \<Rightarrow> int list" where
  "codes evs = List.map_filter (\<lambda>ev. case ev of Return rc \<Rightarrow> Some rc | _ \<Rightarrow> None) evs"

fun returned :: "nat \<Rightarrow> action list \<Rightarrow> sys \<Rightarrow> int list" where
  "returned p [] s = []"
| "returned p (a # acts) s =
     (case a of Run q c \<Rightarrow> if q = p then codes (snd (snd (thread_step c (status s) (thread s q)))) else [] | Start q pc \<Rightarrow> [])
     @ returned p acts (act a s)"

definition call :: "nat \<Rightarrow> pc \<Rightarrow> sys \<Rightarrow> sys" where
  "call p pc s = s\<lparr>thread := (thread s)(p := pc)\<rparr>"

text \<open>
  A consumer that is connected and enabled in thread 0 and to which thread 1 delivers a message, while thread 2 asks to disable it.
\<close>

definition delivering :: sys where
  "delivering = exec [(1, True)] (call 1 (In_putToWaitingGetter PutLock)
     (exec [(0, True), (0, True), (0, True)] (call 0 (In_enableWaiter True EnableRead) (exec [(0, True)] (call 0 In_ieiq_initWaiter initial)))))"

definition disable_requested :: sys where
  "disable_requested = exec [(2, True), (2, True)] (call 2 (In_disableWaiter ReadStatus) delivering)"

text \<open>The places where a thread passes a message to the consumer.\<close>

definition passes_message :: "pc \<Rightarrow> bool" where
  "passes_message pc = (case pc of In_checkWaiters k pc \<Rightarrow> pc = Delivering | In_putToWaitingGetter pc \<Rightarrow> pc = PutDelivering | _ \<Rightarrow> False)"

text \<open>A dump of the queue in thread \<open>p\<close>, up to the lock of the consumer, with a call in thread \<open>q\<close> while the lock is held.\<close>

definition dump_with :: "nat \<Rightarrow> nat \<Rightarrow> pc \<Rightarrow> sys \<Rightarrow> sys" where
  "dump_with p q pc s = exec [(q, False), (q, False)] (call q pc (exec [(p, False), (p, False)] (call p (In_lockConsumerForDump False ReadStatus) s)))"

section \<open>The rank of the holder\<close>

definition reclaim_rank :: "u64 \<Rightarrow> nat" where
  "reclaim_rank st = (if has_bits st IEWS_WAITERSTATUS_RECLAIMSPACE_PEND then 2 else 0)"

definition complete_rank :: "complete_pc \<Rightarrow> u64 \<Rightarrow> nat" where
  "complete_rank pc st = (case pc of
       CompleteRead \<Rightarrow> if st = 0x80 then 3 else 9
     | CompleteReclaim \<Rightarrow> if st = 0x80 then 2 else 10
     | CompleteUnlock \<Rightarrow> if st = 8 then 1 else if st = 0x80 then 4 else 10
     | CompleteEnd old \<Rightarrow> 8
     | DisableRead release \<Rightarrow> 5 + reclaim_rank st
     | DisableCAS release old \<Rightarrow> (if st = old then 4 else 6) + reclaim_rank st
     | Disconnect release \<Rightarrow> 3 + reclaim_rank st
     | DisconnectRead release \<Rightarrow> 2 + reclaim_rank st
     | DisconnectCAS release old \<Rightarrow> (if st = old then 1 else 3) + reclaim_rank st)"

definition rank :: "pc \<Rightarrow> u64 \<Rightarrow> nat" where
  "rank pc st = (case pc of
       In_checkWaiters k pc \<Rightarrow> (case pc of Getting \<Rightarrow> 14 | ToDelivering \<Rightarrow> 13 | Delivering \<Rightarrow> 12 | _ \<Rightarrow> 11)
     | In_putToWaitingGetter pc \<Rightarrow> if pc = PutDelivering then 12 else 11
     | In_addPendFlag k pc \<Rightarrow> (case pc of ReadStatus \<Rightarrow> 11 | SwapStatus old \<Rightarrow> if st = old then 10 else 12)
     | In_completeWaiterActions allow enabled k pc \<Rightarrow> complete_rank pc st
     | In_locked pc \<Rightarrow> (case pc of QHeld new old \<Rightarrow> 12 | QUnlock new old \<Rightarrow> 11 | DumpHeld old \<Rightarrow> 12 | DumpUnlock old \<Rightarrow> 11)
     | _ \<Rightarrow> 0)"

text \<open>
  A request to disconnect stays until the consumer is disconnected, one to disable it until it is disabled or, where the request was
  cancelled, enabled.
\<close>

definition served :: "u64 \<Rightarrow> u64 \<Rightarrow> bool" where
  "served st st' \<longleftrightarrow> (st \<in> {0x40, 0x50, 0xC0, 0xD0} \<longrightarrow> st' = 0) \<and> (st \<in> {0x10, 0x90} \<longrightarrow> st' = 1) \<and> (st \<in> {0x30, 0xB0} \<longrightarrow> st' = 2)"

definition keeps_request :: "u64 \<Rightarrow> u64 \<Rightarrow> bool" where
  "keeps_request st st' \<longleftrightarrow> (st \<in> {0x40, 0x50, 0xC0, 0xD0} \<longrightarrow> st' \<in> {0x40, 0x50, 0xC0, 0xD0}) \<and> (st \<in> {0x10, 0x90} \<longrightarrow> st' \<in> {0x10, 0x90}) \<and>
     (st \<in> {0x30, 0xB0} \<longrightarrow> st' \<in> {0x30, 0xB0})"

definition progress :: "nat \<Rightarrow> u64 \<Rightarrow> result \<Rightarrow> bool" where
  "progress n st r = (case r of (st', pc, evs) \<Rightarrow> if holds_lock pc then rank pc st' < n \<and> keeps_request st st' else served st st')"

lemma holds_lock_view: "holds_lock pc \<longleftrightarrow> view pc \<noteq> []"
proof (cases pc)
  case (In_checkWaiters k p)
  then show ?thesis by (cases p) (simp_all add: holds_lock_def check_view_def)
next
  case (In_completeWaiterActions allow enabled k p)
  then show ?thesis by (cases p) (simp_all add: holds_lock_def complete_view_def)
next
  case (In_locked p)
  then show ?thesis by (cases p) (simp_all add: holds_lock_def locked_view_def)
qed (simp_all add: holds_lock_def view_def)

lemma progress_return: "progress n st (return_to st' evs k) \<longleftrightarrow> served st st'"
  using resume_ok [of k] by (cases "resume k") (simp add: progress_def return_to_def holds_lock_view)

lemma progress_simp: "progress n st (st', pc, evs) \<longleftrightarrow> (if holds_lock pc then rank pc st' < n \<and> keeps_request st st' else served st st')"
  by (simp add: progress_def)

lemma progress_cas:
  "check from to \<Longrightarrow> progress n st (cas check from to st done fail) \<longleftrightarrow> (if st = from then progress n from (done to) else progress n st fail)"
  by (simp add: cas_def)

lemma keeps_request_refl [simp]: "keeps_request st st"
  by (simp add: keeps_request_def)

lemma holds_lock_simps [simp]:
  "holds_lock (In_completeWaiterActions allow enabled k pcx)" "holds_lock (In_addPendFlag k pcr)" "holds_lock (In_locked pch)"
  "holds_lock (In_checkWaiters k Getting)" "holds_lock (In_checkWaiters k ToDelivering)" "holds_lock (In_checkWaiters k Delivering)" "holds_lock (In_checkWaiters k (CheckUnlock fs))"
  "holds_lock (In_putToWaitingGetter pcp) = (pcp \<noteq> PutLock)" "\<not> holds_lock (In_checkWaiters k CheckStart)" "\<not> holds_lock (In_checkWaiters k CheckLock)"
  by (simp_all add: holds_lock_def)

lemma rank_simps [simp]:
  "rank (In_completeWaiterActions allow enabled k pcx) st = complete_rank pcx st" "rank (In_addPendFlag k ReadStatus) st = 11"
  "rank (In_addPendFlag k (SwapStatus old)) st = (if st = old then 10 else 12)"
  "rank (In_checkWaiters k Getting) st = 14" "rank (In_checkWaiters k ToDelivering) st = 13" "rank (In_checkWaiters k Delivering) st = 12"
  "rank (In_checkWaiters k (CheckUnlock fs)) st = 11" "rank (In_putToWaitingGetter PutDelivering) st = 12" "rank (In_putToWaitingGetter PutUnlock) st = 11"
  "rank (In_locked (QHeld new old)) st = 12" "rank (In_locked (QUnlock new old)) st = 11" "rank (In_locked (DumpHeld old)) st = 12" "rank (In_locked (DumpUnlock old)) st = 11"
  by (simp_all add: rank_def)

lemma complete_rank_simps [simp]:
  "complete_rank CompleteRead st = (if st = 0x80 then 3 else 9)" "complete_rank CompleteReclaim st = (if st = 0x80 then 2 else 10)"
  "complete_rank CompleteUnlock st = (if st = 8 then 1 else if st = 0x80 then 4 else 10)" "complete_rank (CompleteEnd old) st = 8"
  "complete_rank (DisableRead release) st = 5 + reclaim_rank st" "complete_rank (DisableCAS release old) st = (if st = old then 4 else 6) + reclaim_rank st"
  "complete_rank (Disconnect release) st = 3 + reclaim_rank st" "complete_rank (DisconnectRead release) st = 2 + reclaim_rank st"
  "complete_rank (DisconnectCAS release old) st = (if st = old then 1 else 3) + reclaim_rank st"
  by (simp_all add: complete_rank_def)

lemmas progress_simps = progress_simp progress_return progress_cas iews_defs check_defs served_def keeps_request_def reclaim_rank_def

lemma complete_rank_le: "complete_rank pc st \<le> 14"
  by (cases pc) (simp_all add: reclaim_rank_def)

lemma rank_le: "rank pc st \<le> 14"
  using complete_rank_le by (auto simp: rank_def split: pc.split check_pc.split request_pc.split held_pc.split)

section \<open>Every step of the holder lowers its rank\<close>

lemma complete_read_progress: "st \<in> set pend_values \<Longrightarrow> progress (complete_rank CompleteRead st) st (ieq_completeWaiterActions allow enabled k CompleteRead st)"
  by (rule pend_cases) (simp_all add: ieq_completeWaiterActions_def progress_simps)

lemma complete_reclaim_progress:
  "st \<in> set pend_values \<Longrightarrow> progress (complete_rank CompleteReclaim st) st (ieq_completeWaiterActions allow enabled k CompleteReclaim st)"
  by (rule pend_cases) (simp_all add: ieq_completeWaiterActions_def progress_simps Let_def)

lemma complete_unlock_progress:
  "st \<in> set pend_values \<Longrightarrow> progress (complete_rank CompleteUnlock st) st (ieq_completeWaiterActions allow enabled k CompleteUnlock st)"
  by (rule pend_cases) (simp_all add: ieq_completeWaiterActions_def progress_simps Let_def)

lemma complete_end_progress:
  assumes old: "old \<in> set pend_values" "old \<noteq> 0x80"
  shows "progress 8 st (complete_end allow enabled k old st)"
  using end_values [OF old(1)] old(2)
  by (auto simp: complete_end_def Let_def progress_simp reclaim_rank_def IEWS_WAITERSTATUS_DISABLE_PEND_def IEWS_WAITERSTATUS_DISCONNECT_PEND_def)

lemma complete_disable_progress:
  assumes "old \<in> set disable_values"
  shows "progress (complete_rank (DisableCAS release old) st) st (complete_disable_swap allow enabled k release old st)"
  using assms unfolding complete_disable_swap_def Let_def
  by (rule disable_cases) (simp_all add: progress_simps)

lemma complete_disconnect_progress:
  assumes "old \<in> set disconnect_values"
  shows "progress (complete_rank (DisconnectCAS release old) st) st (complete_disconnect_swap allow enabled k release old st)"
  using assms unfolding complete_disconnect_swap_def Let_def
  by (rule disconnect_cases) (simp_all add: progress_simps)

lemma complete_progress:
  assumes st: "st \<in> set (complete_view pc)" and pc: "complete_ok pc"
  shows "progress (complete_rank pc st) st (ieq_completeWaiterActions allow enabled k pc st)"
proof (cases pc)
  case CompleteUnlock
  then have "st = 8 \<or> st \<in> set pend_values" using st by (simp add: complete_view_def)
  then show ?thesis using CompleteUnlock complete_unlock_progress [of st] by (auto simp: ieq_completeWaiterActions_def progress_simps)
next
  case (CompleteEnd old)
  then show ?thesis using pc complete_end_progress [of old st] by (simp add: complete_simps)
next
  case (DisableCAS release old)
  then show ?thesis using pc complete_disable_progress [of old] by (simp add: complete_simps)
next
  case (DisconnectCAS release old)
  then show ?thesis using pc complete_disconnect_progress [of old] by (simp add: complete_simps)
next
  case CompleteRead
  then show ?thesis using st complete_read_progress [of st] by (simp add: complete_simps)
next
  case CompleteReclaim
  then show ?thesis using st complete_reclaim_progress [of st] by (simp add: complete_view_def)
qed (simp_all add: ieq_completeWaiterActions_def progress_simp)

lemma check_progress:
  assumes st: "st \<in> set (check_view pc)" and pc: "pc_ok (In_checkWaiters k pc)"
  shows "progress (rank (In_checkWaiters k pc) st) st (iesq_checkWaiters c k pc st)"
proof (cases pc)
  case (CheckUnlock fs)
  then have "fs = 4 \<or> fs = 8" "st = fs \<or> st \<in> set pend_values" using st pc by (simp_all add: check_view_def)
  then show ?thesis using CheckUnlock by (auto simp: iesq_checkWaiters_def progress_simp progress_return progress_cas iews_defs check_defs served_def)
next
  case ToDelivering
  then show ?thesis by (simp add: iesq_checkWaiters_def progress_simps)
qed (use st in \<open>auto simp: iesq_checkWaiters_def progress_simp check_view_def\<close>)

lemma put_progress:
  assumes "pc \<noteq> PutLock"
  shows "progress (rank (In_putToWaitingGetter pc) st) st (iesq_putToWaitingGetter c pc st)"
  using assms by (cases pc) (simp_all add: iesq_putToWaitingGetter_def progress_simp progress_return progress_cas iews_defs check_defs served_def)

lemma add_pend_progress:
  assumes pc: "pc_ok (In_addPendFlag k pc)"
  shows "progress (rank (In_addPendFlag k pc) st) st (iews_addPendFlagWhileLocked k IEWS_WAITERSTATUS_DISABLE_PEND pc st)"
proof (cases pc)
  case ReadStatus
  then show ?thesis by (simp add: iews_addPendFlagWhileLocked_def progress_simp)
next
  case (SwapStatus old)
  have "?thesis" if "old \<in> set pend_values"
    using that unfolding SwapStatus iews_addPendFlagWhileLocked_def request_pc.case Let_def
    by (rule pend_cases) (simp_all add: progress_simps)
  moreover have "?thesis" if "old = 8"
    using SwapStatus that by (simp add: iews_addPendFlagWhileLocked_def progress_simps)
  ultimately show ?thesis using pc SwapStatus by auto
qed

lemma locked_progress:
  assumes st: "st \<in> set (locked_view pc)" and pc: "locked_ok pc"
  shows "progress (rank (In_locked pc) st) st (locked_step pc st)"
proof (cases pc)
  case (QUnlock new old)
  then have "new = 8 \<and> old = 2 \<and> (st = 8 \<or> st \<in> set pend_values) \<or> new = 0x1000000 \<and> (old = 0 \<or> old = 1) \<and> st = 0x1000000"
    using st pc by (auto simp: locked_ok_def)
  then show ?thesis using QUnlock
    by (auto simp: locked_step_def iews_unlockAfterQOperation_def progress_simp progress_return progress_cas iews_defs check_defs served_def)
next
  case (DumpUnlock old)
  then show ?thesis by (simp add: locked_step_def dump_unlock_def progress_simp progress_return progress_cas iews_defs served_def)
qed (simp_all add: locked_step_def progress_simp)

lemma holder_progress:
  assumes "st \<in> set (view pc)" "pc_ok pc"
  shows "progress (rank pc st) st (thread_step c st pc)"
proof (cases pc)
  case (In_putToWaitingGetter p)
  then have "p \<noteq> PutLock" using assms(1) by auto
  then show ?thesis using put_progress [of p st c] In_putToWaitingGetter by (simp add: thread_step_def)
qed (use assms in \<open>simp_all add: thread_step_def check_progress complete_progress locked_progress add_pend_progress view_def [of Failed] del: rank_simps(2-)\<close>)

section \<open>Runs of the system\<close>

lemma act_step: "act a s = s \<or> (\<exists>evs. sys_step s evs (act a s))"
proof (cases a)
  case (Start p pc)
  then show ?thesis by (auto intro: sys_step.start)
next
  case (Run p c)
  obtain st pc evs where "thread_step c (status s) (thread s p) = (st, pc, evs)" by (metis prod_cases3)
  then show ?thesis using Run sys_step.run [of c s p st pc evs] by auto
qed

lemma act_reachable: "reachable s \<Longrightarrow> reachable (act a s)"
  using act_step [of a s] reachable.step by metis

lemma act_inv: "sys_inv s \<Longrightarrow> sys_inv (act a s)"
  using act_step [of a s] sys_inv_step by metis

lemma sched_inv: "sys_inv s \<Longrightarrow> sys_inv (sched acts s)"
  by (induction acts arbitrary: s) (simp_all add: act_inv)

lemma exec_reachable: "reachable s \<Longrightarrow> reachable (exec steps s)"
  by (induction steps s rule: exec.induct) (simp_all add: act_reachable del: act.simps)

lemma exec_sched: "exec (map (Pair p) cs) s = sched (map (Run p) cs) s"
  by (induction cs arbitrary: s) simp_all

lemma sched_append: "sched (acts @ acts') s = sched acts' (sched acts s)"
  by (induction acts arbitrary: s) simp_all

lemma sched_take_Suc: "n < length acts \<Longrightarrow> sched (take (Suc n) acts) s = act (acts ! n) (sched (take n acts) s)"
  by (simp add: take_Suc_conv_app_nth sched_append)

lemma act_other: "actor a \<noteq> q \<Longrightarrow> thread (act a s) q = thread s q"
  by (cases a) (auto split: prod.split)

lemma call_reachable: "reachable s \<Longrightarrow> thread s p = Idle \<Longrightarrow> pc \<in> set entry_points \<Longrightarrow> reachable (call p pc s)"
  unfolding call_def by (blast intro: reachable.step sys_step.start)

lemma rank_pos: "holds_lock pc \<Longrightarrow> 0 < rank pc st"
proof (cases pc)
  case (In_completeWaiterActions allow enabled k p)
  then show ?thesis by (cases p) simp_all
qed (simp_all add: rank_def holds_lock_def split: check_pc.split request_pc.split held_pc.split)

text \<open>An action while a thread holds the lock: the steps of the holder lower its rank, those of others keep the requests.\<close>

lemma act_holder:
  assumes inv: "sys_inv s" and p: "holds_lock (thread s p)"
  shows "progress (rank (thread s p) (status s)) (status s) (thread_step c (status s) (thread s p))"
  using assms by (intro holder_progress) (simp_all add: sys_inv_def holds_lock_view)

lemma act_by_holder:
  assumes inv: "sys_inv s" and p: "holds_lock (thread s p)"
  shows "if holds_lock (thread (act (Run p c) s) p)
    then rank (thread (act (Run p c) s) p) (status (act (Run p c) s)) < rank (thread s p) (status s) \<and> keeps_request (status s) (status (act (Run p c) s))
    else served (status s) (status (act (Run p c) s))"
proof -
  obtain st pc evs where r: "thread_step c (status s) (thread s p) = (st, pc, evs)" by (metis prod_cases3)
  then show ?thesis using act_holder [OF assms, of c] by (simp add: progress_simp)
qed

lemma start_of_holder: "holds_lock (thread s p) \<Longrightarrow> act (Start p pc) s = s"
  by (auto simp: holds_lock_def)

lemma act_by_other:
  assumes inv: "sys_inv s" and p: "holds_lock (thread s p)" and a: "actor a \<noteq> p"
  shows "stable (status s) (status (act a s))"
proof (cases a)
  case (Run q c)
  have "view (thread s q) = []" using inv p a Run by (auto simp: sys_inv_def holds_lock_view)
  then have ok: "step_ok (status s) (thread_step c (status s) (thread s q))" using inv by (intro thread_step_ok) (simp_all add: sys_inv_def)
  obtain st pc evs where r: "thread_step c (status s) (thread s q) = (st, pc, evs)" by (metis prod_cases3)
  have "is_locked (status s)" using inv p view_locked [of "thread s p" "status s"] by (simp add: sys_inv_def holds_lock_view)
  then show ?thesis using ok r Run by (simp add: step_ok_simp)
qed simp

text \<open>
  However the steps of the threads are interleaved, the holder releases the lock once it has made as many steps as its rank is, and
  14 more for every change of the status word by another thread.
\<close>

lemma holder_releases:
  assumes "sys_inv s" "holds_lock (thread s p)" "rank (thread s p) (status s) + 14 * changes_by_others p acts s \<le> own_steps p acts"
  shows "\<exists>n \<le> length acts. \<not> holds_lock (thread (sched (take n acts) s) p) \<and> (\<forall>m < n. holds_lock (thread (sched (take m acts) s) p))"
  using assms
proof (induction acts arbitrary: s)
  case Nil
  then show ?case using rank_pos [OF Nil(2), of "status s"] by simp
next
  case (Cons a acts)
  show ?case
  proof (cases "holds_lock (thread (act a s) p)")
    case False
    then show ?thesis using Cons.prems(2) by (intro exI [of _ 1]) simp
  next
    case True
    have "rank (thread (act a s) p) (status (act a s)) + 14 * changes_by_others p acts (act a s) \<le> own_steps p acts"
    proof (cases "actor a = p")
      case own: True
      show ?thesis
      proof (cases a)
        case (Start q pc)
        then show ?thesis using own Cons.prems(3) start_of_holder [OF Cons.prems(2), of pc] by simp
      next
        case (Run q c)
        then have "a = Run p c" using own by simp
        then show ?thesis using True Cons.prems(3) act_by_holder [OF Cons.prems(1,2), of c] by (simp del: act.simps)
      qed
    next
      case False
      then have "thread (act a s) p = thread s p" by (rule act_other)
      moreover have "own_steps p (a # acts) = own_steps p acts" using False by (cases a) simp_all
      ultimately show ?thesis using Cons.prems(3) False rank_le [of "thread s p" "status (act a s)"]
        by (cases "status (act a s) = status s") simp_all
    qed
    from Cons.IH [OF act_inv [OF Cons.prems(1)] True this] obtain n where n: "n \<le> length acts"
      "\<not> holds_lock (thread (sched (take n acts) (act a s)) p)" "\<forall>m < n. holds_lock (thread (sched (take m acts) (act a s)) p)" by blast
    then show ?thesis using Cons.prems(2) by (intro exI [of _ "Suc n"]) (auto simp: less_Suc_eq_0_disj)
  qed
qed

text \<open>What an action makes of the requests in the status word while a thread holds the lock, and when it gives the lock back.\<close>

lemma act_requests:
  assumes inv: "sys_inv s" and p: "holds_lock (thread s p)" and p': "holds_lock (thread (act a s) p)"
  shows "(status s \<in> set stop_values \<longrightarrow> status (act a s) \<in> set stop_values) \<and> (status s \<in> set request_values \<longrightarrow> status (act a s) \<in> set request_values)"
proof (cases "actor a = p")
  case True
  have "status s \<in> set stop_values \<longrightarrow> status (act a s) \<in> set stop_values" "status s \<in> set request_values \<longrightarrow> status (act a s) \<in> set request_values"
    if "keeps_request (status s) (status (act a s))"
    using that unfolding keeps_request_def stop_values_def request_values_def by auto
  then show ?thesis using True p' act_by_holder [OF inv p] start_of_holder [OF p] by (cases a) (simp_all del: act.simps)
next
  case False
  from act_by_other [OF inv p False] show ?thesis by (simp add: stable_def)
qed

lemma act_release:
  assumes inv: "sys_inv s" and p: "holds_lock (thread s p)" and p': "\<not> holds_lock (thread (act a s) p)"
  shows "served (status s) (status (act a s)) \<and> \<not> is_locked (status (act a s))"
proof -
  have a: "actor a = p" using p p' act_other [of a p s] by metis
  then obtain c where c: "a = Run p c" using p p' start_of_holder [OF p] by (cases a) (auto simp del: act.simps)
  have "view (thread (act a s) q) = []" for q
    using inv p p' act_other [of a q s] a by (cases "q = p") (auto simp: sys_inv_def holds_lock_view)
  then have "\<not> is_locked (status (act a s))" using act_inv [OF inv, of a] by (auto simp: sys_inv_def)
  then show ?thesis using act_by_holder [OF inv p, of c] p' c by (simp del: act.simps)
qed

text \<open>A request that is in the status word at some moment is there at the last one before the release.\<close>

lemma requests_stay:
  assumes inv: "sys_inv s" and n: "n \<le> length acts" "\<forall>m < n. holds_lock (thread (sched (take m acts) s) p)" and m: "m < n"
  shows "(status (sched (take m acts) s) \<in> set stop_values \<longrightarrow> status (sched (take (n - 1) acts) s) \<in> set stop_values) \<and>
    (status (sched (take m acts) s) \<in> set request_values \<longrightarrow> status (sched (take (n - 1) acts) s) \<in> set request_values)"
proof -
  have "m \<le> n - 1" using m by simp
  then show ?thesis
  proof (induction rule: inc_induct)
    case (step k)
    then have "holds_lock (thread (sched (take k acts) s) p)" "holds_lock (thread (sched (take (Suc k) acts) s) p)" "k < length acts" using n by auto
    moreover have "sched (take (Suc k) acts) s = act (acts ! k) (sched (take k acts) s)" using \<open>k < length acts\<close> by (rule sched_take_Suc)
    ultimately show ?case using act_requests [OF sched_inv [OF inv], of "take k acts" p "acts ! k"] step.IH by simp
  qed simp
qed

lemma request_flags:
  assumes "st \<in> set valid_values"
  shows "has_bits st IEWS_WAITERSTATUS_DISCONNECT_PEND \<longleftrightarrow> st \<in> set stop_values"
    "has_bits st IEWS_WAITERSTATUS_DISABLE_PEND \<longrightarrow> st \<in> set request_values"
    "has_bits st IEWS_WAITERSTATUS_CANCEL_DISABLE_PEND \<longleftrightarrow> st \<in> {0x30, 0xB0}"
    "has_bits st IEWS_WAITERSTATUS_DISABLE_PEND \<and> \<not> has_bits st (IEWS_WAITERSTATUS_CANCEL_DISABLE_PEND OR IEWS_WAITERSTATUS_DISCONNECT_PEND) \<longrightarrow> st = 0x10 \<or> st = 0x90"
  using assms by (rule valid_cases; simp add: iews_defs stop_values_def request_values_def)+

lemma release_of_request:
  assumes inv: "sys_inv s" and n: "n \<le> length acts" "\<forall>m < n. holds_lock (thread (sched (take m acts) s) p)" "\<not> holds_lock (thread (sched (take n acts) s) p)" "n \<noteq> 0"
  shows "\<not> is_locked (status (sched (take n acts) s))"
    "m < n \<Longrightarrow> status (sched (take m acts) s) \<in> set stop_values \<Longrightarrow> status (sched (take n acts) s) = 0"
    "m < n \<Longrightarrow> status (sched (take m acts) s) \<in> set request_values \<Longrightarrow> status (sched (take (n - 1) acts) s) \<notin> set stop_values \<Longrightarrow>
      status (sched (take n acts) s) = (if status (sched (take (n - 1) acts) s) \<in> {0x30, 0xB0} then 2 else 1)"
proof -
  let ?t = "sched (take (n - 1) acts) s"
  have "sched (take n acts) s = act (acts ! (n - 1)) ?t" using n(1,4) sched_take_Suc [of "n - 1" acts s] by simp
  moreover have "holds_lock (thread ?t p)" using n(2,4) by simp
  ultimately have rel: "served (status ?t) (status (sched (take n acts) s))" "\<not> is_locked (status (sched (take n acts) s))"
    using act_release [OF sched_inv [OF inv], of "take (n - 1) acts" p] n(3) by simp_all
  then show "\<not> is_locked (status (sched (take n acts) s))" by simp
  show "status (sched (take n acts) s) = 0" if "m < n" "status (sched (take m acts) s) \<in> set stop_values"
    using requests_stay [OF inv n(1,2) that(1)] that(2) rel(1) unfolding served_def stop_values_def by auto
  show "status (sched (take n acts) s) = (if status ?t \<in> {0x30, 0xB0} then 2 else 1)"
    if "m < n" "status (sched (take m acts) s) \<in> set request_values" "status ?t \<notin> set stop_values"
    using requests_stay [OF inv n(1,2) that(1)] that(2,3) rel(1) unfolding served_def request_values_def by auto
qed

text \<open>A holder that is not disturbed leaves the consumer enabled if the request to disable it was cancelled.\<close>

lemma alone_enables:
  assumes "sys_inv s" "holds_lock (thread s p)" "status s \<in> {0x30, 0xB0}" "rank (thread s p) (status s) \<le> length cs"
  shows "\<exists>n \<le> rank (thread s p) (status s). status (sched (map (Run p) (take n cs)) s) = 2"
  using assms
proof (induction cs arbitrary: s)
  case Nil
  then show ?case using rank_pos [OF Nil(2), of "status s"] by simp
next
  case (Cons c cs)
  let ?t = "act (Run p c) s"
  have pos: "Suc 0 \<le> rank (thread s p) (status s)" using rank_pos [OF Cons.prems(2)] by (simp add: Suc_le_eq)
  note step = act_by_holder [OF Cons.prems(1,2), of c]
  show ?case
  proof (cases "holds_lock (thread ?t p)")
    case False
    then have "status ?t = 2" using step Cons.prems(3) by (auto simp: served_def simp del: act.simps)
    then show ?thesis using pos by (intro exI [of _ "Suc 0"]) (simp del: act.simps)
  next
    case True
    then have less: "rank (thread ?t p) (status ?t) < rank (thread s p) (status s)" and "status ?t \<in> {0x30, 0xB0}"
      using step Cons.prems(3) by (auto simp: keeps_request_def simp del: act.simps)
    moreover have "rank (thread ?t p) (status ?t) \<le> length cs" using less Cons.prems(4) by simp
    ultimately obtain n where "n \<le> rank (thread ?t p) (status ?t)" "status (sched (map (Run p) (take n cs)) ?t) = 2"
      using Cons.IH [OF act_inv [OF Cons.prems(1)] True] by blast
    then show ?thesis using less by (intro exI [of _ "Suc n"]) (simp del: act.simps)
  qed
qed

section \<open>The code that a call returns\<close>

fun final :: "cont \<Rightarrow> int" where
  "final (Fin rc) = rc"
| "final (CheckThen k) = final k"
| "final (LoopThen k) = final k"
| "final (ReleaseThen k) = final k"

text \<open>The places from which a call can only return the code \<open>rc\<close>, and a step that keeps to that.\<close>

definition answers :: "int \<Rightarrow> pc \<Rightarrow> bool" where
  "answers rc pc = (case pc of Failed \<Rightarrow> True | In_checkWaiters k p \<Rightarrow> final k = rc | In_addPendFlag k p \<Rightarrow> final k = rc
     | In_completeWaiterActions allow enabled k p \<Rightarrow> final k = rc
     | In_enableWaiter later p \<Rightarrow> (case p of EnableEnd old rc' \<Rightarrow>
         rc = (if \<not> later \<and> (old = IEWS_WAITERSTATUS_DISABLED \<or> has_bits old IEWS_WAITERSTATUSMASK_ACTIVE) then 0 else rc') | _ \<Rightarrow> False)
     | _ \<Rightarrow> False)"

definition answer_step :: "int \<Rightarrow> result \<Rightarrow> bool" where
  "answer_step rc r = (case r of (st, pc, evs) \<Rightarrow> codes evs = [] \<and> answers rc pc \<or> codes evs = [rc] \<and> pc = Idle)"

lemma codes_simps [simp]:
  "codes [] = []" "codes (Return rc # evs) = rc # codes evs" "codes (Release_Consumer # evs) = codes evs" "codes (Reclaim_Space # evs) = codes evs"
  "codes (Detach_Consumer # evs) = codes evs" "codes (Deliver_Status x # evs) = codes evs" "codes (Reduce_PreDelete # evs) = codes evs"
  by (simp_all add: codes_def)

lemma answers_simps [simp]:
  "answers rc Failed" "answers rc (In_checkWaiters k pcc) = (final k = rc)" "answers rc (In_addPendFlag k pcr) = (final k = rc)"
  "answers rc (In_completeWaiterActions allow enabled k pcx) = (final k = rc)"
  by (simp_all add: answers_def)

lemma resume_answers: "codes (snd (resume k)) = [] \<and> answers (final k) (fst (resume k)) \<or> codes (snd (resume k)) = [final k] \<and> fst (resume k) = Idle"
  by (induction k) (auto split: prod.splits)

lemma codes_append: "codes (evs @ evs') = codes evs @ codes evs'"
  by (simp add: codes_def map_filter_def)

lemma answer_step_return [simp]: "codes evs = [] \<Longrightarrow> answer_step (final k) (return_to st evs k)"
  using resume_answers [of k] by (auto simp: answer_step_def return_to_def codes_append split: prod.splits)

lemma answer_step_simp: "answer_step rc (st, pc, evs) \<longleftrightarrow> codes evs = [] \<and> answers rc pc \<or> codes evs = [rc] \<and> pc = Idle"
  by (simp add: answer_step_def)

lemma answer_step_cas: "answer_step rc (done to) \<Longrightarrow> answer_step rc fail \<Longrightarrow> answer_step rc (cas check from to st done fail)"
  by (simp add: cas_def answer_step_simp)

lemma answer_step_return_to: "codes evs = [] \<Longrightarrow> final k = rc \<Longrightarrow> answer_step rc (return_to st evs k)"
  using answer_step_return by blast

lemmas answer_step_intros = answer_step_cas answer_step_return_to

lemma complete_answer: "answer_step (final k) (ieq_completeWaiterActions allow enabled k pc st)"
  by (cases pc) (auto simp: ieq_completeWaiterActions_def complete_end_def complete_disable_swap_def complete_disconnect_swap_def Let_def answer_step_simp
      intro!: answer_step_intros)

lemma check_answer: "answer_step (final k) (iesq_checkWaiters c k pc st)"
  by (cases pc) (auto simp: iesq_checkWaiters_def Let_def answer_step_simp intro!: answer_step_intros)

lemma add_pend_answer: "answer_step (final k) (iews_addPendFlagWhileLocked k flag pc st)"
  by (cases pc) (auto simp: iews_addPendFlagWhileLocked_def Let_def answer_step_simp intro!: answer_step_intros)

lemma enable_answer: "answers rc (In_enableWaiter later pc) \<Longrightarrow> answer_step rc (ieq_enableWaiter later pc st)"
  by (cases pc) (auto simp: answers_def ieq_enableWaiter_def intro!: answer_step_intros)

lemma thread_step_answer:
  assumes "answers rc pc"
  shows "answer_step rc (thread_step c st pc)"
proof (cases pc)
  case (In_enableWaiter later p)
  then show ?thesis using assms enable_answer by (simp add: thread_step_def)
qed (use assms complete_answer check_answer add_pend_answer in \<open>auto simp: thread_step_def answer_step_simp\<close>, simp_all add: answers_def)

lemma first_answer:
  assumes "answers rc (thread s q)"
  shows "returned q acts s = [] \<or> hd (returned q acts s) = rc"
  using assms
proof (induction acts arbitrary: s)
  case (Cons a acts)
  show ?case
  proof (cases "\<exists>c. a = Run q c")
    case True
    then obtain c where c: "a = Run q c" by blast
    obtain st pc evs where r: "thread_step c (status s) (thread s q) = (st, pc, evs)" by (metis prod_cases3)
    then have "codes evs = [] \<and> answers rc pc \<or> codes evs = [rc]" using thread_step_answer [OF Cons.prems, of c "status s"] by (auto simp: answer_step_simp)
    then show ?thesis using Cons.IH [of "s\<lparr>status := st, thread := (thread s)(q := pc)\<rparr>"] c r by auto
  next
    case False
    have "thread (act a s) q = thread s q"
    proof (cases "actor a = q")
      case True
      then obtain pc where "a = Start q pc" using False by (cases a) auto
      moreover have "thread s q \<noteq> Idle" using Cons.prems by (auto simp: answers_def)
      ultimately show ?thesis by simp
    qed (rule act_other)
    then show ?thesis using Cons False by (cases a) (simp_all del: act.simps)
  qed
qed simp

section \<open>Runs on concrete consumers\<close>

lemma delivering_run: "status delivering = 8" "thread delivering = (\<lambda>_. Idle)(1 := In_putToWaitingGetter PutDelivering)"
  by (simp_all add: delivering_def call_def initial_def thread_step_def iesq_putToWaitingGetter_def ieq_enableWaiter_def enable_swap_def ieiq_initWaiter_def
      return_to_def cas_def check_defs iews_defs fun_eq_iff)

lemma delivering_reachable: "reachable delivering"
  unfolding delivering_def
  by (intro exec_reachable call_reachable reachable.init)
    (simp_all add: call_def initial_def thread_step_def ieq_enableWaiter_def enable_swap_def ieiq_initWaiter_def return_to_def cas_def check_defs iews_defs entry_points_def)

lemma disable_requested_run:
  "status disable_requested = 0x10" "thread disable_requested = (\<lambda>_. Idle)(1 := In_putToWaitingGetter PutDelivering)"
  by (simp_all add: disable_requested_def call_def delivering_run thread_step_def ieq_disableWaiter_def disable_swap_def return_to_def cas_def check_defs iews_defs fun_eq_iff)

lemma disable_requested_reachable: "reachable disable_requested"
  unfolding disable_requested_def
  by (intro exec_reachable call_reachable delivering_reachable) (simp_all add: delivering_run entry_points_def)

text \<open>A schedule in which thread 2 asks to reclaim space while thread 1 holds the lock.\<close>

definition reclaim_schedule :: "action list" where
  "reclaim_schedule = [Start 2 (In_lockForReclaimSpace ReadStatus), Run 2 True, Run 2 True] @ replicate 28 (Run 1 True)"

lemma replicate_counts: "own_steps p (replicate n (Run p c)) = n" "changes_by_others p (replicate n (Run p c)) s = 0"
  by (induction n arbitrary: s) (simp_all del: act.simps)

lemma reclaim_schedule_counts:
  "length reclaim_schedule = 31" "own_steps 1 reclaim_schedule = 28" "changes_by_others 1 reclaim_schedule disable_requested = 1"
  by (simp_all add: reclaim_schedule_def replicate_counts disable_requested_run entry_points_def thread_step_def iews_tryLockForReclaimSpace_def
      return_to_def cas_def check_defs iews_defs)

lemma reclaim_requested_run:
  "status (sched (take 3 reclaim_schedule) disable_requested) = 0x90"
  "thread (sched (take 3 reclaim_schedule) disable_requested) = (\<lambda>_. Idle)(1 := In_putToWaitingGetter PutDelivering)"
  by (simp_all add: reclaim_schedule_def disable_requested_run entry_points_def thread_step_def iews_tryLockForReclaimSpace_def
      return_to_def cas_def check_defs iews_defs fun_eq_iff)

lemma sched_reachable: "reachable s \<Longrightarrow> reachable (sched acts s)"
  by (induction acts arbitrary: s) (simp_all add: act_reachable del: act.simps)

lemma replicate_simps: "replicate 2 x = [x, x]" "replicate 5 x = [x, x, x, x, x]"
  by (simp_all add: numeral_eq_Suc)

section \<open>Properties\<close>

text \<open>
  C3: the status word is a lock. In every state that threads reach by any interleaving of the calls on a consumer, the word says locked
  exactly if a thread is at a place where it holds the lock, at most one thread is at such a place, and no assertion on the word has failed.
\<close>

theorem waiter_lock:
  assumes "reachable s"
  shows "(has_bits (status s) IEWS_WAITERSTATUSMASK_LOCKED \<longleftrightarrow> (\<exists>p. holds_lock (thread s p))) \<and>
    (\<forall>p q. holds_lock (thread s p) \<and> holds_lock (thread s q) \<longrightarrow> p = q) \<and> (\<forall>p. thread s p \<noteq> Failed)"
proof -
  have inv: "sys_inv s" using assms by (rule sys_inv_reachable)
  have "is_locked (status s) \<longleftrightarrow> (\<exists>p. holds_lock (thread s p))"
    using inv view_locked [of _ "status s"] unfolding sys_inv_def holds_lock_view by blast
  moreover have "\<forall>p. thread s p \<noteq> Failed" using inv unfolding sys_inv_def by (metis pc_ok_simps(2))
  moreover have "\<forall>p q. holds_lock (thread s p) \<and> holds_lock (thread s q) \<longrightarrow> p = q" using inv unfolding sys_inv_def holds_lock_view by blast
  ultimately show ?thesis unfolding is_locked_def by blast
qed

theorem waiter_lock_witness:
  "reachable disable_requested \<and> (\<exists>!p. holds_lock (thread disable_requested p)) \<and> (\<forall>p. thread disable_requested p \<noteq> Failed)"
proof -
  have "has_bits (status disable_requested) IEWS_WAITERSTATUSMASK_LOCKED" by (simp add: disable_requested_run iews_defs)
  then show ?thesis using waiter_lock [OF disable_requested_reachable] disable_requested_reachable by blast
qed

text \<open>
  C20: the values of the status word. In every reachable state it is one of the six states that have a value of their own, or a non-empty set of
  request flags and nothing else, in which a cancelled request to disable comes with the request and never with a request to disconnect.
\<close>

theorem waiter_status_type:
  assumes "reachable s"
  shows "status s \<in> {IEWS_WAITERSTATUS_DISCONNECTED, IEWS_WAITERSTATUS_DISABLED, IEWS_WAITERSTATUS_ENABLED, IEWS_WAITERSTATUS_GETTING,
      IEWS_WAITERSTATUS_DELIVERING, IEWS_WAITERSTATUS_DISABLED_LOCKEDWAIT} \<or>
    status s \<noteq> 0 \<and> status s AND NOT IEWS_WAITERSTATUSMASK_PENDING = 0 \<and>
    (has_bits (status s) IEWS_WAITERSTATUS_CANCEL_DISABLE_PEND \<longrightarrow>
       has_bits (status s) IEWS_WAITERSTATUS_DISABLE_PEND \<and> \<not> has_bits (status s) IEWS_WAITERSTATUS_DISCONNECT_PEND)"
proof -
  have "status s \<in> set valid_values" using sys_inv_reachable [OF assms] by (simp add: sys_inv_def)
  then show ?thesis by (rule valid_cases) (simp_all add: iews_defs)
qed

theorem waiter_status_type_witness:
  "reachable disable_requested \<and> status disable_requested \<noteq> 0 \<and> status disable_requested AND NOT IEWS_WAITERSTATUSMASK_PENDING = 0"
  using waiter_status_type [OF disable_requested_reachable] disable_requested_reachable
  by (simp add: disable_requested_run iews_defs)

text \<open>
  C7: the lock is given back. Let a thread hold the lock in a reachable state, and let calls start and threads make steps in any order. Once the
  thread has made 14 steps of its own, and 14 more for every change of the status word by another thread, there was a first moment at which it did
  not hold the lock, and the word was unlocked then. (Without a bound on the changes it need not release the lock: requests to reclaim space
  that keep coming keep it busy.) If at some moment before there was a request to disconnect the consumer, it is
  disconnected at that moment. If there was a request to disable it and never one to disconnect it, it is enabled if the flag that cancels the
  request was set just before, and disabled otherwise.
\<close>

theorem waiter_lock_released:
  assumes "reachable s" and "holds_lock (thread s p)" and "14 * (1 + changes_by_others p acts s) \<le> own_steps p acts"
  shows "\<exists>n \<le> length acts. let at = (\<lambda>m. sched (take m acts) s)
    in (\<forall>m < n. holds_lock (thread (at m) p)) \<and> \<not> holds_lock (thread (at n) p) \<and> \<not> has_bits (status (at n)) IEWS_WAITERSTATUSMASK_LOCKED \<and>
       ((\<exists>m < n. has_bits (status (at m)) IEWS_WAITERSTATUS_DISCONNECT_PEND) \<longrightarrow> status (at n) = IEWS_WAITERSTATUS_DISCONNECTED) \<and>
       ((\<exists>m < n. has_bits (status (at m)) IEWS_WAITERSTATUS_DISABLE_PEND) \<and> (\<forall>m < n. \<not> has_bits (status (at m)) IEWS_WAITERSTATUS_DISCONNECT_PEND) \<longrightarrow>
          status (at n) = (if has_bits (status (at (n - 1))) IEWS_WAITERSTATUS_CANCEL_DISABLE_PEND then IEWS_WAITERSTATUS_ENABLED else IEWS_WAITERSTATUS_DISABLED))"
proof -
  define at where "at m = sched (take m acts) s" for m
  have inv: "sys_inv s" using assms(1) by (rule sys_inv_reachable)
  have "rank (thread s p) (status s) + 14 * changes_by_others p acts s \<le> own_steps p acts" using rank_le [of "thread s p" "status s"] assms(3) by simp
  from holder_releases [OF inv assms(2) this] obtain n where n: "n \<le> length acts" "\<forall>m < n. holds_lock (thread (at m) p)" "\<not> holds_lock (thread (at n) p)"
    unfolding at_def by blast
  have "n \<noteq> 0" using assms(2) n(3) by (cases n) (simp_all add: at_def)
  note rel = release_of_request [OF inv n [unfolded at_def] this, folded at_def]
  have valid: "status (at m) \<in> set valid_values" for m using sched_inv [OF inv] by (simp add: sys_inv_def at_def)
  note flags = request_flags [OF valid]
  have "status (at n) = IEWS_WAITERSTATUS_DISCONNECTED" if "m < n" "has_bits (status (at m)) IEWS_WAITERSTATUS_DISCONNECT_PEND" for m
    using rel(2) [OF that(1)] that(2) by (simp add: flags IEWS_WAITERSTATUS_DISCONNECTED_def)
  moreover have "status (at n) = (if has_bits (status (at (n - 1))) IEWS_WAITERSTATUS_CANCEL_DISABLE_PEND then IEWS_WAITERSTATUS_ENABLED else IEWS_WAITERSTATUS_DISABLED)"
    if "m < n" "has_bits (status (at m)) IEWS_WAITERSTATUS_DISABLE_PEND" "\<forall>m < n. \<not> has_bits (status (at m)) IEWS_WAITERSTATUS_DISCONNECT_PEND" for m
    using rel(3) [OF that(1)] that(2,3) flags(2) [of m] \<open>n \<noteq> 0\<close> by (simp add: flags(1,3) IEWS_WAITERSTATUS_ENABLED_def IEWS_WAITERSTATUS_DISABLED_def)
  ultimately show ?thesis using n rel(1) unfolding Let_def at_def [symmetric] is_locked_def by blast
qed

theorem waiter_lock_released_witness:
  "\<exists>n \<le> 31. let s' = sched (take n reclaim_schedule) disable_requested
     in \<not> holds_lock (thread s' 1) \<and> \<not> has_bits (status s') IEWS_WAITERSTATUSMASK_LOCKED"
proof -
  have "holds_lock (thread disable_requested 1)" by (simp add: disable_requested_run)
  moreover have "14 * (1 + changes_by_others 1 reclaim_schedule disable_requested) \<le> own_steps 1 reclaim_schedule"
    unfolding reclaim_schedule_counts by simp
  ultimately show ?thesis
    using waiter_lock_released [OF disable_requested_reachable, of 1 reclaim_schedule] unfolding Let_def reclaim_schedule_counts by blast
qed

text \<open>
  C31: what is reported for a consumer. In every reachable state a consumer is reported as stopped exactly if it is disabled or locked by an operation on
  the queue that keeps it from being enabled, and then no thread passes a message to it; a consumer that is disconnected is reported as started.
\<close>

theorem delivery_status_report:
  assumes "reachable s"
  shows "(ism_engine_getConsumerMessageDeliveryStatus (status s) = ismMESSAGE_DELIVERY_STATUS_STOPPED \<longleftrightarrow>
      status s \<in> {IEWS_WAITERSTATUS_DISABLED, IEWS_WAITERSTATUS_DISABLED_LOCKEDWAIT}) \<and>
    (ism_engine_getConsumerMessageDeliveryStatus (status s) = ismMESSAGE_DELIVERY_STATUS_STOPPED \<longrightarrow> (\<forall>p. \<not> passes_message (thread s p))) \<and>
    (status s = IEWS_WAITERSTATUS_DISCONNECTED \<longrightarrow> ism_engine_getConsumerMessageDeliveryStatus (status s) = ismMESSAGE_DELIVERY_STATUS_STARTED)"
proof -
  have inv: "sys_inv s" using assms by (rule sys_inv_reachable)
  have "status s \<in> set valid_values" using inv by (simp add: sys_inv_def)
  then have report: "ism_engine_getConsumerMessageDeliveryStatus (status s) = ismMESSAGE_DELIVERY_STATUS_STOPPED \<longleftrightarrow>
      status s \<in> {IEWS_WAITERSTATUS_DISABLED, IEWS_WAITERSTATUS_DISABLED_LOCKEDWAIT}"
    by (rule valid_cases) (simp_all add: ism_engine_getConsumerMessageDeliveryStatus_def iews_defs)
  have "status s \<in> set (8 # pend_values)" if "passes_message (thread s p)" for p
  proof -
    have "view (thread s p) = 8 # pend_values" using that by (auto simp: passes_message_def check_view_def split: pc.splits)
    then show ?thesis using inv by (metis sys_inv_def list.distinct(1))
  qed
  moreover have "status s \<notin> set (8 # pend_values)" if "status s \<in> {IEWS_WAITERSTATUS_DISABLED, IEWS_WAITERSTATUS_DISABLED_LOCKEDWAIT}"
    using that by (auto simp: value_defs IEWS_WAITERSTATUS_DISABLED_def IEWS_WAITERSTATUS_DISABLED_LOCKEDWAIT_def)
  ultimately have "status s \<in> {IEWS_WAITERSTATUS_DISABLED, IEWS_WAITERSTATUS_DISABLED_LOCKEDWAIT} \<longrightarrow> (\<forall>p. \<not> passes_message (thread s p))"
    by blast
  moreover have "ism_engine_getConsumerMessageDeliveryStatus IEWS_WAITERSTATUS_DISCONNECTED = ismMESSAGE_DELIVERY_STATUS_STARTED"
    by (simp add: ism_engine_getConsumerMessageDeliveryStatus_def iews_defs)
  ultimately show ?thesis using report by metis
qed

theorem delivery_status_report_witness:
  "reachable initial \<and> status initial = IEWS_WAITERSTATUS_DISCONNECTED \<and>
   ism_engine_getConsumerMessageDeliveryStatus (status initial) = ismMESSAGE_DELIVERY_STATUS_STARTED"
  using delivery_status_report [OF reachable.init] reachable.init by (simp add: initial_def)

text \<open>
  C39: a dump of the queue locks a disabled consumer as if messages were delivered to it. A request to reclaim space that comes during the dump
  leaves the consumer enabled although no thread enabled it; a call to enable the consumer during the dump is answered with the code for
  a consumer that is enabled already, and the consumer is disabled after the dump.
\<close>

theorem dump_of_disabled_waiter:
  assumes "status s = IEWS_WAITERSTATUS_DISABLED" and "p \<noteq> q"
  shows "status (exec (replicate 5 (p, False)) (dump_with p q (In_lockForReclaimSpace ReadStatus) s)) = IEWS_WAITERSTATUS_ENABLED \<and>
    status (exec (replicate 2 (p, False)) (dump_with p q (In_enableWaiter later EnableRead) s)) = IEWS_WAITERSTATUS_DISABLED \<and>
    thread_step c IEWS_WAITERSTATUS_DELIVERING (In_enableWaiter later (EnableCAS IEWS_WAITERSTATUS_DELIVERING)) =
      (IEWS_WAITERSTATUS_DELIVERING, Idle, [Return ISMRC_WaiterEnabled])"
proof -
  have locked: "exec [(p, False), (p, False)] (call p (In_lockConsumerForDump False ReadStatus) s) = s\<lparr>status := 8, thread := (thread s)(p := In_locked (DumpHeld 1))\<rparr>"
    using assms(1) by (simp add: call_def thread_step_def iesq_lockConsumerForDump_def cas_def iews_defs)
  have reclaim: "dump_with p q (In_lockForReclaimSpace ReadStatus) s = s\<lparr>status := 0x80, thread := (thread s)(p := In_locked (DumpHeld 1), q := Idle)\<rparr>"
    using assms(2) unfolding dump_with_def locked by (simp add: call_def thread_step_def iews_tryLockForReclaimSpace_def return_to_def cas_def check_defs iews_defs)
  have enable: "dump_with p q (In_enableWaiter later EnableRead) s = s\<lparr>status := 8, thread := (thread s)(p := In_locked (DumpHeld 1), q := Idle)\<rparr>"
    using assms(2) unfolding dump_with_def locked by (simp add: call_def thread_step_def ieq_enableWaiter_def enable_swap_def return_to_def cas_def check_defs iews_defs)
  have "status (exec (replicate 5 (p, False)) (dump_with p q (In_lockForReclaimSpace ReadStatus) s)) = IEWS_WAITERSTATUS_ENABLED"
    using assms(2) unfolding reclaim replicate_simps
    by (simp add: thread_step_def locked_step_def dump_unlock_def ieq_completeWaiterActions_def Let_def return_to_def cas_def check_defs iews_defs)
  moreover have "status (exec (replicate 2 (p, False)) (dump_with p q (In_enableWaiter later EnableRead) s)) = IEWS_WAITERSTATUS_DISABLED"
    using assms(2) unfolding enable replicate_simps by (simp add: thread_step_def locked_step_def dump_unlock_def return_to_def cas_def iews_defs)
  ultimately show ?thesis by (simp add: thread_step_def ieq_enableWaiter_def enable_swap_def return_to_def iews_defs)
qed

theorem dump_of_disabled_waiter_witness:
  "status (exec (replicate 5 (0, False)) (dump_with 0 1 (In_lockForReclaimSpace ReadStatus) (initial\<lparr>status := IEWS_WAITERSTATUS_DISABLED\<rparr>))) = IEWS_WAITERSTATUS_ENABLED"
  using dump_of_disabled_waiter [of "initial\<lparr>status := IEWS_WAITERSTATUS_DISABLED\<rparr>" 0 1] by simp

text \<open>
  C40: enabling a consumer that is about to be disabled. In a reachable state let a thread hold the lock of a consumer with a pending request to disable it,
  not cancelled and without a request to disconnect, and let another thread call enable and make its first two steps. The flag that cancels the request is added. If no
  other thread interferes, the holder leaves the consumer enabled within 14 steps. Under every schedule from then on, the code that the call returns, if it returns,
  is the one that tells that a request was cancelled if messages are to be delivered later or if there was no request to reclaim space as well; in the remaining case
  that code is lost and the call returns 0.
\<close>

theorem enable_cancels_disable:
  assumes "reachable s" and "holds_lock (thread s p)" and "thread s q = Idle"
    and "has_bits (status s) IEWS_WAITERSTATUS_DISABLE_PEND"
    and "\<not> has_bits (status s) (IEWS_WAITERSTATUS_CANCEL_DISABLE_PEND OR IEWS_WAITERSTATUS_DISCONNECT_PEND)"
  shows "let s' = sched [Start q (In_enableWaiter later EnableRead), Run q c, Run q c'] s
    in status s' = status s OR IEWS_WAITERSTATUS_CANCEL_DISABLE_PEND \<and>
       (\<forall>cs. 14 \<le> length cs \<longrightarrow> (\<exists>n \<le> 14. status (sched (map (Run p) (take n cs)) s') = IEWS_WAITERSTATUS_ENABLED)) \<and>
       (\<forall>acts. returned q acts s' = [] \<or>
          hd (returned q acts s') = (if later \<or> \<not> has_bits (status s) IEWS_WAITERSTATUS_RECLAIMSPACE_PEND then ISMRC_DisableWaiterCancel else 0))"
proof -
  define s' where "s' = sched [Start q (In_enableWaiter later EnableRead), Run q c, Run q c'] s"
  have inv: "sys_inv s" using assms(1) by (rule sys_inv_reachable)
  then have "status s \<in> set valid_values" by (simp add: sys_inv_def)
  then have st: "status s = 0x10 \<or> status s = 0x90" using request_flags(4) assms(4,5) by blast
  have s': "s' = s\<lparr>status := status s OR 0x20, thread := (thread s)(q := In_enableWaiter later (EnableEnd (status s) ISMRC_DisableWaiterCancel))\<rparr>"
    using st assms(3) by (auto simp: s'_def entry_points_def thread_step_def ieq_enableWaiter_def enable_swap_def cas_def check_defs iews_defs)
  have "p \<noteq> q" using assms(2,3) by (auto simp: holds_lock_def)
  then have p: "holds_lock (thread s' p)" using assms(2) by (simp add: s')
  have "\<exists>n \<le> 14. status (sched (map (Run p) (take n cs)) s') = IEWS_WAITERSTATUS_ENABLED" if "14 \<le> length cs" for cs
  proof -
    have "sys_inv s'" unfolding s'_def using inv by (rule sched_inv)
    moreover have "status s' \<in> {0x30, 0xB0}" using st by (auto simp: s')
    moreover have "rank (thread s' p) (status s') \<le> length cs" using that rank_le [of "thread s' p" "status s'"] by simp
    ultimately obtain n where "n \<le> rank (thread s' p) (status s')" "status (sched (map (Run p) (take n cs)) s') = 2" using alone_enables p by blast
    then show ?thesis using rank_le [of "thread s' p" "status s'"] unfolding IEWS_WAITERSTATUS_ENABLED_def by (meson le_trans)
  qed
  moreover have "answers (if later \<or> \<not> has_bits (status s) IEWS_WAITERSTATUS_RECLAIMSPACE_PEND then ISMRC_DisableWaiterCancel else 0) (thread s' q)"
    using st by (auto simp: s' answers_def iews_defs)
  ultimately show ?thesis using first_answer [of _ s' q] unfolding s'_def [symmetric] Let_def by (simp add: s' IEWS_WAITERSTATUS_CANCEL_DISABLE_PEND_def)
qed

theorem enable_cancels_disable_witness:
  "let s = sched (take 3 reclaim_schedule) disable_requested;
       s' = sched [Start 2 (In_enableWaiter False EnableRead), Run 2 True, Run 2 True] s
   in status s' = status s OR IEWS_WAITERSTATUS_CANCEL_DISABLE_PEND \<and> hd (returned 2 [Run 2 True, Run 2 True] s') = 0"
proof -
  define s where "s = sched (take 3 reclaim_schedule) disable_requested"
  define s' where "s' = sched [Start 2 (In_enableWaiter False EnableRead), Run 2 True, Run 2 True] s"
  note run = reclaim_requested_run [folded s_def]
  have "reachable s" unfolding s_def using disable_requested_reachable by (rule sched_reachable)
  moreover have "holds_lock (thread s 1)" "thread s 2 = Idle" by (simp_all add: run)
  moreover have "has_bits (status s) IEWS_WAITERSTATUS_DISABLE_PEND" "has_bits (status s) IEWS_WAITERSTATUS_RECLAIMSPACE_PEND"
    "\<not> has_bits (status s) (IEWS_WAITERSTATUS_CANCEL_DISABLE_PEND OR IEWS_WAITERSTATUS_DISCONNECT_PEND)" by (simp_all add: run iews_defs)
  moreover have "returned 2 [Run 2 True, Run 2 True] s' \<noteq> []"
    by (simp add: s'_def run entry_points_def thread_step_def ieq_enableWaiter_def enable_swap_def iesq_checkWaiters_def return_to_def cas_def check_defs iews_defs)
  ultimately have "status s' = status s OR IEWS_WAITERSTATUS_CANCEL_DISABLE_PEND \<and> hd (returned 2 [Run 2 True, Run 2 True] s') = 0"
    using enable_cancels_disable [of s 1 2 False True True] unfolding s'_def [symmetric] Let_def by metis
  then show ?thesis unfolding s'_def s_def Let_def .
qed

end
