(* ===== verification/Spec2Isabelle.thy ===== *)
theory Spec2Isabelle
  imports MsgId Subscribing Serialize WaiterProgress
begin

text \<open>
  \<^bold>\<open>Amlen message broker: a verification library\<close>

  Amlen is a publish/subscribe server in C. The network layer (\<^verbatim>\<open>src/server_transport\<close>) hands the frames of a client to a protocol (\<^verbatim>\<open>src/server_protocol\<close>), which
  calls the engine (\<^verbatim>\<open>src/server_engine\<close>): sessions, the topic tree, queues with consumers, and transactions over a store (\<^verbatim>\<open>src/server_store\<close>).
  All of them use the utilities (\<^verbatim>\<open>src/server_utils\<close>): hash maps, properties objects, the format of typed values on the wire, conversions. This
  library models parts of the utilities, the protocol and the engine that work in memory.

  \<^bold>\<open>How the code is modelled\<close>

  A C struct is a record, its fields prefixed by two letters; an enum is a datatype; integers are words of their width, memory that is
  read byte by byte is a list of 8-bit words, a C string in such memory ends at the first 0. A function that changes a structure returns the new one. The result \<open>None\<close> is undefined
  behaviour (an access out of bounds or to freed memory, an overflow of a signed integer where the model has one, a failed assertion) or a loop that ran out of fuel; the theorems show that it does not occur, or
  exhibit the input on which it does. The outcomes of allocations are arguments. Return codes are the numbers of \<^verbatim>\<open>ismrc.h\<close>.

  \<^bold>\<open>The theories\<close>

  \<^item> \<open>Prelude\<close>: word types, little-endian images, return codes, lemmas on lists and words. \<open>KeyValue\<close>: the contracts \<open>kv_map\<close> and \<open>kv_store\<close> between a table and its
    clients, and the theory of bucket tables that the two hash tables share.
  \<^item> \<open>HashMap\<close>: \<^verbatim>\<open>server_utils/src/map.c\<close>, the general hash map with its enumeration. It refines a finite map (\<open>hash_map_refines_map\<close>), for every sequence of calls and
    whether or not the table can grow.
  \<^item> \<open>MsgId\<close>: \<^verbatim>\<open>server_protocol/src/msgid.c\<close>, the message identifiers in flight of an MQTT session, in hash maps that the sessions share, with a list of free
    entries for each session. Adding, removing and freeing change the entries of the client only and keep the lists of the other clients. After an identifier is added twice, or without memory for the
    element of the map, the session counts more entries than there are, and freeing its list does not end.
  \<^item> \<open>EngineHashTable\<close>: \<^verbatim>\<open>server_engine/src/engineHashTable.c\<close>, sorted chains in growing arrays; lookups after insertions, removals and resizing, traversals, and what
    a failed allocation leaves behind.
  \<^item> \<open>TopicString\<close>: \<^verbatim>\<open>server_engine/src/topicTreeUtils.c\<close>, the analysis of a topic into levels with growing arrays, the validation and the hashes of topic strings.
  \<^item> \<open>SubsTree\<close>: \<^verbatim>\<open>server_engine/src/topicTree.c\<close>, the tree of subscriptions: inserting and finding the node of a filter, the list of subscriptions at a node, the search for
    the nodes that match a topic, the list of subscribers. \<open>TopicRouting\<close> defines when a filter matches a topic and shows how often the search finds a node, \<open>SubsInsert\<close> that
    insertion keeps the tree a map from paths to nodes, \<open>Subscribing\<close> that a message reaches exactly the subscriptions whose filter matches its topic.
  \<^item> \<open>NumConv\<close>, \<open>Properties\<close>, \<open>Xid\<close>: \<^verbatim>\<open>server_utils/src/ismutil.c\<close> and \<^verbatim>\<open>properties.c\<close>: integers as text, properties objects with their block allocator and their typed
    readers, transaction identifiers as text and on the wire.
  \<^item> \<open>Buffer\<close>, \<open>Content\<close>: \<^verbatim>\<open>server_utils/src/content.c\<close>: the growing buffer and the readers, writers and searches of typed values. \<open>Encoding\<close> is the wire format as a function of the
    value, \<open>Serialize\<close> shows that the writers produce it and the readers invert it.
  \<^item> \<open>WaiterStatus\<close>: \<^verbatim>\<open>server_engine/src/waiterStatus.c\<close> and the parts of \<^verbatim>\<open>simpQ.c\<close> and \<^verbatim>\<open>intermediateQ.c\<close> that use it: the status word of a consumer, changed by
    compare-and-swap in concurrent threads, as a step relation. \<open>WaiterSafety\<close> has the invariant, \<open>WaiterProgress\<close> the properties of all reachable states.

  \<^bold>\<open>Bounds and fuel\<close>

  Loops over a pointer structure take fuel where the structure might be cyclic; the theorems give the amount that is enough: 65536 turns for the list of message
  identifiers, the number of bytes for a search in serialized properties, 14 steps for the holder of the lock of a consumer and 14 more for every change of its status by another thread, one
  more than the greatest depth of a topic for the search in the tree and two more for the way from a node to the root. Counters are assumed
  to be below the width of their word (fewer than \<open>2^31\<close> entries in a table, 44 million properties in an object, names and values below \<open>2^31 - 1200\<close> bytes, \<open>2^30\<close> bytes of encoding, fewer than \<open>2^20\<close> subscriptions of at most 32 levels in the tree, which then has at most \<open>2^25\<close> nodes).

  \<^bold>\<open>Not modelled\<close>

  The store, transactions, sessions and client states (shared memory, files and asynchronous completion), removing subscriptions from the topic tree, its named subscriptions, caches, retained
  messages and remote servers, message pages of the queues, the protocols beyond message identifiers, the
  transport, security, administration, monitoring, the proxy and the bridge, the cluster library, the clients and the user interface: they are input and output, call
  third-party libraries (OpenSSL, LDAP, jansson, ICU) or are in other languages. Of \<^verbatim>\<open>content.c\<close> the writer of maps from JSON and the Kafka records are left out, of
  \<^verbatim>\<open>properties.c\<close> the floating point conversions, which depend on the C library.
\<close>

end
